(* ===== verification/Prelude.thy ===== *)
theory Prelude
  imports Complex_Main "HOL-Library.Word"
begin

text \<open>
  Shared vocabulary of the gateway development: the machine integer types and their
  wrap-around arithmetic, C++ exceptions as values, the state-and-exception monad in which
  the stateful components are written, and the parts of the C++ string library the sources
  use (\<open>find\<close>, \<open>std::to_string\<close>, \<open>std::from_chars\<close>, \<open>printf\<close> zero padding), with the
  lemmas about them that several components need.

  A \<open>std::string\<close> that is text is a \<^typ>\<open>string\<close>; a \<open>std::string\<close> or buffer that
  is written to disk is a list of \<open>8 word\<close>, and \<open>string_bytes\<close> and \<open>bytes_string\<close>
  convert between the two views.
\<close>

named_theorems prog_simps \<open>unfolding rules of the state-and-exception monad\<close>
named_theorems u64_simps \<open>64-bit arithmetic that does not wrap\<close>

section \<open>Machine integers\<close>

type_synonym byte = "8 word"
type_synonym u32 = "32 word"
type_synonym u64 = "64 word"

definition uint32_max :: nat where
  "uint32_max = 2 ^ 32 - 1"

definition uint64_max :: nat where
  "uint64_max = 2 ^ 64 - 1"

text \<open>\<open>std::size_t\<close> and \<open>std::uint64_t\<close> are 64-bit on the supported targets: a value is a
  \<^typ>\<open>nat\<close> and every operation that may leave the range says how it wraps.\<close>

definition add64 :: "nat \<Rightarrow> nat \<Rightarrow> nat" where
  "add64 a b = (a + b) mod 2 ^ 64"

definition sub64 :: "nat \<Rightarrow> nat \<Rightarrow> nat" where
  "sub64 a b = (a + 2 ^ 64 - b) mod 2 ^ 64"

lemma add64_exact [u64_simps]: "a + b < 2 ^ 64 \<Longrightarrow> add64 a b = a + b"
  by (simp add: add64_def)

lemma mod_sub_exact: "b \<le> a \<Longrightarrow> a < m \<Longrightarrow> (a + m - b) mod m = a - b" for a b m :: nat
proof -
  assume "b \<le> a" and "a < m"
  then have eq: "a + m - b = (a - b) + m" and lt: "a - b < m" by linarith+
  show ?thesis unfolding eq using lt by simp
qed

lemma sub64_exact [u64_simps]: "b \<le> a \<Longrightarrow> a < 2 ^ 64 \<Longrightarrow> sub64 a b = a - b"
  unfolding sub64_def by (rule mod_sub_exact)

lemma add64_less: "add64 a b < 2 ^ 64"
  by (simp add: add64_def)

lemma sub64_less: "sub64 a b < 2 ^ 64"
  by (simp add: sub64_def)

section \<open>Exceptions and stateful programs\<close>

text \<open>The exception classes the sources throw, with the text of \<open>what()\<close>; a
  \<open>std::system_error\<close> also carries the \<open>errno\<close> value.\<close>

type_synonym errno = int

datatype exn =
    Runtime_error string
  | Invalid_argument string
  | Logic_error string
  | Length_error string
  | Overflow_error string
  | System_error errno string
  | Filesystem_error string

text \<open>A stateful operation returns a value or throws, and in both cases leaves a state.\<close>

type_synonym ('s, 'a) prog = "'s \<Rightarrow> (exn + 'a) \<times> 's"

definition ret :: "'a \<Rightarrow> ('s, 'a) prog" where
  "ret x = (\<lambda>s. (Inr x, s))"

definition throw :: "exn \<Rightarrow> ('s, 'a) prog" where
  "throw e = (\<lambda>s. (Inl e, s))"

definition bind :: "('s, 'a) prog \<Rightarrow> ('a \<Rightarrow> ('s, 'b) prog) \<Rightarrow> ('s, 'b) prog" where
  "bind m k = (\<lambda>s. case m s of (Inl e, s') \<Rightarrow> (Inl e, s') | (Inr x, s') \<Rightarrow> k x s')"

definition gets :: "('s \<Rightarrow> 'a) \<Rightarrow> ('s, 'a) prog" where
  "gets f = (\<lambda>s. (Inr (f s), s))"

definition modify :: "('s \<Rightarrow> 's) \<Rightarrow> ('s, unit) prog" where
  "modify f = (\<lambda>s. (Inr (), f s))"

text \<open>\<open>try { m } catch (...) { h; throw; }\<close>\<close>

definition on_exn :: "('s, 'a) prog \<Rightarrow> ('s \<Rightarrow> 's) \<Rightarrow> ('s, 'a) prog" where
  "on_exn m h = (\<lambda>s. case m s of (Inl e, s') \<Rightarrow> (Inl e, h s') | (Inr x, s') \<Rightarrow> (Inr x, s'))"

lemma ret_apply [simp, prog_simps]: "ret x s = (Inr x, s)"
  by (simp add: ret_def)

lemma throw_apply [simp, prog_simps]: "throw e s = (Inl e, s)"
  by (simp add: throw_def)

lemma gets_apply [simp, prog_simps]: "gets f s = (Inr (f s), s)"
  by (simp add: gets_def)

lemma modify_apply [simp, prog_simps]: "modify f s = (Inr (), f s)"
  by (simp add: modify_def)

lemma bind_apply [prog_simps]:
  "bind m k s = (case m s of (Inl e, s') \<Rightarrow> (Inl e, s') | (Inr x, s') \<Rightarrow> k x s')"
  by (simp add: bind_def)

lemma on_exn_apply [prog_simps]:
  "on_exn m h s = (case m s of (Inl e, s') \<Rightarrow> (Inl e, h s') | (Inr x, s') \<Rightarrow> (Inr x, s'))"
  by (simp add: on_exn_def)

lemma bind_Inr: "m s = (Inr x, s') \<Longrightarrow> bind m k s = k x s'"
  by (simp add: bind_def)

lemma bind_Inl: "m s = (Inl e, s') \<Longrightarrow> bind m k s = (Inl e, s')"
  by (simp add: bind_def)

lemma bind_eq_Inr_iff:
  "bind m k s = (Inr y, s'') \<longleftrightarrow> (\<exists>x s'. m s = (Inr x, s') \<and> k x s' = (Inr y, s''))"
  by (auto simp: bind_def split: prod.splits sum.splits)

section \<open>Strings\<close>

definition string_bytes :: "string \<Rightarrow> byte list" where
  "string_bytes s = map of_char s"

definition bytes_string :: "byte list \<Rightarrow> string" where
  "bytes_string bs = map (\<lambda>b. char_of (unat b)) bs"

lemma length_string_bytes [simp]: "length (string_bytes s) = length s"
  by (simp add: string_bytes_def)

lemma length_bytes_string [simp]: "length (bytes_string bs) = length bs"
  by (simp add: bytes_string_def)

lemma unat_of_char: "unat (of_char c :: byte) = of_char c"
proof -
  have "unat (word_of_nat (of_char c) :: byte) = of_char c"
    using nat_of_char_less_256 [of c] by (simp add: unat_of_nat del: of_nat_of_char)
  then show ?thesis by (simp only: of_nat_of_char)
qed

lemma bytes_string_bytes [simp]: "bytes_string (string_bytes s) = s"
  by (simp add: bytes_string_def string_bytes_def unat_of_char comp_def)

lemma string_bytes_string [simp]: "string_bytes (bytes_string bs) = bs"
proof -
  have "(of_char (char_of (unat b) :: char) :: byte) = b" for b :: byte
  proof (rule word_unat_eq_iff [THEN iffD2])
    have "unat b < 256" using unsigned_less [of b] by simp
    then show "unat (of_char (char_of (unat b) :: char) :: byte) = unat b" by (simp add: unat_of_char)
  qed
  then show ?thesis by (simp add: bytes_string_def string_bytes_def comp_def)
qed

text \<open>\<open>std::string::find\<close> of one character, and of a string from a position on; the result
  \<open>None\<close> is \<open>npos\<close>.\<close>

fun find_char :: "char \<Rightarrow> string \<Rightarrow> nat option" where
  "find_char c [] = None"
| "find_char c (x # xs) = (if x = c then Some 0 else map_option Suc (find_char c xs))"

fun starts_with :: "string \<Rightarrow> string \<Rightarrow> bool" where
  "starts_with [] s = True"
| "starts_with (p # ps) [] = False"
| "starts_with (p # ps) (x # xs) = (p = x \<and> starts_with ps xs)"

fun find_str :: "string \<Rightarrow> string \<Rightarrow> nat option" where
  "find_str p [] = (if p = [] then Some 0 else None)"
| "find_str p (x # xs) =
     (if starts_with p (x # xs) then Some 0 else map_option Suc (find_str p xs))"

definition find_str_from :: "string \<Rightarrow> string \<Rightarrow> nat \<Rightarrow> nat option" where
  "find_str_from p s pos = map_option ((+) pos) (find_str p (drop pos s))"

definition substr :: "string \<Rightarrow> nat \<Rightarrow> nat \<Rightarrow> string" where
  "substr s pos n = take n (drop pos s)"

lemma find_char_Some_iff:
  "find_char c s = Some i \<longleftrightarrow> i < length s \<and> s ! i = c \<and> c \<notin> set (take i s)"
proof (induction s arbitrary: i)
  case (Cons x xs)
  then show ?case by (cases i) auto
qed simp

lemma find_char_None_iff [simp]: "find_char c s = None \<longleftrightarrow> c \<notin> set s"
  by (induction s) auto

lemma find_char_append_hit [simp]: "c \<notin> set u \<Longrightarrow> find_char c (u @ c # v) = Some (length u)"
  by (induction u) auto

lemma starts_with_append [simp]: "starts_with p (p @ s)"
  by (induction p) auto

lemma starts_with_iff: "starts_with p s \<longleftrightarrow> take (length p) s = p"
  by (induction p s rule: starts_with.induct) auto

lemma starts_with_prefix: "starts_with p s \<Longrightarrow> starts_with p (s @ t)"
  by (induction p s rule: starts_with.induct) auto

lemma starts_with_appendD: "starts_with (p @ q) s \<Longrightarrow> starts_with p s"
  by (induction p s rule: starts_with.induct) auto

lemma starts_with_take:
  "length p \<le> n \<Longrightarrow> starts_with p (take n s) \<longleftrightarrow> starts_with p s"
  by (simp add: starts_with_iff min_def)

lemma find_str_Some_iff:
  "find_str p s = Some i \<longleftrightarrow>
     i \<le> length s \<and> starts_with p (drop i s) \<and> (\<forall>j < i. \<not> starts_with p (drop j s))"
proof (induction s arbitrary: i)
  case Nil
  then show ?case by (cases p) auto
next
  case (Cons x xs)
  show ?case
  proof (cases "starts_with p (x # xs)")
    case True
    then show ?thesis by (cases i) auto
  next
    case False
    then show ?thesis by (cases i) (auto simp: Cons.IH All_less_Suc2)
  qed
qed

lemma find_str_None_iff: "find_str p s = None \<longleftrightarrow> (\<forall>j \<le> length s. \<not> starts_with p (drop j s))"
proof (induction s)
  case Nil
  then show ?case by (cases p) auto
next
  case (Cons x xs)
  have "(\<forall>j \<le> length (x # xs). \<not> starts_with p (drop j (x # xs))) \<longleftrightarrow>
        \<not> starts_with p (x # xs) \<and> (\<forall>j \<le> length xs. \<not> starts_with p (drop j xs))"
    by (auto simp: less_Suc_eq_le [symmetric] All_less_Suc2)
  with Cons show ?case by auto
qed

lemma find_str_bound: "find_str p s = Some i \<Longrightarrow> i + length p \<le> length s"
proof -
  assume "find_str p s = Some i"
  then have "i \<le> length s" and "take (length p) (drop i s) = p"
    by (auto simp: find_str_Some_iff starts_with_iff)
  then show ?thesis by (metis add.commute length_drop length_take le_diff_conv2 min.cobounded1)
qed

text \<open>A hit stays the first hit when bytes are appended; a miss can only become a hit that
  needs the new bytes.\<close>

lemma find_str_append_hit: "find_str p s = Some i \<Longrightarrow> find_str p (s @ t) = Some i"
proof -
  assume hit: "find_str p s = Some i"
  then have b: "i + length p \<le> length s" by (rule find_str_bound)
  have "starts_with p (drop j (s @ t)) \<longleftrightarrow> starts_with p (drop j s)" if "j \<le> i" for j
    using that b by (simp add: starts_with_iff)
  with hit b show ?thesis by (auto simp: find_str_Some_iff)
qed

lemma find_str_append_miss:
  "find_str p s = None \<Longrightarrow> find_str p (s @ t) = Some i \<Longrightarrow> length s < i + length p"
proof (rule ccontr)
  assume miss: "find_str p s = None" and hit: "find_str p (s @ t) = Some i"
    and "\<not> length s < i + length p"
  then have "i + length p \<le> length s" by simp
  then have "starts_with p (drop i s)"
    using hit by (simp add: find_str_Some_iff starts_with_iff)
  with \<open>i + length p \<le> length s\<close> miss show False by (auto simp: find_str_None_iff)
qed

lemma find_str_hit:
  assumes "starts_with p (drop k s)" and "k \<le> length s"
  shows "\<exists>i \<le> k. find_str p s = Some i"
proof (cases "find_str p s")
  case None
  with assms show ?thesis by (simp add: find_str_None_iff)
next
  case (Some i)
  with assms show ?thesis by (metis find_str_Some_iff not_le)
qed

section \<open>Decimal numbers\<close>

definition digit_char :: "nat \<Rightarrow> char" where
  "digit_char d = char_of (48 + d)"

definition is_digit :: "char \<Rightarrow> bool" where
  "is_digit c \<longleftrightarrow> 48 \<le> (of_char c :: nat) \<and> (of_char c :: nat) \<le> 57"

definition digit_val :: "char \<Rightarrow> nat" where
  "digit_val c = of_char c - 48"

text \<open>\<open>std::to_string\<close> of an unsigned value.\<close>

fun to_string :: "nat \<Rightarrow> string" where
  "to_string n = (if n < 10 then [digit_char n] else to_string (n div 10) @ [digit_char (n mod 10)])"

declare to_string.simps [simp del]

fun digits_value :: "nat \<Rightarrow> string \<Rightarrow> nat" where
  "digits_value acc [] = acc"
| "digits_value acc (c # cs) = digits_value (acc * 10 + digit_val c) cs"

text \<open>\<open>std::from_chars\<close> into a 64-bit unsigned integer: the longest run of digits, no sign and
  no blanks; \<open>None\<close> is an error code (\<open>invalid_argument\<close> or \<open>result_out_of_range\<close>),
  otherwise the value and the text from \<open>ptr\<close> on.\<close>

definition from_chars :: "string \<Rightarrow> (nat \<times> string) option" where
  "from_chars s =
     (let ds = takeWhile is_digit s; v = digits_value 0 ds in
      if ds = [] then None
      else if v > uint64_max then None
      else Some (v, dropWhile is_digit s))"

text \<open>The \<open>%0<w>u\<close> conversion of \<open>printf\<close>.\<close>

definition zero_pad :: "nat \<Rightarrow> nat \<Rightarrow> string" where
  "zero_pad w n = (let s = to_string n in replicate (w - length s) (CHR ''0'') @ s)"

lemma of_digit_char: "d < 10 \<Longrightarrow> (of_char (digit_char d) :: nat) = 48 + d"
  by (simp add: digit_char_def)

lemma is_digit_digit_char [simp]: "d < 10 \<Longrightarrow> is_digit (digit_char d)"
  by (simp add: is_digit_def of_digit_char)

lemma digit_val_digit_char [simp]: "d < 10 \<Longrightarrow> digit_val (digit_char d) = d"
  by (simp add: digit_val_def of_digit_char)

lemma digit_val_less [simp]: "is_digit c \<Longrightarrow> digit_val c < 10"
  by (auto simp: is_digit_def digit_val_def)

lemma digits_value_append: "digits_value acc (s @ t) = digits_value (digits_value acc s) t"
  by (induction s arbitrary: acc) auto

lemma to_string_digits: "list_all is_digit (to_string n)"
proof (induction n rule: to_string.induct)
  case (1 n)
  then show ?case by (subst to_string.simps) auto
qed

lemma to_string_nonempty [simp]: "to_string n \<noteq> []"
  by (subst to_string.simps) simp

lemma digits_value_to_string [simp]: "digits_value 0 (to_string n) = n"
proof (induction n rule: to_string.induct)
  case (1 n)
  then show ?case by (subst to_string.simps) (auto simp: digits_value_append)
qed

lemma to_string_inject [simp]: "to_string m = to_string n \<longleftrightarrow> m = n"
  by (metis digits_value_to_string)

lemma takeWhile_digits: "list_all P s \<Longrightarrow> takeWhile P s = s" and
  dropWhile_digits: "list_all P s \<Longrightarrow> dropWhile P s = []"
  by (auto simp: list_all_iff)

lemma from_chars_to_string [simp]: "n \<le> uint64_max \<Longrightarrow> from_chars (to_string n) = Some (n, [])"
  using to_string_digits [of n]
  by (simp add: from_chars_def Let_def takeWhile_digits dropWhile_digits)

lemma from_chars_bound: "from_chars s = Some (v, r) \<Longrightarrow> v \<le> uint64_max"
  by (auto simp: from_chars_def Let_def split: if_splits)

lemma length_to_string_le: "0 < k \<Longrightarrow> n < 10 ^ k \<Longrightarrow> length (to_string n) \<le> k"
proof (induction k arbitrary: n)
  case (Suc k)
  show ?case
  proof (cases "n < 10")
    case True
    then show ?thesis by (subst to_string.simps) simp
  next
    case False
    with Suc.prems have "k \<noteq> 0" by (cases k) auto
    moreover from Suc.prems have "n div 10 < 10 ^ k" by (simp add: div_less_iff_less_mult mult.commute)
    ultimately have "length (to_string (n div 10)) \<le> k" using Suc.IH by simp
    with False show ?thesis by (subst to_string.simps) simp
  qed
qed simp

lemma digits_value_replicate_zero [simp]:
  "digits_value 0 (replicate k (CHR ''0'') @ s) = digits_value 0 s"
  by (induction k) (simp_all add: digit_val_def)

lemma length_zero_pad: "0 < w \<Longrightarrow> n < 10 ^ w \<Longrightarrow> length (zero_pad w n) = w"
  using length_to_string_le [of w n] by (simp add: zero_pad_def Let_def)

lemma digits_value_zero_pad [simp]: "digits_value 0 (zero_pad w n) = n"
  by (simp add: zero_pad_def Let_def)

lemma zero_pad_digits: "list_all is_digit (zero_pad w n)"
  using to_string_digits [of n] by (auto simp: zero_pad_def Let_def list_all_iff is_digit_def)

section \<open>Lists\<close>

text \<open>Overwriting a run of bytes, as \<open>memcpy\<close> does into a mapped file. The model calls it
  within range only; outside it the list would not grow.\<close>

definition overwrite :: "nat \<Rightarrow> 'a list \<Rightarrow> 'a list \<Rightarrow> 'a list" where
  "overwrite pos new xs = take pos xs @ take (length xs - pos) new @ drop (pos + length new) xs"

lemma length_overwrite [simp]: "length (overwrite pos new xs) = length xs"
  by (simp add: overwrite_def)

lemma take_overwrite [simp]: "k \<le> pos \<Longrightarrow> take k (overwrite pos new xs) = take k xs"
  by (simp add: overwrite_def min_def)

lemma drop_overwrite: "pos + length new \<le> k \<Longrightarrow> drop k (overwrite pos new xs) = drop k xs"
  by (cases "length xs \<le> pos") (auto simp: overwrite_def min_def)

lemma overwrite_at: "pos + length new \<le> length xs \<Longrightarrow>
  overwrite pos new xs = take pos xs @ new @ drop (pos + length new) xs"
  by (simp add: overwrite_def)

lemma list_all_replicate [simp]: "list_all P (replicate n x) \<longleftrightarrow> n = 0 \<or> P x"
  by (auto simp: list_all_iff)

text \<open>The last \<open>n\<close> elements, in order: what a bounded history retains.\<close>

definition last_n :: "nat \<Rightarrow> 'a list \<Rightarrow> 'a list" where
  "last_n n xs = drop (length xs - n) xs"

lemma length_last_n [simp]: "length (last_n n xs) = min n (length xs)"
  by (auto simp: last_n_def min_def)

lemma last_n_all [simp]: "length xs \<le> n \<Longrightarrow> last_n n xs = xs"
  by (simp add: last_n_def)

lemma last_n_append: "length ys \<le> n \<Longrightarrow> last_n n (xs @ ys) = last_n (n - length ys) xs @ ys"
  by (simp add: last_n_def)

lemma last_n_0 [simp]: "last_n 0 xs = []"
  by (simp add: last_n_def)

lemma last_n_last_n [simp]: "last_n m (last_n n xs) = last_n (min m n) xs"
proof -
  have "length xs - n + (length (drop (length xs - n) xs) - m) = length xs - min m n"
    by (cases "n \<le> length xs") (auto simp: min_def)
  then show ?thesis by (simp add: last_n_def add.commute)
qed

lemma last_n_append_absorb: "last_n n (last_n n xs @ ys) = last_n n (xs @ ys)"
proof (cases "n \<le> length xs")
  case True
  then have "length xs - n + (n + length ys - n) = length xs + length ys - n" by simp
  with True show ?thesis by (simp add: last_n_def add.commute)
next
  case False
  then show ?thesis by (simp add: last_n_def)
qed

lemma last_n_nth: "i < min n (length xs) \<Longrightarrow> last_n n xs ! i = xs ! (length xs - min n (length xs) + i)"
  by (auto simp: last_n_def min_def)

section \<open>Invariants of transition systems\<close>

text \<open>The contract of a component that is modelled by a step relation: its invariant holds at the
  start and every step keeps it.\<close>

locale transition_system =
  fixes start :: "'s \<Rightarrow> bool"
    and step :: "'s \<Rightarrow> 's \<Rightarrow> bool"
    and inv :: "'s \<Rightarrow> bool"
  assumes inv_start: "start s \<Longrightarrow> inv s"
    and inv_step: "inv s \<Longrightarrow> step s s' \<Longrightarrow> inv s'"
begin

lemma inv_steps: "step\<^sup>*\<^sup>* s s' \<Longrightarrow> inv s \<Longrightarrow> inv s'"
  by (induction rule: rtranclp_induct) (auto intro: inv_step)

lemma inv_reachable: "start s \<Longrightarrow> step\<^sup>*\<^sup>* s s' \<Longrightarrow> inv s'"
  using inv_steps inv_start by blast

end

end
