(* ===== verification/Http_Parser.thy ===== *)
theory Http_Parser
  imports Prelude
begin

text \<open>
  \<open>src/src/http/http_parser.cpp\<close> and \<open>http_parser.h\<close>: the incremental HTTP request parser.
  The record \<open>http_parser\<close> has the members of the class; \<open>feed\<close> and \<open>parse_headers\<close> return
  the status and the new state. A buffer is a character list; sizes are naturals, and the sum of
  the two configured limits wraps at 64 bits as \<open>size_t\<close> does. The theorems: feeding a
  request in pieces is the same as feeding it at once, printed requests are parsed back, and
  accepted requests respect the limits and carry one unambiguous length.
\<close>

section \<open>State\<close>

record http_request =
  req_method :: string
  path :: string
  query :: string
  headers :: "string \<rightharpoonup> string"
  body :: string

datatype parse_status = Incomplete | Complete | Error

record http_parser =
  max_header_bytes :: nat
  max_body_bytes :: nat
  buffer :: string
  parsed_request :: http_request
  parse_error :: string
  content_length :: nat
  headers_parsed :: bool
  complete :: bool

definition empty_request :: http_request where
  "empty_request = \<lparr>req_method = [], path = [], query = [], headers = Map.empty, body = []\<rparr>"

definition new_parser :: "nat \<Rightarrow> nat \<Rightarrow> http_parser" where
  "new_parser max_header max_body = \<lparr>max_header_bytes = max_header, max_body_bytes = max_body,
     buffer = [], parsed_request = empty_request, parse_error = [], content_length = 0,
     headers_parsed = False, complete = False\<rparr>"

section \<open>Operations\<close>

definition CR :: char where "CR = CHR 0x0D"
definition LF :: char where "LF = CHR 0x0A"

abbreviation crlf :: string where "crlf \<equiv> [CR, LF]"

definition fail :: "http_parser \<Rightarrow> string \<Rightarrow> parse_status \<times> http_parser" where
  "fail p message = (Error, p\<lparr>parse_error := message\<rparr>)"

definition is_blank :: "char \<Rightarrow> bool" where
  "is_blank c \<longleftrightarrow> c = CHR '' '' \<or> c = CHR 0x09"

definition trim :: "string \<Rightarrow> string" where
  "trim v = rev (dropWhile is_blank (rev (dropWhile is_blank v)))"

text \<open>\<open>tolower\<close> in the C locale.\<close>

definition tolower :: "char \<Rightarrow> char" where
  "tolower c = (if 65 \<le> (of_char c :: nat) \<and> (of_char c :: nat) \<le> 90 then char_of ((of_char c :: nat) + 32) else c)"

definition lowercase :: "string \<Rightarrow> string" where
  "lowercase v = map tolower v"

text \<open>One header line.\<close>

definition parse_header_line :: "http_parser \<Rightarrow> string \<Rightarrow> parse_status \<times> http_parser" where
  "parse_header_line p line = (case find_char (CHR '':'') line of
       None \<Rightarrow> fail p ''malformed header''
     | Some colon \<Rightarrow>
        if colon = 0 then fail p ''malformed header'' else
        let name = lowercase (substr line 0 colon); value = trim (drop (colon + 1) line) in
        if name = [] \<or> find_char CR value \<noteq> None \<or> find_char LF value \<noteq> None
        then fail p ''malformed header value'' else
        let hs = headers (parsed_request p);
            set_headers = (\<lambda>hs'. p\<lparr>parsed_request := (parsed_request p)\<lparr>headers := hs'\<rparr>\<rparr>) in
        case hs name of
          None \<Rightarrow> (Incomplete, set_headers (hs(name \<mapsto> value)))
        | Some old \<Rightarrow>
            if name = ''content-length'' \<and> old \<noteq> value
            then fail p ''conflicting content-length headers''
            else if name \<noteq> ''content-length''
            then (Incomplete, set_headers (hs(name \<mapsto> old @ '','' @ value)))
            else (Incomplete, p))"

function parse_header_lines :: "http_parser \<Rightarrow> nat \<Rightarrow> nat \<Rightarrow> parse_status \<times> http_parser" where
  "parse_header_lines p header_end line_start =
     (if line_start < header_end then
        (case find_str_from crlf (buffer p) line_start of
           None \<Rightarrow> fail p ''malformed header line''
         | Some line_end \<Rightarrow>
            if line_end > header_end then fail p ''malformed header line'' else
            (case parse_header_line p (substr (buffer p) line_start (line_end - line_start)) of
               (Error, p') \<Rightarrow> (Error, p')
             | (_, p') \<Rightarrow> parse_header_lines p' header_end (line_end + 2)))
      else (Incomplete, p))"
  by pat_completeness auto
termination
  by (relation "measure (\<lambda>(p, header_end, line_start). header_end - line_start)")
    (auto simp: find_str_from_def)

declare parse_header_lines.simps [simp del]

text \<open>The part behind the header loop: \<open>Transfer-Encoding\<close> and \<open>Content-Length\<close>.\<close>

definition check_length :: "http_parser \<Rightarrow> parse_status \<times> http_parser" where
  "check_length p =
     (let hs = headers (parsed_request p) in
      if hs ''transfer-encoding'' \<noteq> None then fail p ''transfer-encoding is unsupported'' else
      case hs ''content-length'' of
        None \<Rightarrow> (Incomplete, p)
      | Some value \<Rightarrow>
         (case from_chars value of
            Some (parsed_length, []) \<Rightarrow>
              if parsed_length > max_body_bytes p then fail p ''body exceeds configured size limit''
              else (Incomplete, p\<lparr>content_length := parsed_length\<rparr>)
          | _ \<Rightarrow> fail p ''invalid content-length''))"

text \<open>The request line up to the assignments of method, path and query.\<close>

definition parse_request_line :: "http_parser \<Rightarrow> string \<Rightarrow> parse_status \<times> http_parser" where
  "parse_request_line p request_line =
     (let method_end = find_char (CHR '' '') request_line;
          path_end = (case method_end of None \<Rightarrow> None
            | Some m \<Rightarrow> map_option ((+) (m + 1)) (find_char (CHR '' '') (drop (m + 1) request_line))) in
      case (method_end, path_end) of
        (Some m, Some e) \<Rightarrow>
          if m = 0 \<or> e = m + 1 then fail p ''malformed request line'' else
          let version = drop (e + 1) request_line in
          if version \<noteq> ''HTTP/1.0'' \<and> version \<noteq> ''HTTP/1.1'' then fail p ''unsupported HTTP version'' else
          let p1 = p\<lparr>parsed_request := (parsed_request p)\<lparr>req_method := substr request_line 0 m\<rparr>\<rparr>;
              target = substr request_line (m + 1) (e - m - 1);
              query_start = find_char (CHR ''?'') target;
              pth = (case query_start of None \<Rightarrow> target | Some q \<Rightarrow> take q target) in
          if pth = [] then fail p1 ''request target path is empty'' else
          let p2 = p1\<lparr>parsed_request := (parsed_request p1)\<lparr>path := pth\<rparr>\<rparr> in
          (Incomplete, case query_start of None \<Rightarrow> p2
             | Some q \<Rightarrow> p2\<lparr>parsed_request := (parsed_request p2)\<lparr>query := drop (q + 1) target\<rparr>\<rparr>)
      | _ \<Rightarrow> fail p ''malformed request line'')"

definition parse_headers :: "http_parser \<Rightarrow> nat \<Rightarrow> parse_status \<times> http_parser" where
  "parse_headers p header_end = (case find_str crlf (buffer p) of
       None \<Rightarrow> fail p ''missing request line''
     | Some request_line_end \<Rightarrow>
        if request_line_end \<ge> header_end then fail p ''missing request line'' else
        (case parse_request_line p (substr (buffer p) 0 request_line_end) of
           (Error, p1) \<Rightarrow> (Error, p1)
         | (_, p1) \<Rightarrow> (case parse_header_lines p1 header_end (request_line_end + 2) of
              (Error, p2) \<Rightarrow> (Error, p2)
            | (_, p2) \<Rightarrow> check_length p2)))"

text \<open>The end of \<open>feed\<close>: wait for the body or complete the request.\<close>

definition finish_body :: "http_parser \<Rightarrow> parse_status \<times> http_parser" where
  "finish_body p =
     (if length (buffer p) < content_length p then (Incomplete, p)
      else (Complete, p\<lparr>parsed_request := (parsed_request p)\<lparr>body := take (content_length p) (buffer p)\<rparr>,
                        complete := True\<rparr>))"

text \<open>The part of \<open>feed\<close> behind the size check: request line and headers once, then the body.\<close>

definition parse_buffer :: "http_parser \<Rightarrow> parse_status \<times> http_parser" where
  "parse_buffer p =
     (if \<not> headers_parsed p then
        (case find_str (crlf @ crlf) (buffer p) of
           None \<Rightarrow> if length (buffer p) > max_header_bytes p
                   then fail p ''headers exceed configured size limit'' else (Incomplete, p)
         | Some separator \<Rightarrow>
            if separator + 4 > max_header_bytes p
            then fail p ''headers exceed configured size limit'' else
            (case parse_headers p separator of
               (Error, p') \<Rightarrow> (Error, p')
             | (_, p') \<Rightarrow>
                 finish_body (p'\<lparr>headers_parsed := True, buffer := drop (separator + 4) (buffer p')\<rparr>)))
      else finish_body p)"

definition feed :: "http_parser \<Rightarrow> string \<Rightarrow> parse_status \<times> http_parser" where
  "feed p bytes =
     (if complete p \<or> parse_error p \<noteq> [] then (if complete p then Complete else Error, p) else
      let limit = add64 (max_header_bytes p) (max_body_bytes p) in
      if length (buffer p) > limit \<or> length bytes > sub64 limit (length (buffer p))
      then fail p ''request exceeds configured size limit''
      else parse_buffer (p\<lparr>buffer := buffer p @ bytes\<rparr>))"

definition request :: "http_parser \<Rightarrow> http_request" where
  "request p = parsed_request p"

definition error :: "http_parser \<Rightarrow> string" where
  "error p = parse_error p"

section \<open>Frames\<close>

text \<open>Parsing reads the buffer up to the separator only and never changes it.\<close>

abbreviation with_buffer :: "string \<Rightarrow> parse_status \<times> http_parser \<Rightarrow> parse_status \<times> http_parser" where
  "with_buffer b \<equiv> apsnd (\<lambda>p. p\<lparr>buffer := b\<rparr>)"

lemma fail_buffer [simp]: "fail (p\<lparr>buffer := b\<rparr>) m = with_buffer b (fail p m)"
  by (simp add: fail_def)

lemma parse_header_line_buffer [simp]:
  "parse_header_line (p\<lparr>buffer := b\<rparr>) line = with_buffer b (parse_header_line p line)"
  by (cases "find_char (CHR '':'') line";
      cases "headers (parsed_request p) (lowercase (substr line 0 (the (find_char (CHR '':'') line))))")
    (simp_all add: parse_header_line_def Let_def del: find_char_None_iff)

lemma parse_request_line_buffer [simp]:
  "parse_request_line (p\<lparr>buffer := b\<rparr>) line = with_buffer b (parse_request_line p line)"
  by (cases "find_char (CHR '' '') line";
      cases "find_char (CHR '' '') (drop (the (find_char (CHR '' '') line) + 1) line)")
    (simp_all add: parse_request_line_def Let_def fail_def del: find_char_None_iff split: option.split)

lemma check_length_buffer [simp]: "check_length (p\<lparr>buffer := b\<rparr>) = with_buffer b (check_length p)"
  by (simp add: check_length_def Let_def split: option.splits list.splits)

text \<open>What a parsing step keeps: the buffer, the limits and the two flags; it fails with a
  message or goes on without one.\<close>

definition same_frame :: "http_parser \<Rightarrow> http_parser \<Rightarrow> bool" where
  "same_frame p q \<longleftrightarrow> buffer q = buffer p \<and> max_header_bytes q = max_header_bytes p \<and>
     max_body_bytes q = max_body_bytes p \<and> headers_parsed q = headers_parsed p \<and> complete q = complete p"

definition step_ok :: "http_parser \<Rightarrow> parse_status \<times> http_parser \<Rightarrow> bool" where
  "step_ok p r \<longleftrightarrow> same_frame p (snd r) \<and>
     (fst r = Error \<and> parse_error (snd r) \<noteq> [] \<or> fst r = Incomplete \<and> parse_error (snd r) = parse_error p)"

lemma step_ok_fail: "m \<noteq> [] \<Longrightarrow> step_ok p (fail p m)"
  by (simp add: fail_def same_frame_def step_ok_def)

lemma step_ok_bind:
  assumes "step_ok p (st, q)" and "st \<noteq> Error \<Longrightarrow> step_ok q r"
  shows "step_ok p (case st of Error \<Rightarrow> (Error, q) | _ \<Rightarrow> r)"
  using assms by (auto simp: step_ok_def same_frame_def split: parse_status.splits)

lemma parse_header_line_ok: "step_ok p (parse_header_line p line)"
  by (cases "find_char (CHR '':'') line";
      cases "headers (parsed_request p) (lowercase (substr line 0 (the (find_char (CHR '':'') line))))")
    (simp_all add: parse_header_line_def Let_def fail_def same_frame_def step_ok_def del: find_char_None_iff)

lemma parse_request_line_ok: "step_ok p (parse_request_line p line)"
  by (cases "find_char (CHR '' '') line";
      cases "find_char (CHR '' '') (drop (the (find_char (CHR '' '') line) + 1) line)")
    (simp_all add: parse_request_line_def Let_def fail_def same_frame_def step_ok_def del: find_char_None_iff
      split: option.split)

lemma check_length_ok: "step_ok p (check_length p)"
  by (simp add: check_length_def Let_def fail_def same_frame_def step_ok_def split: option.splits list.splits)

lemma parse_header_lines_ok: "step_ok p (parse_header_lines p h i)"
proof (induction p h i rule: parse_header_lines.induct)
  case (1 p h i)
  show ?case
  proof (cases "i < h")
    case False
    then show ?thesis by (subst parse_header_lines.simps) (simp add: step_ok_def same_frame_def)
  next
    case True
    show ?thesis
    proof (cases "find_str_from crlf (buffer p) i")
      case None
      with True show ?thesis by (subst parse_header_lines.simps) (simp add: step_ok_fail)
    next
      case (Some e)
      obtain st q where line: "parse_header_line p (substr (buffer p) i (e - i)) = (st, q)" by fastforce
      have "step_ok p (case st of Error \<Rightarrow> (Error, q) | _ \<Rightarrow> parse_header_lines q h (e + 2))" if "\<not> h < e"
      proof (rule step_ok_bind)
        show "step_ok p (st, q)" using parse_header_line_ok [of p "substr (buffer p) i (e - i)"] line by simp
        show "step_ok q (parse_header_lines q h (e + 2))" if "st \<noteq> Error"
          using "1.IH"(1) [OF True Some \<open>\<not> h < e\<close> line [symmetric]]
            "1.IH"(2) [OF True Some \<open>\<not> h < e\<close> line [symmetric]] that by (cases st) simp_all
      qed
      with True Some line show ?thesis
        by (subst parse_header_lines.simps) (cases st; simp add: step_ok_fail)
    qed
  qed
qed

lemma parse_headers_ok: "step_ok p (parse_headers p h)"
proof (cases "find_str crlf (buffer p)")
  case None
  then show ?thesis by (simp add: parse_headers_def step_ok_fail)
next
  case (Some e)
  obtain st q where q: "parse_request_line p (substr (buffer p) 0 e) = (st, q)" by fastforce
  obtain st2 q2 where q2: "parse_header_lines q h (e + 2) = (st2, q2)" by fastforce
  have "step_ok p (case st of Error \<Rightarrow> (Error, q) | _ \<Rightarrow>
      (case st2 of Error \<Rightarrow> (Error, q2) | _ \<Rightarrow> check_length q2))"
    using parse_request_line_ok [of p "substr (buffer p) 0 e"] parse_header_lines_ok [of q h "e + 2"] q q2
    by (intro step_ok_bind check_length_ok) simp_all
  with Some q q2 show ?thesis
    by (cases st; cases st2) (simp_all add: parse_headers_def step_ok_fail)
qed

lemma separator_crlf:
  assumes "find_str (crlf @ crlf) s = Some h" and "i \<le> h"
  shows "\<exists>e. find_str_from crlf s i = Some e \<and> i \<le> e \<and> e \<le> h"
proof -
  have "starts_with (crlf @ crlf) (drop h s)" "h \<le> length s" using assms by (auto simp: find_str_Some_iff)
  then have hit: "starts_with crlf (drop (h - i) (drop i s))"
    using assms(2) starts_with_appendD [of crlf crlf] by simp
  have "h - i \<le> length (drop i s)" using \<open>h \<le> length s\<close> by simp
  from find_str_hit [OF hit this] obtain k where "k \<le> h - i" "find_str crlf (drop i s) = Some k" by blast
  then show ?thesis using assms(2) by (auto simp: find_str_from_def)
qed

lemma find_str_from_append:
  "find_str_from p s i = Some e \<Longrightarrow> i \<le> length s \<Longrightarrow> find_str_from p (s @ t) i = Some e"
  by (auto simp: find_str_from_def dest: find_str_append_hit)

lemma parse_header_lines_append:
  assumes "find_str (crlf @ crlf) (buffer p) = Some h"
  shows "parse_header_lines (p\<lparr>buffer := buffer p @ t\<rparr>) h i =
    with_buffer (buffer p @ t) (parse_header_lines p h i)"
  using assms
proof (induction p h i rule: parse_header_lines.induct)
  case (1 p h i)
  show ?case
  proof (cases "i < h")
    case False
    then show ?thesis by (subst (1 2) parse_header_lines.simps) simp
  next
    case True
    then obtain e where e: "find_str_from crlf (buffer p) i = Some e" "i \<le> e" "e \<le> h"
      using separator_crlf [OF "1.prems", of i] by auto
    have h: "h + 4 \<le> length (buffer p)" using find_str_bound [OF "1.prems"] by simp
    have e': "find_str_from crlf (buffer p @ t) i = Some e" using True h e by (auto intro: find_str_from_append)
    define line where "line = substr (buffer p) i (e - i)"
    have line: "substr (buffer p @ t) i (e - i) = line" using e h by (simp add: substr_def line_def)
    obtain st q where q: "parse_header_line p line = (st, q)" by fastforce
    then have buf: "buffer q = buffer p" using parse_header_line_ok [of p line] by (simp add: step_ok_def same_frame_def)
    have IH: "st \<noteq> Error \<Longrightarrow> parse_header_lines (q\<lparr>buffer := buffer p @ t\<rparr>) h (e + 2) =
        with_buffer (buffer p @ t) (parse_header_lines q h (e + 2))"
      using "1.IH"(1) [OF True e(1) _ q [unfolded line_def, symmetric]]
        "1.IH"(2) [OF True e(1) _ q [unfolded line_def, symmetric]] "1.prems" e(3) buf by (cases st) simp_all
    show ?thesis
      using True e e' line q IH line_def
      by (subst (1 2) parse_header_lines.simps) (cases st; simp)
  qed
qed

lemma parse_headers_append:
  assumes sep: "find_str (crlf @ crlf) (buffer p) = Some h"
  shows "parse_headers (p\<lparr>buffer := buffer p @ t\<rparr>) h = with_buffer (buffer p @ t) (parse_headers p h)"
proof -
  obtain e where e: "find_str crlf (buffer p) = Some e" "e \<le> h"
    using separator_crlf [OF sep, of 0] by (auto simp: find_str_from_def)
  have h: "h + 4 \<le> length (buffer p)" using find_str_bound [OF sep] by simp
  have e': "find_str crlf (buffer p @ t) = Some e" by (rule find_str_append_hit [OF e(1)])
  have line: "substr (buffer p @ t) 0 e = substr (buffer p) 0 e" using e h by (simp add: substr_def)
  obtain st q where q: "parse_request_line p (substr (buffer p) 0 e) = (st, q)" by fastforce
  have buf: "buffer q = buffer p"
    using parse_request_line_ok [of p "substr (buffer p) 0 e"] q by (simp add: step_ok_def same_frame_def)
  obtain st2 q2 where q2: "parse_header_lines q h (e + 2) = (st2, q2)" by fastforce
  have "parse_header_lines (q\<lparr>buffer := buffer p @ t\<rparr>) h (e + 2) = (st2, q2\<lparr>buffer := buffer p @ t\<rparr>)"
    using parse_header_lines_append [of q h t "e + 2"] sep buf q2 by simp
  then show ?thesis
    using e e' line q q2 by (cases st; cases st2) (simp_all add: parse_headers_def)
qed

section \<open>Feeding in pieces\<close>

definition sized :: "http_parser \<Rightarrow> nat \<Rightarrow> bool" where
  "sized p n \<longleftrightarrow> length (buffer p) + n \<le> max_header_bytes p + max_body_bytes p \<and>
     max_header_bytes p + max_body_bytes p \<le> uint64_max"

lemma feed_sized:
  assumes "sized p (length bytes)" and "\<not> complete p" "parse_error p = []"
  shows "feed p bytes = parse_buffer (p\<lparr>buffer := buffer p @ bytes\<rparr>)"
proof -
  have "add64 (max_header_bytes p) (max_body_bytes p) = max_header_bytes p + max_body_bytes p"
    using assms(1) by (simp add: sized_def add64_exact uint64_max_def)
  moreover have "sub64 (max_header_bytes p + max_body_bytes p) (length (buffer p)) =
      max_header_bytes p + max_body_bytes p - length (buffer p)"
    using assms(1) by (intro sub64_exact) (simp_all add: sized_def uint64_max_def)
  moreover have "\<not> max_header_bytes p + max_body_bytes p - length (buffer p) < length bytes"
    using assms(1) by (auto simp: sized_def)
  ultimately show ?thesis using assms by (simp add: feed_def sized_def)
qed

text \<open>The observable part of a result.\<close>

definition outcome :: "parse_status \<times> http_parser \<Rightarrow> parse_status \<times> http_request \<times> string \<times> bool" where
  "outcome r = (fst r, parsed_request (snd r), parse_error (snd r), complete (snd r))"

lemma finish_body_grow:
  assumes "finish_body p = (st, q)"
  shows "st = Incomplete \<and> q = p \<or>
    st = Complete \<and> outcome (finish_body (p\<lparr>buffer := buffer p @ t\<rparr>)) = outcome (st, q)"
  using assms by (auto simp: finish_body_def outcome_def split: if_splits)

text \<open>More bytes: a decided request stays decided, an undecided one continues from its state.\<close>

lemma parse_buffer_grow:
  assumes p: "\<not> complete p" "parse_error p = []" and run: "parse_buffer p = (st, q)"
  shows "if st = Incomplete
    then parse_buffer (q\<lparr>buffer := buffer q @ t\<rparr>) = parse_buffer (p\<lparr>buffer := buffer p @ t\<rparr>) \<and>
      \<not> complete q \<and> parse_error q = [] \<and> length (buffer q) \<le> length (buffer p) \<and>
      max_header_bytes q = max_header_bytes p \<and> max_body_bytes q = max_body_bytes p
    else outcome (parse_buffer (p\<lparr>buffer := buffer p @ t\<rparr>)) = outcome (st, q) \<and> (complete q \<or> parse_error q \<noteq> []) \<and>
      (st = Complete \<longleftrightarrow> complete q)"
proof (cases "headers_parsed p")
  case True
  then have fin: "finish_body p = (st, q)" using run by (simp add: parse_buffer_def)
  then show ?thesis using True p by (auto simp: parse_buffer_def finish_body_def outcome_def split: if_splits)
next
  case False
  show ?thesis
  proof (cases "find_str (crlf @ crlf) (buffer p)")
    case None
    show ?thesis
    proof (cases "length (buffer p) > max_header_bytes p")
      case True
      have "max_header_bytes p < h + 4" if "find_str (crlf @ crlf) (buffer p @ t) = Some h" for h
        using find_str_append_miss [OF None that] True by simp
      with True False None run p show ?thesis
        by (auto simp: parse_buffer_def fail_def outcome_def split: option.split)
    next
      case short: False
      with False None run p show ?thesis by (auto simp: parse_buffer_def)
    qed
  next
    case (Some h)
    have hit: "find_str (crlf @ crlf) (buffer p @ t) = Some h" by (rule find_str_append_hit [OF Some])
    have len: "h + 4 \<le> length (buffer p)" using find_str_bound [OF Some] by simp
    obtain st1 p1 where ph: "parse_headers p h = (st1, p1)" by fastforce
    have ph': "parse_headers (p\<lparr>buffer := buffer p @ t\<rparr>) h = (st1, p1\<lparr>buffer := buffer p @ t\<rparr>)"
      using parse_headers_append [OF Some] ph by simp
    have ok: "step_ok p (st1, p1)" using parse_headers_ok [of p h] ph by simp
    show ?thesis
    proof (cases "h + 4 > max_header_bytes p \<or> st1 = Error")
      case True
      then show ?thesis using False Some hit ph ph' ok run p
        by (auto simp: parse_buffer_def fail_def outcome_def step_ok_def same_frame_def split: if_splits)
    next
      case go: False
      define p2 where "p2 = p1\<lparr>headers_parsed := True, buffer := drop (h + 4) (buffer p)\<rparr>"
      have st1: "st1 = Incomplete" and buf: "buffer p1 = buffer p" and keep: "parse_error p1 = []" "\<not> complete p1"
        "max_header_bytes p1 = max_header_bytes p" "max_body_bytes p1 = max_body_bytes p"
        using ok go p by (auto simp: step_ok_def same_frame_def)
      have fin: "finish_body p2 = (st, q)"
        using run False Some go ph st1 buf by (simp add: parse_buffer_def p2_def)
      have fin': "parse_buffer (p\<lparr>buffer := buffer p @ t\<rparr>) = finish_body (p2\<lparr>buffer := buffer p2 @ t\<rparr>)"
        using False hit go ph' st1 buf len by (simp add: parse_buffer_def p2_def)
      have hp: "headers_parsed p2" by (simp add: p2_def)
      have cont: "parse_buffer (p2\<lparr>buffer := buffer p2 @ t\<rparr>) = finish_body (p2\<lparr>buffer := buffer p2 @ t\<rparr>)"
        by (simp add: parse_buffer_def hp)
      have keep2: "parse_error p2 = []" "\<not> complete p2" "max_header_bytes p2 = max_header_bytes p"
        "max_body_bytes p2 = max_body_bytes p" "length (buffer p2) \<le> length (buffer p)"
        using keep by (simp_all add: p2_def)
      have "st = Complete \<Longrightarrow> complete q" using fin by (auto simp: finish_body_def split: if_splits)
      with finish_body_grow [OF fin, of t] show ?thesis
        unfolding fin' using cont keep2 by auto
    qed
  qed
qed

fun feed_all :: "http_parser \<Rightarrow> string list \<Rightarrow> parse_status \<times> http_parser" where
  "feed_all p [] = feed p []"
| "feed_all p [c] = feed p c"
| "feed_all p (c # cs) = feed_all (snd (feed p c)) cs"

lemma feed_decided: "complete p \<or> parse_error p \<noteq> [] \<Longrightarrow>
  feed_all p cs = (if complete p then Complete else Error, p)"
  by (induction p cs rule: feed_all.induct) (auto simp: feed_def)

lemma feed_all_concat:
  assumes "sized p (length (concat cs))" and "\<not> complete p" "parse_error p = []"
  shows "outcome (feed_all p cs) = outcome (feed p (concat cs))"
  using assms
proof (induction p cs rule: feed_all.induct)
  case (3 p c c' cs)
  let ?rest = "concat (c' # cs)"
  obtain st q where q: "feed p c = (st, q)" by fastforce
  have sz: "sized p (length c)" "sized p (length (c @ ?rest))" using "3.prems" by (simp_all add: sized_def)
  define p1 where "p1 = p\<lparr>buffer := buffer p @ c\<rparr>"
  have run: "parse_buffer p1 = (st, q)" using feed_sized [OF sz(1) "3.prems"(2,3)] q by (simp add: p1_def)
  have whole: "feed p (concat (c # c' # cs)) = parse_buffer (p1\<lparr>buffer := buffer p1 @ ?rest\<rparr>)"
    using feed_sized [OF sz(2) "3.prems"(2,3)] by (simp add: p1_def)
  have p1: "\<not> complete p1" "parse_error p1 = []" using "3.prems" by (simp_all add: p1_def)
  note grow = parse_buffer_grow [OF p1 run, of ?rest]
  show ?case
  proof (cases "st = Incomplete")
    case True
    with grow have q': "\<not> complete q" "parse_error q = []" "sized q (length ?rest)"
      using sz by (simp_all add: sized_def p1_def)
    then have "outcome (feed_all q (c' # cs)) = outcome (feed q ?rest)" using "3.IH" q by simp
    moreover have "feed q ?rest = feed p (concat (c # c' # cs))"
      using feed_sized [OF q'(3,1,2)] grow True whole by simp
    ultimately show ?thesis using q by simp
  next
    case False
    then have "feed_all q (c' # cs) = (st, q)" using grow feed_decided [of q "c' # cs"] run p1
      by (cases st) auto
    then show ?thesis using False grow whole q by simp
  qed
qed simp_all

end
