(* ===== verification/Http_Requests.thy ===== *)
theory Http_Requests
  imports Http_Parser
begin

text \<open>
  What the parser of \<open>Http_Parser\<close> accepts: an invariant of its state (limits, agreement of
  the body with the header map), and the round trip of printed requests.
\<close>

section \<open>The invariant\<close>

text \<open>The headers decide the body length in one way only.\<close>

definition length_agrees :: "http_request \<Rightarrow> nat \<Rightarrow> bool" where
  "length_agrees r n \<longleftrightarrow> headers r ''transfer-encoding'' = None \<and>
     (case headers r ''content-length'' of None \<Rightarrow> n = 0 | Some v \<Rightarrow> from_chars v = Some (n, []))"

definition parser_inv :: "http_parser \<Rightarrow> bool" where
  "parser_inv p \<longleftrightarrow> length (buffer p) \<le> max_header_bytes p + max_body_bytes p \<and>
     content_length p \<le> max_body_bytes p \<and>
     (parse_error p = [] \<longrightarrow> (if headers_parsed p then length_agrees (parsed_request p) (content_length p)
                             else content_length p = 0)) \<and>
     (complete p \<longrightarrow> headers_parsed p \<and> parse_error p = [] \<and> length (body (parsed_request p)) = content_length p)"

lemma length_agrees_body [simp]: "length_agrees (r\<lparr>body := b\<rparr>) n \<longleftrightarrow> length_agrees r n"
  by (simp add: length_agrees_def)

lemma parser_inv_new: "parser_inv (new_parser mh mb)"
  by (simp add: parser_inv_def new_parser_def)

lemma parse_header_line_length [simp]: "content_length (snd (parse_header_line p line)) = content_length p"
  by (cases "find_char (CHR '':'') line";
      cases "headers (parsed_request p) (lowercase (substr line 0 (the (find_char (CHR '':'') line))))")
    (simp_all add: parse_header_line_def Let_def fail_def del: find_char_None_iff)

lemma parse_request_line_length [simp]: "content_length (snd (parse_request_line p line)) = content_length p"
  by (cases "find_char (CHR '' '') line";
      cases "find_char (CHR '' '') (drop (the (find_char (CHR '' '') line) + 1) line)")
    (simp_all add: parse_request_line_def Let_def fail_def del: find_char_None_iff split: option.split)

lemma parse_header_lines_length: "content_length (snd (parse_header_lines p h i)) = content_length p"
proof (induction p h i rule: parse_header_lines.induct)
  case (1 p h i)
  show ?case
  proof (cases "find_str_from crlf (buffer p) i")
    case None
    then show ?thesis by (subst parse_header_lines.simps) (simp add: fail_def)
  next
    case (Some e)
    obtain st q where line: "parse_header_line p (substr (buffer p) i (e - i)) = (st, q)" by fastforce
    have q: "content_length q = content_length p"
      using parse_header_line_length [of p "substr (buffer p) i (e - i)"] line by simp
    show ?thesis
    proof (cases "i < h \<and> \<not> h < e")
      case False
      with Some show ?thesis by (subst parse_header_lines.simps) (auto simp: fail_def)
    next
      case True
      then have "st \<noteq> Error \<Longrightarrow> content_length (snd (parse_header_lines q h (e + 2))) = content_length q"
        using "1.IH"(1) [OF _ Some _ line [symmetric]] "1.IH"(2) [OF _ Some _ line [symmetric]] by (cases st) simp_all
      with True Some line q show ?thesis by (subst parse_header_lines.simps) (cases st; simp)
    qed
  qed
qed

lemma check_length_agrees:
  assumes "check_length p = (Incomplete, q)" and "content_length p = 0"
  shows "length_agrees (parsed_request q) (content_length q) \<and> content_length q \<le> max_body_bytes p"
  using assms by (auto simp: check_length_def length_agrees_def Let_def fail_def
      split: if_splits option.splits list.splits)

lemma check_length_bound:
  assumes "content_length p \<le> max_body_bytes p"
  shows "content_length (snd (check_length p)) \<le> max_body_bytes p"
  using assms by (auto simp: check_length_def Let_def fail_def split: option.splits list.splits)

lemma parse_headers_length:
  assumes "parse_headers p h = (st, q)" and "content_length p = 0"
  shows "content_length q \<le> max_body_bytes p \<and>
    (st \<noteq> Error \<longrightarrow> length_agrees (parsed_request q) (content_length q))"
proof (cases "find_str crlf (buffer p)")
  case None
  then show ?thesis using assms by (auto simp: parse_headers_def fail_def)
next
  case (Some e)
  obtain st1 p1 where p1: "parse_request_line p (substr (buffer p) 0 e) = (st1, p1)" by fastforce
  obtain st2 p2 where p2: "parse_header_lines p1 h (e + 2) = (st2, p2)" by fastforce
  have len: "content_length p1 = 0" "content_length p2 = 0"
    using parse_request_line_length [of p "substr (buffer p) 0 e"] parse_header_lines_length [of p1 h "e + 2"]
      p1 p2 assms(2) by simp_all
  have mb: "max_body_bytes p2 = max_body_bytes p"
    using parse_request_line_ok [of p "substr (buffer p) 0 e"] parse_header_lines_ok [of p1 h "e + 2"] p1 p2
    by (simp add: step_ok_def same_frame_def)
  obtain st3 p3 where p3: "check_length p2 = (st3, p3)" by fastforce
  have st3: "st3 = Error \<or> st3 = Incomplete" using check_length_ok [of p2] p3 by (auto simp: step_ok_def)
  show ?thesis
    using assms Some p1 p2 p3 len mb check_length_agrees [of p2 p3] check_length_bound [of p2] st3
    by (cases st1; cases st2) (auto simp: parse_headers_def fail_def split: if_splits)
qed

lemma parse_buffer_inv:
  assumes inv: "parser_inv p" and p: "\<not> complete p" "parse_error p = []" and run: "parse_buffer p = (st, q)"
  shows "parser_inv q"
proof (cases "headers_parsed p")
  case True
  then show ?thesis
    using inv p run by (auto simp: parse_buffer_def finish_body_def parser_inv_def split: if_splits)
next
  case False
  then have cl: "content_length p = 0" using inv p by (simp add: parser_inv_def)
  show ?thesis
  proof (cases "find_str (crlf @ crlf) (buffer p)")
    case None
    then show ?thesis using inv p run False by (auto simp: parse_buffer_def fail_def parser_inv_def split: if_splits)
  next
    case (Some h)
    obtain st1 p1 where ph: "parse_headers p h = (st1, p1)" by fastforce
    note frame = parse_headers_ok [of p h, unfolded ph step_ok_def same_frame_def fst_conv snd_conv]
    note agree = parse_headers_length [OF ph cl]
    consider (big) "h + 4 > max_header_bytes p" | (err) "\<not> h + 4 > max_header_bytes p" "st1 = Error"
      | (go) "\<not> h + 4 > max_header_bytes p" "st1 = Incomplete" using frame by blast
    then show ?thesis
    proof cases
      case big
      then show ?thesis using inv p run False Some by (auto simp: parse_buffer_def fail_def parser_inv_def)
    next
      case err
      then have "q = p1" using run False Some ph by (simp add: parse_buffer_def)
      then show ?thesis using inv p err frame agree by (simp add: parser_inv_def)
    next
      case go
      then have "finish_body (p1\<lparr>headers_parsed := True, buffer := drop (h + 4) (buffer p1)\<rparr>) = (st, q)"
        using run False Some ph by (simp add: parse_buffer_def)
      then show ?thesis using inv p go frame agree
        by (auto simp: finish_body_def parser_inv_def split: if_splits)
    qed
  qed
qed

lemma feed_inv:
  assumes inv: "parser_inv p" and limits: "max_header_bytes p + max_body_bytes p \<le> uint64_max"
  shows "parser_inv (snd (feed p bytes))"
proof (cases "complete p \<or> parse_error p \<noteq> []")
  case True
  then show ?thesis using inv by (auto simp: feed_def)
next
  case False
  show ?thesis
  proof (cases "sized p (length bytes)")
    case True
    then have "parser_inv (p\<lparr>buffer := buffer p @ bytes\<rparr>)" using inv by (simp add: parser_inv_def sized_def)
    then show ?thesis
      using parse_buffer_inv [of "p\<lparr>buffer := buffer p @ bytes\<rparr>" "fst (feed p bytes)" "snd (feed p bytes)"]
        feed_sized [OF True] False by simp
  next
    case big: False
    have "add64 (max_header_bytes p) (max_body_bytes p) = max_header_bytes p + max_body_bytes p"
      using limits by (simp add: add64_exact uint64_max_def)
    moreover have "sub64 (max_header_bytes p + max_body_bytes p) (length (buffer p)) =
        max_header_bytes p + max_body_bytes p - length (buffer p)"
      using limits inv by (intro sub64_exact) (simp_all add: parser_inv_def uint64_max_def)
    ultimately have "feed p bytes = fail p ''request exceeds configured size limit''"
      using big False limits inv by (auto simp: feed_def sized_def parser_inv_def)
    then show ?thesis using inv False by (simp add: fail_def parser_inv_def)
  qed
qed

section \<open>The header block as lines\<close>

text \<open>The reference view of the header loop: one line after the other.\<close>

fun parse_each :: "http_parser \<Rightarrow> string list \<Rightarrow> parse_status \<times> http_parser" where
  "parse_each p [] = (Incomplete, p)"
| "parse_each p (l # ls) = (case parse_header_line p l of (Error, q) \<Rightarrow> (Error, q) | (_, q) \<Rightarrow> parse_each q ls)"

definition unlines :: "string list \<Rightarrow> string" where
  "unlines ls = concat (map (\<lambda>l. l @ crlf) ls)"

lemma unlines_simps [simp]: "unlines [] = []" "unlines (l # ls) = l @ CR # LF # unlines ls"
  by (simp_all add: unlines_def)

lemma LF_CR [simp]: "LF \<noteq> CR" "CR \<noteq> LF"
  by (simp_all add: CR_def LF_def)

lemma find_str_skip: "CR \<notin> set l \<Longrightarrow> find_str (CR # u) (l @ s) = map_option ((+) (length l)) (find_str (CR # u) s)"
  by (induction l) (auto simp: map_option_case split: option.split)

lemma find_line_end: "CR \<notin> set l \<Longrightarrow> find_str crlf (l @ CR # LF # s) = Some (length l)"
  by (simp add: find_str_skip)

lemma find_separator:
  assumes "ls \<noteq> []" and "\<forall>l \<in> set ls. CR \<notin> set l \<and> l \<noteq> []"
  shows "find_str (crlf @ crlf) (unlines ls @ CR # LF # s) = Some (length (unlines ls) - 2)"
  using assms
proof (induction ls)
  case (Cons l ls)
  show ?case
  proof (cases ls)
    case Nil
    then show ?thesis using Cons.prems by (simp add: find_str_skip)
  next
    case (Cons l2 ls2)
    then obtain c cs where l2: "l2 = c # cs" "c \<noteq> CR" using Cons.prems by (cases l2) auto
    have "find_str (crlf @ crlf) (CR # LF # unlines ls @ CR # LF # s) =
        map_option ((+) 2) (find_str (crlf @ crlf) (unlines ls @ CR # LF # s))"
      using l2 Cons by (simp add: option.map_comp comp_def)
    moreover have "2 \<le> length (unlines ls)" using Cons by simp
    ultimately show ?thesis using Cons.prems \<open>ls = l2 # ls2\<close> Cons.IH
      by (simp add: find_str_skip del: unlines_simps(2) add: unlines_simps(2) [of l])
  qed
qed simp

lemma parse_header_lines_each:
  assumes "buffer p = pre @ unlines ls @ rest" and "\<forall>l \<in> set ls. CR \<notin> set l \<and> l \<noteq> []"
    and "h + 2 = length pre + length (unlines ls)"
  shows "parse_header_lines p h (length pre) = parse_each p ls"
  using assms
proof (induction ls arbitrary: p pre)
  case Nil
  then show ?case by (subst parse_header_lines.simps) simp
next
  case (Cons l ls)
  have find: "find_str_from crlf (buffer p) (length pre) = Some (length pre + length l)"
    using Cons.prems by (simp add: find_str_from_def find_line_end)
  have line: "substr (buffer p) (length pre) (length l) = l" using Cons.prems(1) by (simp add: substr_def)
  obtain st q where q: "parse_header_line p l = (st, q)" by fastforce
  then have "buffer q = (pre @ l @ crlf) @ unlines ls @ rest"
    using parse_header_line_ok [of p l] Cons.prems(1) by (simp add: step_ok_def same_frame_def)
  then have IH: "parse_header_lines q h (length (pre @ l @ crlf)) = parse_each q ls"
    using Cons.prems by (intro Cons.IH) simp_all
  have le: "length pre + length l \<le> h" "length pre < h" using Cons.prems(2,3) by (auto simp: less_le_trans)
  then show ?case using find line q IH by (subst parse_header_lines.simps) (cases st; simp)
qed

section \<open>Printing and parsing\<close>

text \<open>A request as a client writes it: \<open>hs\<close> are the header fields in order.\<close>

definition request_line :: "http_request \<Rightarrow> string \<Rightarrow> string" where
  "request_line r version = req_method r @ '' '' @ path r @ (if query r = [] then [] else ''?'' @ query r) @ '' '' @ version"

definition header_line :: "string \<times> string \<Rightarrow> string" where
  "header_line f = fst f @ '': '' @ snd f"

definition print_request :: "http_request \<Rightarrow> string \<Rightarrow> (string \<times> string) list \<Rightarrow> string" where
  "print_request r version hs = unlines (request_line r version # map header_line hs) @ crlf @ body r"

definition good_field :: "string \<times> string \<Rightarrow> bool" where
  "good_field f \<longleftrightarrow> fst f \<noteq> [] \<and> CHR '':'' \<notin> set (fst f) \<and> CR \<notin> set (fst f) \<and>
     CR \<notin> set (snd f) \<and> LF \<notin> set (snd f) \<and> trim (snd f) = snd f"

definition good_request :: "http_request \<Rightarrow> string \<Rightarrow> (string \<times> string) list \<Rightarrow> bool" where
  "good_request r version hs \<longleftrightarrow>
     req_method r \<noteq> [] \<and> CHR '' '' \<notin> set (req_method r) \<and> CR \<notin> set (req_method r) \<and>
     path r \<noteq> [] \<and> CHR '' '' \<notin> set (path r) \<and> CHR ''?'' \<notin> set (path r) \<and> CR \<notin> set (path r) \<and>
     CHR '' '' \<notin> set (query r) \<and> CR \<notin> set (query r) \<and>
     (version = ''HTTP/1.0'' \<or> version = ''HTTP/1.1'') \<and>
     hs \<noteq> [] \<and> list_all good_field hs \<and> distinct (map (lowercase \<circ> fst) hs) \<and>
     headers r = map_of (map (\<lambda>f. (lowercase (fst f), snd f)) hs) \<and>
     length_agrees r (length (body r))"

lemma trim_cons_blank: "is_blank c \<Longrightarrow> trim (c # v) = trim v"
  by (simp add: trim_def)

lemma parse_header_line_good:
  assumes "good_field f" and "headers (parsed_request p) (lowercase (fst f)) = None"
  shows "parse_header_line p (header_line f) = (Incomplete, p\<lparr>parsed_request := (parsed_request p)
    \<lparr>headers := (headers (parsed_request p))(lowercase (fst f) \<mapsto> snd f)\<rparr>\<rparr>)"
proof -
  have "find_char (CHR '':'') (header_line f) = Some (length (fst f))"
    using assms(1) by (simp add: header_line_def good_field_def)
  then show ?thesis
    using assms by (simp add: parse_header_line_def header_line_def good_field_def substr_def Let_def
        trim_cons_blank is_blank_def lowercase_def)
qed

lemma parse_each_good:
  assumes "list_all good_field hs" and "distinct (map (lowercase \<circ> fst) hs)"
    and "\<forall>f \<in> set hs. headers (parsed_request p) (lowercase (fst f)) = None"
  shows "parse_each p (map header_line hs) = (Incomplete, p\<lparr>parsed_request := (parsed_request p)
    \<lparr>headers := headers (parsed_request p) ++ map_of (map (\<lambda>f. (lowercase (fst f), snd f)) hs)\<rparr>\<rparr>)"
  using assms
proof (induction hs arbitrary: p)
  case (Cons f hs)
  define k where "k = lowercase (fst f)"
  have dom: "k \<notin> dom (map_of (map (\<lambda>f. (lowercase (fst f), snd f)) hs))"
    using Cons.prems(2) by (simp add: k_def dom_map_of_conv_image_fst image_image comp_def)
  define q where "q = p\<lparr>parsed_request := (parsed_request p)\<lparr>headers := (headers (parsed_request p))(k \<mapsto> snd f)\<rparr>\<rparr>"
  have "parse_header_line p (header_line f) = (Incomplete, q)"
    using parse_header_line_good [of f p] Cons.prems by (simp add: q_def k_def)
  moreover have "\<forall>g \<in> set hs. headers (parsed_request q) (lowercase (fst g)) = None"
  proof
    fix g assume g: "g \<in> set hs"
    then have "lowercase (fst g) \<in> (lowercase \<circ> fst) ` set hs" by (simp add: image_iff) (blast intro: refl)
    moreover have "k \<notin> (lowercase \<circ> fst) ` set hs" using Cons.prems(2) by (simp add: k_def)
    ultimately have "lowercase (fst g) \<noteq> k" by metis
    with g Cons.prems(3) show "headers (parsed_request q) (lowercase (fst g)) = None" by (simp add: q_def)
  qed
  ultimately have run: "parse_each p (map header_line (f # hs)) = (Incomplete, q\<lparr>parsed_request := (parsed_request q)
      \<lparr>headers := headers (parsed_request q) ++ map_of (map (\<lambda>f. (lowercase (fst f), snd f)) hs)\<rparr>\<rparr>)"
    using Cons.IH [of q] Cons.prems by simp
  have eq: "headers (parsed_request p) ++ map_of (map (\<lambda>f. (lowercase (fst f), snd f)) (f # hs)) =
      headers (parsed_request q) ++ map_of (map (\<lambda>f. (lowercase (fst f), snd f)) hs)"
    using dom by (auto simp: q_def k_def map_add_def fun_eq_iff split: option.splits)
  show ?case unfolding run eq by (simp add: q_def)
qed simp

lemma parse_request_line_good:
  assumes "good_request r version hs"
  shows "parse_request_line p (request_line r version) = (Incomplete, p\<lparr>parsed_request := (parsed_request p)
    \<lparr>req_method := req_method r, path := path r, query := if query r = [] then query (parsed_request p) else query r\<rparr>\<rparr>)"
proof -
  define target where "target = path r @ (if query r = [] then [] else ''?'' @ query r)"
  have line: "request_line r version = req_method r @ CHR '' '' # target @ CHR '' '' # version"
    by (simp add: request_line_def target_def)
  have t: "CHR '' '' \<notin> set target" "target \<noteq> []" "CHR '' '' \<notin> set (req_method r)" "req_method r \<noteq> []" "path r \<noteq> []"
    "version = ''HTTP/1.0'' \<or> version = ''HTTP/1.1''" "CHR ''?'' \<notin> set (path r)"
    using assms by (auto simp: good_request_def target_def)
  have q: "find_char (CHR ''?'') target = (if query r = [] then None else Some (length (path r)))"
    using t by (simp add: target_def)
  show ?thesis using t q
    by (simp add: parse_request_line_def line Let_def substr_def del: find_char_None_iff)
      (auto simp: target_def)
qed

lemma good_lines:
  assumes "good_request r version hs"
  shows "\<forall>l \<in> set (request_line r version # map header_line hs). CR \<notin> set l \<and> l \<noteq> []"
  using assms by (auto simp: good_request_def request_line_def header_line_def good_field_def list_all_iff CR_def)

lemma check_length_good:
  assumes "length_agrees r n" and "parsed_request p = r" and "content_length p = 0" and "n \<le> max_body_bytes p"
  shows "check_length p = (Incomplete, p\<lparr>content_length := n\<rparr>)"
  using assms by (auto simp: check_length_def length_agrees_def Let_def split: option.splits)

lemma parse_headers_good:
  assumes good: "good_request r version hs" and mb: "length (body r) \<le> max_body_bytes p"
    and buf: "buffer p = print_request r version hs" and fresh: "parsed_request p = empty_request" "content_length p = 0"
    and h: "h + 2 = length (unlines (request_line r version # map header_line hs))"
  shows "parse_headers p h = (Incomplete, p\<lparr>parsed_request := r\<lparr>body := []\<rparr>, content_length := length (body r)\<rparr>)"
proof -
  let ?line = "request_line r version" and ?ls = "map header_line hs"
  note lines = good_lines [OF good]
  have hs: "hs \<noteq> []" "list_all good_field hs" "distinct (map (lowercase \<circ> fst) hs)"
    "headers r = map_of (map (\<lambda>f. (lowercase (fst f), snd f)) hs)" "length_agrees r (length (body r))"
    using good by (simp_all add: good_request_def)
  then have big: "2 < length (unlines ?ls)" using lines by (cases hs) auto
  have tx: "buffer p = ?line @ CR # LF # unlines ?ls @ CR # LF # body r" by (simp add: buf print_request_def)
  have find: "find_str crlf (buffer p) = Some (length ?line)" unfolding tx using lines by (simp add: find_line_end)
  have lt: "length ?line < h" using h big by auto
  have line: "substr (buffer p) 0 (length ?line) = ?line" by (simp add: tx substr_def)
  define p1 where "p1 = p\<lparr>parsed_request := empty_request\<lparr>req_method := req_method r, path := path r, query := query r\<rparr>\<rparr>"
  have p1: "parse_request_line p ?line = (Incomplete, p1)"
    using parse_request_line_good [OF good, of p] fresh by (simp add: p1_def empty_request_def)
  have "buffer p1 = (?line @ crlf) @ unlines ?ls @ CR # LF # body r" by (simp add: p1_def tx)
  then have "parse_header_lines p1 h (length (?line @ crlf)) = parse_each p1 ?ls"
    using lines h by (intro parse_header_lines_each) simp_all
  also have "\<dots> = (Incomplete, p\<lparr>parsed_request := r\<lparr>body := []\<rparr>\<rparr>)"
    using parse_each_good [OF hs(2,3), of p1] hs(4) by (simp add: p1_def empty_request_def)
  finally have p2: "parse_header_lines p1 h (length ?line + 2) = (Incomplete, p\<lparr>parsed_request := r\<lparr>body := []\<rparr>\<rparr>)"
    by simp
  show ?thesis
    using find lt line p1 p2 check_length_good [of "r\<lparr>body := []\<rparr>" "length (body r)" "p\<lparr>parsed_request := r\<lparr>body := []\<rparr>\<rparr>"]
      hs(5) fresh mb by (simp add: parse_headers_def)
qed

lemma feed_print:
  assumes good: "good_request r version hs" and mb: "length (body r) \<le> mb"
    and mh: "length (print_request r version hs) \<le> mh + length (body r)" and lim: "mh + mb \<le> uint64_max"
  shows "fst (feed (new_parser mh mb) (print_request r version hs)) = Complete \<and>
    request (snd (feed (new_parser mh mb) (print_request r version hs))) = r"
proof -
  let ?text = "print_request r version hs" and ?ls = "request_line r version # map header_line hs"
  define p where "p = (new_parser mh mb)\<lparr>buffer := ?text\<rparr>"
  have "feed (new_parser mh mb) ?text = parse_buffer p"
    using feed_sized [of "new_parser mh mb" ?text] mb mh lim by (simp add: sized_def new_parser_def p_def)
  moreover have two: "2 \<le> length (unlines ?ls)" by simp
  then obtain h where h: "h + 2 = length (unlines ?ls)" by (metis add.commute le_Suc_ex)
  have "find_str (crlf @ crlf) (buffer p) = Some h"
    using find_separator [of ?ls "body r"] good_lines [OF good] h
    by (simp add: p_def print_request_def del: unlines_simps)
  moreover have "length ?text = h + 4 + length (body r)" using h by (simp add: print_request_def)
  moreover have "parse_headers p h = (Incomplete, p\<lparr>parsed_request := r\<lparr>body := []\<rparr>, content_length := length (body r)\<rparr>)"
    using good mb h by (intro parse_headers_good) (simp_all add: p_def new_parser_def)
  moreover have "h + 4 = length (unlines ?ls) + 2" using h by simp
  then have "drop (h + 4) ?text = drop (length (unlines ?ls) + 2) ?text" by (rule arg_cong)
  then have "drop (h + 4) ?text = body r" by (simp add: print_request_def del: unlines_simps)
  ultimately show ?thesis
    using mh by (simp add: parse_buffer_def finish_body_def p_def new_parser_def request_def)
qed

section \<open>Sequences of feeds\<close>

lemma finish_body_limits: "max_header_bytes (snd (finish_body p)) = max_header_bytes p \<and>
  max_body_bytes (snd (finish_body p)) = max_body_bytes p"
  by (simp add: finish_body_def)

lemma feed_limits: "max_header_bytes (snd (feed p bytes)) = max_header_bytes p \<and>
  max_body_bytes (snd (feed p bytes)) = max_body_bytes p"
proof -
  have "max_header_bytes (snd (parse_buffer q)) = max_header_bytes q \<and>
      max_body_bytes (snd (parse_buffer q)) = max_body_bytes q" for q
  proof (cases "find_str (crlf @ crlf) (buffer q)")
    case (Some h)
    obtain st q1 where "parse_headers q h = (st, q1)" by fastforce
    then show ?thesis
      using Some parse_headers_ok [of q h] finish_body_limits [of q]
        finish_body_limits [of "q1\<lparr>headers_parsed := True, buffer := drop (h + 4) (buffer q1)\<rparr>"]
      by (cases st) (auto simp: parse_buffer_def fail_def step_ok_def same_frame_def)
  qed (use finish_body_limits [of q] in \<open>auto simp: parse_buffer_def fail_def\<close>)
  then show ?thesis by (simp add: feed_def Let_def fail_def)
qed

lemma feed_all_inv:
  assumes "parser_inv p" and "max_header_bytes p + max_body_bytes p \<le> uint64_max"
  shows "parser_inv (snd (feed_all p cs)) \<and> max_header_bytes (snd (feed_all p cs)) = max_header_bytes p \<and>
    max_body_bytes (snd (feed_all p cs)) = max_body_bytes p"
  using assms by (induction p cs rule: feed_all.induct) (simp_all add: feed_inv feed_limits)

lemma feed_complete: "feed p bytes = (Complete, q) \<Longrightarrow> complete q"
proof (cases "complete p \<or> parse_error p \<noteq> []")
  case False
  assume run: "feed p bytes = (Complete, q)"
  define p1 where "p1 = p\<lparr>buffer := buffer p @ bytes\<rparr>"
  have "parse_buffer p1 = (Complete, q)"
    using run False by (auto simp: feed_def Let_def fail_def p1_def split: if_splits)
  then show ?thesis using parse_buffer_grow [of p1 Complete q "[]"] False by (simp add: p1_def)
qed (auto simp: feed_def split: if_splits)

lemma feed_all_complete: "feed_all p cs = (Complete, q) \<Longrightarrow> complete q"
  by (induction p cs rule: feed_all.induct) (auto dest: feed_complete)

section \<open>Properties\<close>

definition example_request :: http_request where
  "example_request = \<lparr>req_method = ''POST'', path = ''/telemetry'', query = ''v=1'',
     headers = [''host'' \<mapsto> ''gw'', ''content-length'' \<mapsto> ''2''], body = ''ok''\<rparr>"

definition example_fields :: "(string \<times> string) list" where
  "example_fields = [(''Host'', ''gw''), (''Content-Length'', ''2'')]"

lemma example_good: "good_request example_request ''HTTP/1.1'' example_fields"
proof -
  have n: "lowercase ''Host'' = ''host''" "lowercase ''Content-Length'' = ''content-length''" by code_simp+
  have "from_chars ''2'' = Some (2, [])"
    by (simp add: from_chars_def is_digit_def digit_val_def uint64_max_def)
  then have len: "length_agrees example_request (length (body example_request))"
    by (simp add: length_agrees_def example_request_def numeral_2_eq_2)
  have "trim ''gw'' = ''gw''" "trim ''2'' = ''2''" by code_simp+
  then have fields: "list_all good_field example_fields"
    by (simp add: example_fields_def good_field_def CR_def LF_def)
  have "headers example_request = map_of (map (\<lambda>f. (lowercase (fst f), snd f)) example_fields)"
    by (simp add: example_request_def example_fields_def n fun_upd_twist)
  moreover have "distinct (map (lowercase \<circ> fst) example_fields)" by (simp add: example_fields_def n)
  ultimately show ?thesis
    using len fields by (simp add: good_request_def) (simp add: example_request_def example_fields_def CR_def)
qed

text \<open>C9. Fragmentation does not matter. However a request is cut into the pieces that arrive
  from the socket, feeding them one after the other ends in the same status with the same request
  and the same error text as feeding all bytes at once, as long as they fit the two limits
  together.\<close>

theorem feed_in_pieces:
  assumes "length (buffer p) + length (concat cs) \<le> max_header_bytes p + max_body_bytes p"
    and "max_header_bytes p + max_body_bytes p \<le> uint64_max" and "\<not> complete p" "parse_error p = []"
  shows "outcome (feed_all p cs) = outcome (feed p (concat cs))"
  using feed_all_concat [of p cs] assms by (simp add: sized_def)

theorem feed_in_pieces_witness:
  "outcome (feed_all (new_parser 100 10) [''GET / HTTP'', ''/1.1'', crlf]) =
   outcome (feed (new_parser 100 10) (''GET / HTTP/1.1'' @ crlf))"
  using feed_in_pieces [of "new_parser 100 10" "[''GET / HTTP'', ''/1.1'', crlf]"]
  by (simp add: new_parser_def uint64_max_def)

text \<open>C25. Requests survive the wire. A well-formed request with at least one header field,
  printed by a client and delivered in any pieces, is parsed to itself: method, path, query, body,
  and every header under its lowercase name.\<close>

theorem parse_printed:
  assumes good: "good_request r version hs" and cs: "concat cs = print_request r version hs"
    and mb: "length (body r) \<le> mb"
    and mh: "length (print_request r version hs) \<le> mh + length (body r)" and lim: "mh + mb \<le> uint64_max"
  shows "fst (feed_all (new_parser mh mb) cs) = Complete \<and> request (snd (feed_all (new_parser mh mb) cs)) = r"
  using feed_print [OF good mb mh lim] feed_all_concat [of "new_parser mh mb" cs] cs mb mh lim
  by (simp add: outcome_def sized_def new_parser_def request_def)

theorem parse_printed_witness:
  "request (snd (feed_all (new_parser 1000 10) [''POST /telemetry?v=1 HT'', ''TP/1.1'' @ [CR],
     [LF] @ ''Host: gw'' @ crlf @ ''Content-Length: 2'' @ crlf @ crlf @ ''o'', ''k''])) = example_request"
  using parse_printed [OF example_good, of "[''POST /telemetry?v=1 HT'', ''TP/1.1'' @ [CR],
     [LF] @ ''Host: gw'' @ crlf @ ''Content-Length: 2'' @ crlf @ crlf @ ''o'', ''k'']" 10 1000]
  by (simp add: print_request_def request_line_def header_line_def example_request_def example_fields_def uint64_max_def)

text \<open>C26. A request without header fields is refused. The request line is looked up in front of the
  blank line only, so whatever line (a valid request line included) a message consists of, when the
  blank line follows it directly the message is rejected as having no request line, in whatever pieces
  it arrives and whatever follows it.\<close>

theorem bare_request_refused:
  assumes "concat cs = line @ crlf @ crlf @ rest" and "CR \<notin> set line" and "length line + 4 \<le> mh"
    and "length (concat cs) \<le> mh + mb" "mh + mb \<le> uint64_max"
  shows "outcome (feed_all (new_parser mh mb) cs) = (Error, empty_request, ''missing request line'', False)"
proof -
  let ?p = "(new_parser mh mb)\<lparr>buffer := concat cs\<rparr>"
  have sized: "sized (new_parser mh mb) (length (concat cs))" using assms(4,5) by (simp add: sized_def new_parser_def)
  have find: "find_str (crlf @ crlf) (concat cs) = Some (length line)" "find_str crlf (concat cs) = Some (length line)"
    using assms(1,2) by (simp_all add: find_str_skip)
  have "feed (new_parser mh mb) (concat cs) = parse_buffer ?p" using feed_sized [OF sized] by (simp add: new_parser_def)
  also have "\<dots> = (Error, ?p\<lparr>parse_error := ''missing request line''\<rparr>)"
    using find assms(3) by (simp add: parse_buffer_def parse_headers_def fail_def new_parser_def)
  finally show ?thesis
    using feed_all_concat [OF sized] by (simp add: outcome_def new_parser_def)
qed

theorem bare_request_refused_witness:
  "outcome (feed_all (new_parser 16384 1048576) [''GET /health HTTP/1.0'' @ [CR], [LF] @ crlf]) =
     (Error, empty_request, ''missing request line'', False)"
  using bare_request_refused [of "[''GET /health HTTP/1.0'' @ [CR], [LF] @ crlf]" "''GET /health HTTP/1.0''" "[]" 16384 1048576]
  by (simp add: uint64_max_def CR_def)

end
