(* ===== verification/Connections.thy ===== *)
theory Connections
  imports Http_Requests "HOL-Library.AList"
begin

text \<open>
  \<open>src/src/network/connection_manager.cpp\<close> and \<open>connection_manager.h\<close>: the connections of one
  event loop by descriptor. The map is the list of its entries in enumeration order. The locale
  \<open>fd_table\<close> is the contract the event loop relies on: a table with at most one connection per
  descriptor.
\<close>

section \<open>Data and operations\<close>

record connection =
  conn_fd :: int
  client_ip :: string
  parser :: http_parser
  inbound :: string
  outbound :: string
  outbound_offset :: nat
  peer_closed :: bool
  request_in_flight :: bool
  generation :: nat

text \<open>The limits of the default-constructed parser.\<close>

definition new_connection :: "int \<Rightarrow> string \<Rightarrow> nat \<Rightarrow> connection" where
  "new_connection fd ip gen = \<lparr>conn_fd = fd, client_ip = ip, parser = new_parser (16 * 1024) (1 * 1024 * 1024),
     inbound = [], outbound = [], outbound_offset = 0, peer_closed = False, request_in_flight = False,
     generation = gen\<rparr>"

text \<open>Unsigned subtraction, modulo \<open>2 ^ 64\<close>.\<close>

definition pending_bytes :: "connection \<Rightarrow> nat" where
  "pending_bytes c = nat ((int (length (outbound c)) - int (outbound_offset c)) mod 2 ^ 64)"

type_synonym connections = "(int \<times> connection) list"

definition conn_add :: "int \<Rightarrow> string \<Rightarrow> nat \<Rightarrow> connections \<Rightarrow> connections" where
  "conn_add fd ip gen cs = AList.update fd (new_connection fd ip gen) cs"

definition conn_remove :: "int \<Rightarrow> connections \<Rightarrow> connections" where
  "conn_remove fd cs = AList.delete fd cs"

definition conn_get :: "connections \<Rightarrow> int \<Rightarrow> connection option" where
  "conn_get cs fd = map_of cs fd"

definition conn_count :: "connections \<Rightarrow> nat" where
  "conn_count cs = length cs"

definition file_descriptors :: "connections \<Rightarrow> int list" where
  "file_descriptors cs = map fst cs"

text \<open>Writing through the pointer that \<open>get\<close> returns.\<close>

definition conn_put :: "int \<Rightarrow> connection \<Rightarrow> connections \<Rightarrow> connections" where
  "conn_put fd c cs = AList.update fd c cs"

section \<open>The contract of a table of connections\<close>

locale fd_table =
  fixes put :: "int \<Rightarrow> 'c \<Rightarrow> 't \<Rightarrow> 't"
    and remove :: "int \<Rightarrow> 't \<Rightarrow> 't"
    and get :: "'t \<Rightarrow> int \<Rightarrow> 'c option"
    and count :: "'t \<Rightarrow> nat"
    and fds :: "'t \<Rightarrow> int list"
    and invar :: "'t \<Rightarrow> bool"
  assumes get_put: "get (put fd c t) = (get t)(fd \<mapsto> c)"
    and get_remove: "get (remove fd t) = (get t)(fd := None)"
    and fds_dom: "set (fds t) = dom (get t)"
    and invar_put: "invar t \<Longrightarrow> invar (put fd c t)"
    and invar_remove: "invar t \<Longrightarrow> invar (remove fd t)"
    and count_card: "invar t \<Longrightarrow> count t = card (dom (get t))"
begin

lemma finite_dom: "finite (dom (get t))"
  using finite_set [of "fds t"] by (simp add: fds_dom)

lemma count_put: "invar t \<Longrightarrow> count (put fd c t) = (if get t fd = None then Suc (count t) else count t)"
  using finite_dom [of t] by (auto simp: count_card invar_put get_put card_insert_if domIff)

lemma count_remove: "invar t \<Longrightarrow> count (remove fd t) = (if get t fd = None then count t else count t - 1)"
  using finite_dom [of t] by (auto simp: count_card invar_remove get_remove card_Diff_singleton_if domIff)

lemma count_zero: "invar t \<Longrightarrow> count t = 0 \<longleftrightarrow> fds t = []"
proof -
  assume "invar t"
  then have "count t = 0 \<longleftrightarrow> dom (get t) = {}" using finite_dom [of t] by (simp add: count_card)
  then show ?thesis by (simp add: fds_dom [symmetric])
qed

end

definition table_inv :: "connections \<Rightarrow> bool" where
  "table_inv cs \<longleftrightarrow> distinct (map fst cs)"

interpretation table: fd_table conn_put conn_remove conn_get conn_count file_descriptors table_inv
proof unfold_locales
  fix fd c and t :: connections
  have get: "conn_get t = map_of t" by (simp add: conn_get_def fun_eq_iff)
  show "conn_get (conn_put fd c t) = (conn_get t)(fd \<mapsto> c)"
    by (simp add: conn_get_def conn_put_def update_conv' fun_eq_iff)
  show "conn_get (conn_remove fd t) = (conn_get t)(fd := None)"
    by (simp add: conn_get_def conn_remove_def delete_conv' fun_eq_iff)
  show "set (file_descriptors t) = dom (conn_get t)"
    by (simp add: file_descriptors_def get dom_map_of_conv_image_fst)
  show "table_inv t \<Longrightarrow> table_inv (conn_put fd c t)" by (simp add: table_inv_def conn_put_def distinct_update)
  show "table_inv t \<Longrightarrow> table_inv (conn_remove fd t)" by (simp add: table_inv_def conn_remove_def distinct_delete)
  show "table_inv t \<Longrightarrow> conn_count t = card (dom (conn_get t))"
    using distinct_card [of "map fst t"] by (simp add: table_inv_def conn_count_def get dom_map_of_conv_image_fst)
qed

lemma conn_add_put: "conn_add fd ip gen cs = conn_put fd (new_connection fd ip gen) cs"
  by (simp add: conn_add_def conn_put_def)

lemma pending_exact:
  "outbound_offset c \<le> length (outbound c) \<Longrightarrow> length (outbound c) < 2 ^ 64 \<Longrightarrow>
    pending_bytes c = length (outbound c) - outbound_offset c"
  by (simp add: pending_bytes_def)

lemma pending_all: "add64 (outbound_offset c) (pending_bytes c) = length (outbound c) mod 2 ^ 64"
proof -
  have "int (add64 (outbound_offset c) (pending_bytes c)) = int (length (outbound c) mod 2 ^ 64)"
    by (simp add: add64_def pending_bytes_def zmod_int mod_simps)
  then show ?thesis by (simp only: of_nat_eq_iff)
qed

end
