(* ===== verification/Posix.thy ===== *)
theory Posix
  imports Prelude "HOL-Library.AList"
begin

text \<open>
  The operating-system calls that the log uses, over an explicit store: the entries of the
  storage directory, the open descriptors, the shared file mappings, and the bytes and directory
  entries known to be on stable storage. Every call may fail: the outcome of each call is taken from
  \<open>script\<close>, a list that stands for what the kernel decides (success, an \<open>errno\<close>, a
  short read); an exhausted script means that all further calls succeed. A statement for
  every \<open>script\<close> is a statement for every pattern of failures.

  A mapping is \<open>MAP_SHARED\<close>, so every process sees the mapped bytes as the bytes of the file.
  Stable storage is reached in two steps, as POSIX promises no less: \<open>msync\<close> hands the stores made
  through a mapping to the file (\<open>dirty\<close> lists the files whose mapping has been written since), and
  \<open>fsync\<close> of a file without such stores puts its bytes on the disk (\<open>durable\<close>). A directory entry is
  on the disk once the directory itself has been synchronised (\<open>durable_names\<close>).
\<close>

datatype sysout = Ok | Err errno | Short nat

datatype dirent = Regular "byte list" | Other

record os =
  dir_entries :: "(string \<times> dirent) list"
  durable :: "(string \<times> byte list) list"
  durable_names :: "string list"
  dirty :: "string list"
  open_fds :: "(int \<times> string) list"
  next_fd :: int
  maps :: "string list"
  script :: "sysout list"

definition EINTR :: errno where "EINTR = 4"
definition EBADF :: errno where "EBADF = 9"
definition EEXIST :: errno where "EEXIST = 17"
definition EISDIR :: errno where "EISDIR = 21"
definition ENOENT :: errno where "ENOENT = 2"

definition file_content :: "'z os_scheme \<Rightarrow> string \<Rightarrow> byte list option" where
  "file_content s name =
     (case map_of (dir_entries s) name of Some (Regular bs) \<Rightarrow> Some bs | _ \<Rightarrow> None)"

definition set_file :: "string \<Rightarrow> byte list \<Rightarrow> 'z os_scheme \<Rightarrow> 'z os_scheme" where
  "set_file name bs s = s\<lparr>dir_entries := AList.update name (Regular bs) (dir_entries s)\<rparr>"

text \<open>Each call takes one outcome from the script.\<close>

definition next_out :: "('z os_scheme, sysout) prog" where
  "next_out s = (case script s of [] \<Rightarrow> (Inr Ok, s) | r # rs \<Rightarrow> (Inr r, s\<lparr>script := rs\<rparr>))"

definition syscall :: "('z os_scheme \<Rightarrow> (errno + 'a) \<times> 'z os_scheme) \<Rightarrow> ('z os_scheme, errno + 'a) prog" where
  "syscall f = bind next_out (\<lambda>r. case r of
       Err e \<Rightarrow> ret (Inl e)
     | _ \<Rightarrow> (\<lambda>s. let (x, s') = f s in (Inr x, s')))"

definition alloc_fd :: "string \<Rightarrow> 'z os_scheme \<Rightarrow> (errno + int) \<times> 'z os_scheme" where
  "alloc_fd name s =
     (Inr (next_fd s), s\<lparr>open_fds := (next_fd s, name) # open_fds s, next_fd := next_fd s + 1\<rparr>)"

text \<open>\<open>open(path, O_RDWR)\<close>, \<open>open(path, O_RDWR | O_CREAT | O_EXCL)\<close> and opening the storage
  directory itself (under the name \<open>.\<close>).\<close>

definition sys_open :: "string \<Rightarrow> ('z os_scheme, errno + int) prog" where
  "sys_open name = syscall (\<lambda>s. case map_of (dir_entries s) name of
       None \<Rightarrow> (Inl ENOENT, s)
     | Some Other \<Rightarrow> (Inl EISDIR, s)
     | Some (Regular bs) \<Rightarrow> alloc_fd name s)"

definition sys_open_excl :: "string \<Rightarrow> ('z os_scheme, errno + int) prog" where
  "sys_open_excl name = syscall (\<lambda>s. case map_of (dir_entries s) name of
       None \<Rightarrow> alloc_fd name (set_file name [] s)
     | Some _ \<Rightarrow> (Inl EEXIST, s))"

definition sys_open_dir :: "('z os_scheme, errno + int) prog" where
  "sys_open_dir = syscall (alloc_fd ''.'')"

definition with_file :: "int \<Rightarrow> 'z os_scheme \<Rightarrow> (string \<Rightarrow> byte list \<Rightarrow> (errno + 'a) \<times> 'z os_scheme) \<Rightarrow>
    (errno + 'a) \<times> 'z os_scheme" where
  "with_file fd s k = (case map_of (open_fds s) fd of
       None \<Rightarrow> (Inl EBADF, s)
     | Some name \<Rightarrow> (case file_content s name of None \<Rightarrow> (Inl EBADF, s) | Some bs \<Rightarrow> k name bs))"

definition resize :: "nat \<Rightarrow> byte list \<Rightarrow> byte list" where
  "resize n bs = take n bs @ replicate (n - length bs) 0"

definition sys_ftruncate :: "int \<Rightarrow> nat \<Rightarrow> ('z os_scheme, errno + unit) prog" where
  "sys_ftruncate fd n = syscall (\<lambda>s. with_file fd s (\<lambda>name bs. (Inr (), set_file name (resize n bs) s)))"

definition sys_fstat :: "int \<Rightarrow> ('z os_scheme, errno + nat) prog" where
  "sys_fstat fd = syscall (\<lambda>s. with_file fd s (\<lambda>name bs. (Inr (length bs), s)))"

text \<open>A mapping is named by the file it shares its bytes with.\<close>

definition sys_mmap :: "int \<Rightarrow> ('z os_scheme, errno + string) prog" where
  "sys_mmap fd = syscall (\<lambda>s. with_file fd s (\<lambda>name bs. (Inr name, s\<lparr>maps := name # maps s\<rparr>)))"

definition sys_munmap :: "string \<Rightarrow> ('z os_scheme, errno + unit) prog" where
  "sys_munmap data = syscall (\<lambda>s. (Inr (), s\<lparr>maps := remove1 data (maps s)\<rparr>))"

definition sys_msync :: "string \<Rightarrow> ('z os_scheme, errno + unit) prog" where
  "sys_msync data = syscall (\<lambda>s. (Inr (), s\<lparr>dirty := removeAll data (dirty s)\<rparr>))"

text \<open>Synchronising the directory descriptor puts its entries on the disk, synchronising a file its
  bytes; stores through a mapping that have not been handed over stay behind.\<close>

definition sys_fsync :: "int \<Rightarrow> ('z os_scheme, errno + unit) prog" where
  "sys_fsync fd = syscall (\<lambda>s. case map_of (open_fds s) fd of
       None \<Rightarrow> (Inl EBADF, s)
     | Some name \<Rightarrow>
         if name = ''.'' then (Inr (), s\<lparr>durable_names := map fst (dir_entries s)\<rparr>)
         else (case if name \<in> set (dirty s) then None else file_content s name of
             None \<Rightarrow> (Inr (), s)
           | Some bs \<Rightarrow> (Inr (), s\<lparr>durable := AList.update name bs (durable s)\<rparr>)))"

text \<open>\<open>close\<close> releases the descriptor even when it reports an error.\<close>

definition sys_close :: "int \<Rightarrow> ('z os_scheme, errno + unit) prog" where
  "sys_close fd = bind next_out (\<lambda>r s. let s' = s\<lparr>open_fds := AList.delete fd (open_fds s)\<rparr> in
     (case r of Err e \<Rightarrow> (Inr (Inl e), s') | _ \<Rightarrow> (Inr (Inr ()), s')))"

text \<open>\<open>std::filesystem::remove\<close> throws on failure.\<close>

definition fs_remove :: "string \<Rightarrow> ('z os_scheme, unit) prog" where
  "fs_remove name = bind next_out (\<lambda>r. case r of
       Err e \<Rightarrow> throw (Filesystem_error ''remove'')
     | _ \<Rightarrow> modify (\<lambda>s. s\<lparr>dir_entries := AList.delete name (dir_entries s)\<rparr>))"

text \<open>A \<open>memcpy\<close> into a mapping writes the file.\<close>

definition mem_write :: "string \<Rightarrow> nat \<Rightarrow> byte list \<Rightarrow> ('z os_scheme, unit) prog" where
  "mem_write data pos new = modify (\<lambda>s. case file_content s data of
       None \<Rightarrow> s
     | Some bs \<Rightarrow> (set_file data (overwrite pos new bs) s)\<lparr>dirty := List.insert data (dirty s)\<rparr>)"

text \<open>One \<open>pread\<close> of at most \<open>len\<close> bytes: the kernel may deliver fewer, but at least one
  unless the offset is at or behind the end of the file.\<close>

definition sys_pread :: "byte list \<Rightarrow> nat \<Rightarrow> nat \<Rightarrow> sysout list \<Rightarrow> (errno + byte list) \<times> sysout list" where
  "sys_pread content len off rs = (case rs of
       [] \<Rightarrow> (Inr (take len (drop off content)), [])
     | Ok # rs' \<Rightarrow> (Inr (take len (drop off content)), rs')
     | Short k # rs' \<Rightarrow> (Inr (take (min (max 1 k) len) (drop off content)), rs')
     | Err e # rs' \<Rightarrow> (Inl e, rs'))"

section \<open>Effect of the calls\<close>

lemma next_out_cases:
  obtains r rs where "next_out s = (Inr r, s\<lparr>script := rs\<rparr>)"
proof (cases "script s")
  case Nil
  then have "next_out s = (Inr Ok, s\<lparr>script := []\<rparr>)" by (simp add: next_out_def)
  then show ?thesis by (rule that)
next
  case (Cons r rs)
  then have "next_out s = (Inr r, s\<lparr>script := rs\<rparr>)" by (simp add: next_out_def)
  then show ?thesis by (rule that)
qed

lemma next_out_ok [simp]: "script s = [] \<Longrightarrow> next_out s = (Inr Ok, s)"
  by (simp add: next_out_def)

lemma syscall_ok: "script s = [] \<Longrightarrow> syscall f s = (let (x, s') = f s in (Inr x, s'))"
  by (simp add: syscall_def bind_apply)

lemma sys_pread_Inr:
  assumes "sys_pread content len off rs = (Inr chunk, rs')" and "0 < len"
  obtains k where "0 < k" "k \<le> len" "chunk = take k (drop off content)" "length rs' \<le> length rs"
proof (cases rs)
  case Nil
  with assms that [of len] show ?thesis by (simp add: sys_pread_def)
next
  case (Cons r rs0)
  with assms that [of len] that [of "min (max 1 (case r of Short k \<Rightarrow> k | _ \<Rightarrow> 0)) len"] show ?thesis
    by (cases r) (auto simp: sys_pread_def)
qed

lemma sys_pread_Inl:
  "sys_pread content len off rs = (Inl e, rs') \<Longrightarrow> rs = Err e # rs'"
  by (auto simp: sys_pread_def split: list.splits sysout.splits)

lemma sys_pread_script:
  "(r, rs') = sys_pread content len off rs \<Longrightarrow> length rs' \<le> length rs"
  "(Inl e, rs') = sys_pread content len off rs \<Longrightarrow> length rs' < length rs"
  by (auto simp: sys_pread_def split: list.splits sysout.splits)

lemma length_resize [simp]: "length (resize n bs) = n"
  by (simp add: resize_def)

lemma resize_same [simp]: "resize (length bs) bs = bs"
  by (simp add: resize_def)

lemma file_content_set_file [simp]:
  "file_content (set_file name bs s) name' = (if name' = name then Some bs else file_content s name')"
  by (simp add: file_content_def set_file_def update_conv')

lemma set_file_fields [simp]:
  "open_fds (set_file name bs s) = open_fds s" "next_fd (set_file name bs s) = next_fd s"
  "maps (set_file name bs s) = maps s" "script (set_file name bs s) = script s"
  "durable (set_file name bs s) = durable s" "durable_names (set_file name bs s) = durable_names s"
  "dirty (set_file name bs s) = dirty s" "os.more (set_file name bs s) = os.more s"
  by (simp_all add: set_file_def)

lemma removeAll_insert [simp]: "removeAll x (List.insert x xs) = removeAll x xs"
  by (simp add: List.insert_def)

lemma file_content_cong [simp]:
  "file_content (s\<lparr>durable := d\<rparr>) name = file_content s name"
  "file_content (s\<lparr>durable_names := ns\<rparr>) name = file_content s name"
  "file_content (s\<lparr>dirty := ns\<rparr>) name = file_content s name"
  "file_content (s\<lparr>open_fds := f\<rparr>) name = file_content s name"
  "file_content (s\<lparr>next_fd := i\<rparr>) name = file_content s name"
  "file_content (s\<lparr>maps := m\<rparr>) name = file_content s name"
  "file_content (s\<lparr>script := r\<rparr>) name = file_content s name"
  by (simp_all add: file_content_def)

end
