(* ===== verification/Epoll_Loop.thy ===== *)
theory Epoll_Loop
  imports Posix
begin

text \<open>
  \<open>src/src/network/epoll_loop.cpp\<close> and \<open>epoll_loop.h\<close>: the interest list and the event loop. Of
  the kernel the model keeps the interest list of the epoll instance; the outcome of each
  \<open>epoll_ctl\<close> call that the interest list allows is taken from \<open>ctls\<close> (an exhausted list means
  success). \<open>epoll_run\<close> is \<open>EpollLoop::run\<close> over the successive outcomes of \<open>epoll_wait\<close>, each
  with what the other threads did to the state during the wait.
\<close>

unbundle bit_operations_syntax

section \<open>The interest list\<close>

type_synonym events = u32

definition EPOLLIN :: events where "EPOLLIN = 0x001"
definition EPOLLOUT :: events where "EPOLLOUT = 0x004"
definition EPOLLERR :: events where "EPOLLERR = 0x008"
definition EPOLLHUP :: events where "EPOLLHUP = 0x010"
definition EPOLLRDHUP :: events where "EPOLLRDHUP = 0x2000"

lemmas epoll_masks = EPOLLIN_def EPOLLOUT_def EPOLLERR_def EPOLLHUP_def EPOLLRDHUP_def

definition EAGAIN :: errno where "EAGAIN = 11"

definition has_event :: "events \<Rightarrow> events \<Rightarrow> bool" where
  "has_event events bits \<longleftrightarrow> events AND bits \<noteq> 0"

record epoll_loop =
  epoll_fd :: int
  interest :: "int \<rightharpoonup> events"
  ctls :: "bool list"

definition new_epoll :: "int \<Rightarrow> bool list \<Rightarrow> epoll_loop" where
  "new_epoll fd cs = \<lparr>epoll_fd = fd, interest = Map.empty, ctls = cs\<rparr>"

definition next_ctl :: "epoll_loop \<Rightarrow> bool \<times> epoll_loop" where
  "next_ctl l = (case ctls l of [] \<Rightarrow> (epoll_fd l \<noteq> -1, l) | ok # cs \<Rightarrow> (ok \<and> epoll_fd l \<noteq> -1, l\<lparr>ctls := cs\<rparr>))"

text \<open>Adding a watched descriptor, and removing or modifying one that is not watched, fails.\<close>

definition add_fd :: "int \<Rightarrow> events \<Rightarrow> epoll_loop \<Rightarrow> bool \<times> epoll_loop" where
  "add_fd fd events l = (let (ok, l) = next_ctl l in
     if ok \<and> interest l fd = None then (True, l\<lparr>interest := (interest l)(fd \<mapsto> events)\<rparr>) else (False, l))"

definition remove_fd :: "int \<Rightarrow> epoll_loop \<Rightarrow> bool \<times> epoll_loop" where
  "remove_fd fd l = (let (ok, l) = next_ctl l in
     if ok \<and> interest l fd \<noteq> None then (True, l\<lparr>interest := (interest l)(fd := None)\<rparr>) else (False, l))"

definition modify_fd :: "int \<Rightarrow> events \<Rightarrow> epoll_loop \<Rightarrow> bool \<times> epoll_loop" where
  "modify_fd fd events l = (let (ok, l) = next_ctl l in
     if ok \<and> interest l fd \<noteq> None then (True, l\<lparr>interest := (interest l)(fd \<mapsto> events)\<rparr>) else (False, l))"

text \<open>\<open>close\<close> takes a descriptor out of the interest list.\<close>

definition forget_fd :: "int \<Rightarrow> epoll_loop \<Rightarrow> epoll_loop" where
  "forget_fd fd l = l\<lparr>interest := (interest l)(fd := None)\<rparr>"

section \<open>The loop\<close>

datatype wait_result = Ready "(int \<times> events) list" | Wait_errno errno

text \<open>The result is the value \<open>run\<close> returns; \<open>None\<close> is a loop that still waits.\<close>

fun epoll_run :: "(int \<Rightarrow> events \<Rightarrow> 's \<Rightarrow> 's) \<Rightarrow> ('s \<Rightarrow> 's) \<Rightarrow> ('s \<Rightarrow> bool) \<Rightarrow>
    (wait_result \<times> ('s \<Rightarrow> 's)) list \<Rightarrow> 's \<Rightarrow> bool option \<times> 's" where
  "epoll_run callback on_iteration should_stop [] s = (if should_stop s then Some True else None, s)"
| "epoll_run callback on_iteration should_stop ((w, others) # ws) s =
     (if should_stop s then (Some True, s) else
      let s = others s in
      case w of
        Wait_errno e \<Rightarrow> if e = EINTR then epoll_run callback on_iteration should_stop ws s else (Some False, s)
      | Ready evs \<Rightarrow>
          let s = fold (\<lambda>(fd, events). callback fd events) (take 64 evs) s;
              s = on_iteration s
          in if should_stop s then (Some True, s) else epoll_run callback on_iteration should_stop ws s)"

definition run :: "(int \<Rightarrow> events \<Rightarrow> 's \<Rightarrow> 's) \<Rightarrow> ('s \<Rightarrow> 's) \<Rightarrow> ('s \<Rightarrow> bool) \<Rightarrow> epoll_loop \<Rightarrow>
    (wait_result \<times> ('s \<Rightarrow> 's)) list \<Rightarrow> 's \<Rightarrow> bool option \<times> 's" where
  "run callback on_iteration should_stop l ws s =
     (if epoll_fd l = -1 then (Some False, s) else epoll_run callback on_iteration should_stop ws s)"

section \<open>What a client of the loop may rely on\<close>

lemma next_ctl_frame [simp]: "interest (snd (next_ctl l)) = interest l" "epoll_fd (snd (next_ctl l)) = epoll_fd l"
  by (auto simp: next_ctl_def split: list.split)

lemma interest_add: "interest (snd (add_fd fd ev l)) = (if fst (add_fd fd ev l) then (interest l)(fd \<mapsto> ev) else interest l)"
  by (auto simp: add_fd_def Let_def split_beta)

lemma interest_modify: "interest (snd (modify_fd fd ev l)) = (if fst (modify_fd fd ev l) then (interest l)(fd \<mapsto> ev) else interest l)"
  by (auto simp: modify_fd_def Let_def split_beta)

lemma interest_close: "interest (forget_fd fd (snd (remove_fd fd l))) = (interest l)(fd := None)"
  by (auto simp: forget_fd_def remove_fd_def Let_def split_beta)

lemma dom_modify [simp]: "dom (interest (snd (modify_fd fd ev l))) = dom (interest l)"
  by (auto simp: modify_fd_def Let_def split_beta)

lemma epoll_fd_frame [simp]:
  "epoll_fd (snd (add_fd fd ev l)) = epoll_fd l" "epoll_fd (snd (modify_fd fd ev l)) = epoll_fd l"
  "epoll_fd (snd (remove_fd fd l)) = epoll_fd l" "epoll_fd (forget_fd fd l) = epoll_fd l"
  by (auto simp: add_fd_def modify_fd_def remove_fd_def forget_fd_def Let_def split_beta)

lemma modify_quiet: "ctls l = [] \<Longrightarrow> epoll_fd l \<noteq> -1 \<Longrightarrow> interest l fd \<noteq> None \<Longrightarrow> fst (modify_fd fd ev l)"
  by (simp add: modify_fd_def next_ctl_def)

text \<open>The contract of the callbacks: a property of the state that each of them keeps. Then the
  loop keeps it, whatever is reported, and it returns \<open>true\<close> only when it was told to stop.\<close>

locale event_handlers =
  fixes callback :: "int \<Rightarrow> events \<Rightarrow> 's \<Rightarrow> 's"
    and on_iteration :: "'s \<Rightarrow> 's"
    and should_stop :: "'s \<Rightarrow> bool"
    and inv :: "'s \<Rightarrow> bool"
  assumes inv_callback: "inv s \<Longrightarrow> inv (callback fd events s)"
    and inv_iteration: "inv s \<Longrightarrow> inv (on_iteration s)"
begin

lemma inv_callbacks: "inv s \<Longrightarrow> inv (fold (\<lambda>(fd, events). callback fd events) evs s)"
  by (induction evs arbitrary: s) (auto intro: inv_callback)

lemma inv_run:
  assumes "inv s" and "\<And>w others t. (w, others) \<in> set ws \<Longrightarrow> inv t \<Longrightarrow> inv (others t)"
  shows "inv (snd (epoll_run callback on_iteration should_stop ws s))"
  using assms
proof (induction ws arbitrary: s)
  case (Cons x ws)
  obtain w others where x: "x = (w, others)" by (cases x)
  then have "inv (others s)" using Cons.prems by auto
  then show ?case using Cons x
    by (auto simp: Let_def split: wait_result.splits intro!: inv_iteration inv_callbacks)
qed simp

lemma run_stopped: "fst (epoll_run callback on_iteration should_stop ws s) = Some True \<Longrightarrow>
  should_stop (snd (epoll_run callback on_iteration should_stop ws s))"
proof (induction ws arbitrary: s)
  case (Cons x ws)
  then show ?case by (cases x) (auto simp: Let_def split: wait_result.splits if_splits)
qed (simp split: if_splits)

end

end
