(* ===== verification/Http_Framing.thy ===== *)
theory Http_Framing
  imports Http_Requests
begin

text \<open>
  How a request that the parser of \<open>Http_Parser\<close> accepts is framed in the bytes that the client sent.
  The header fields are read off these bytes by a reference splitter that knows nothing of the
  parser's header map; the theorem says that all of them agree on one body length and that the body
  is that many bytes behind the blank line.
\<close>

section \<open>The fields of a header block\<close>

function split_crlf :: "string \<Rightarrow> string list" where
  "split_crlf s = (case find_str crlf s of None \<Rightarrow> [s] | Some e \<Rightarrow> take e s # split_crlf (drop (e + 2) s))"
  by pat_completeness auto
termination
  by (relation "measure length") (auto dest: find_str_bound)

declare split_crlf.simps [simp del]

definition field_of :: "string \<Rightarrow> string \<times> string" where
  "field_of l = (lowercase (takeWhile (\<lambda>c. c \<noteq> CHR '':'') l), trim (tl (dropWhile (\<lambda>c. c \<noteq> CHR '':'') l)))"

text \<open>The fields of the message that starts at the beginning of \<open>s\<close>: the lines in front of the first
  blank line, without the request line.\<close>

definition raw_fields :: "string \<Rightarrow> (string \<times> string) list" where
  "raw_fields s = (case find_str (crlf @ crlf) s of None \<Rightarrow> [] | Some h \<Rightarrow> map field_of (tl (split_crlf (take h s))))"

text \<open>All fields agree that the body has \<open>n\<close> bytes, and no field announces another encoding.\<close>

definition framing :: "(string \<times> string) list \<Rightarrow> nat \<Rightarrow> bool" where
  "framing fs n \<longleftrightarrow> (\<forall>f \<in> set fs. fst f \<noteq> ''transfer-encoding'') \<and>
     (\<forall>f \<in> set fs. fst f = ''content-length'' \<longrightarrow> from_chars (snd f) = Some (n, [])) \<and>
     ((\<forall>f \<in> set fs. fst f \<noteq> ''content-length'') \<longrightarrow> n = 0)"

section \<open>The header loop reads these fields\<close>

lemma field_of_colon:
  assumes "find_char (CHR '':'') l = Some k"
  shows "field_of l = (lowercase (substr l 0 k), trim (drop (k + 1) l))"
  using assms
proof -
  have "takeWhile (\<lambda>c. c \<noteq> CHR '':'') l = take k l \<and> dropWhile (\<lambda>c. c \<noteq> CHR '':'') l = drop k l"
    using assms by (induction l arbitrary: k) (auto split: if_splits)
  moreover have "tl (drop k l) = drop (k + 1) l" by (metis drop_Suc drop_tl tl_drop Suc_eq_plus1)
  ultimately show ?thesis by (simp add: field_of_def substr_def)
qed

text \<open>One line: its field is in the map afterwards, and no entry leaves it; the entry for
  \<open>Content-Length\<close> never changes.\<close>

lemma parse_header_line_field:
  assumes "parse_header_line p l = (st, q)" and "st \<noteq> Error" and "field_of l = (n, v)"
  defines "hs \<equiv> headers (parsed_request p)" and "hs' \<equiv> headers (parsed_request q)"
  shows "hs' n \<noteq> None \<and> (n = ''content-length'' \<longrightarrow> hs' n = Some v) \<and> (\<forall>k. k \<noteq> n \<longrightarrow> hs' k = hs k) \<and>
    (n = ''content-length'' \<longrightarrow> hs n \<noteq> None \<longrightarrow> hs' n = hs n)"
proof (cases "find_char (CHR '':'') l")
  case None
  then show ?thesis using assms by (simp add: parse_header_line_def fail_def del: find_char_None_iff)
next
  case (Some k)
  have f: "n = lowercase (substr l 0 k)" "v = trim (drop (k + 1) l)" using field_of_colon [OF Some] assms(3) by simp_all
  show ?thesis
    using assms(1,2) unfolding hs_def hs'_def parse_header_line_def Some f
    by (auto simp: fail_def Let_def split: if_splits option.splits)
qed

lemma parse_each_fields:
  assumes "parse_each p ls = (st, q)" and "st \<noteq> Error"
  defines "hs \<equiv> headers (parsed_request p)" and "hs' \<equiv> headers (parsed_request q)"
  shows "(\<forall>f \<in> set (map field_of ls). hs' (fst f) \<noteq> None \<and> (fst f = ''content-length'' \<longrightarrow> hs' (fst f) = Some (snd f))) \<and>
    (\<forall>k. hs k \<noteq> None \<longrightarrow> hs' k \<noteq> None \<and> (k = ''content-length'' \<longrightarrow> hs' k = hs k)) \<and>
    (\<forall>k. hs' k \<noteq> None \<longrightarrow> hs k \<noteq> None \<or> k \<in> fst ` set (map field_of ls))"
  using assms(1) unfolding hs_def hs'_def
proof (induction ls arbitrary: p)
  case (Cons l ls)
  obtain st1 p1 where p1: "parse_header_line p l = (st1, p1)" by fastforce
  obtain n v where f: "field_of l = (n, v)" by fastforce
  have st1: "st1 \<noteq> Error" and rest: "parse_each p1 ls = (st, q)"
    using Cons.prems p1 assms(2) by (cases st1; simp)+
  note one = parse_header_line_field [OF p1 st1 f] and IH = Cons.IH [OF rest]
  have a: "headers (parsed_request p1) k \<noteq> None \<and> (k = ''content-length'' \<longrightarrow> headers (parsed_request p1) k = headers (parsed_request p) k)"
    if "headers (parsed_request p) k \<noteq> None" for k using one that by (cases "k = n") auto
  have b: "headers (parsed_request p) k \<noteq> None \<or> k = n" if "headers (parsed_request p1) k \<noteq> None" for k using one that by (cases "k = n") auto
  show ?case
  proof (intro conjI)
    show "\<forall>g \<in> set (map field_of (l # ls)). headers (parsed_request q) (fst g) \<noteq> None \<and>
        (fst g = ''content-length'' \<longrightarrow> headers (parsed_request q) (fst g) = Some (snd g))"
      using IH one by (simp add: f) metis
    show "\<forall>k. headers (parsed_request p) k \<noteq> None \<longrightarrow> headers (parsed_request q) k \<noteq> None \<and>
        (k = ''content-length'' \<longrightarrow> headers (parsed_request q) k = headers (parsed_request p) k)"
      using IH a by metis
    show "\<forall>k. headers (parsed_request q) k \<noteq> None \<longrightarrow> headers (parsed_request p) k \<noteq> None \<or> k \<in> fst ` set (map field_of (l # ls))"
    proof (intro allI impI)
      fix k assume "headers (parsed_request q) k \<noteq> None"
      then have "headers (parsed_request p1) k \<noteq> None \<or> k \<in> fst ` set (map field_of ls)" using IH by blast
      then show "headers (parsed_request p) k \<noteq> None \<or> k \<in> fst ` set (map field_of (l # ls))" using b [of k] f by force
    qed
  qed
qed simp

text \<open>Between a line start and the separator the loop sees the lines of the splitter.\<close>

lemma starts_crlf: "starts_with crlf (drop j s) \<longleftrightarrow> j + 1 < length s \<and> s ! j = CR \<and> s ! (j + 1) = LF"
proof (cases "j + 1 < length s")
  case True
  then have "drop j s = s ! j # s ! (j + 1) # drop (j + 2) s" by (simp add: Cons_nth_drop_Suc)
  then show ?thesis using True by auto
next
  case False
  then have "length (take (length crlf) (drop j s)) < length crlf" by simp
  then have "take (length crlf) (drop j s) \<noteq> crlf" by (metis less_irrefl)
  then show ?thesis using False unfolding starts_with_iff by blast
qed

lemma starts_separator:
  "starts_with (crlf @ crlf) (drop j s) \<longleftrightarrow> starts_with crlf (drop j s) \<and> starts_with crlf (drop (j + 2) s)"
proof -
  have "starts_with (crlf @ u) x \<longleftrightarrow> starts_with crlf x \<and> starts_with u (drop 2 x)" for u x
    by (cases x; cases "tl x") (auto simp: numeral_2_eq_2)
  from this [of crlf "drop j s"] show ?thesis by (simp only: drop_drop add.commute [of 2 j])
qed

lemma crlf_before_separator:
  assumes sep: "find_str (crlf @ crlf) s = Some h" and e: "find_str_from crlf s i = Some e" and i: "i < h" and le: "e \<le> h"
  shows "split_crlf (take (h - i) (drop i s)) =
    (if e = h then [substr s i (e - i)] else substr s i (e - i) # split_crlf (take (h - (e + 2)) (drop (e + 2) s))) \<and> (e \<noteq> h \<longrightarrow> e + 2 < h)"
proof -
  let ?r = "take (h - i) (drop i s)"
  have first: "find_str crlf (drop i s) = Some (e - i)" "i \<le> e" using e by (auto simp: find_str_from_def)
  have at: "s ! e = CR" "s ! (e + 1) = LF" and before: "\<And>j. i \<le> j \<Longrightarrow> j < e \<Longrightarrow> \<not> starts_with crlf (drop j s)"
  proof -
    show "s ! e = CR" "s ! (e + 1) = LF" using first starts_crlf [of e s] by (auto simp: find_str_Some_iff)
    show "\<not> starts_with crlf (drop j s)" if "i \<le> j" "j < e" for j
    proof -
      have "j - i < e - i" using that by linarith
      then have "\<not> starts_with crlf (drop (j - i) (drop i s))" using first(1) unfolding find_str_Some_iff by blast
      then show ?thesis using that by simp
    qed
  qed
  have fin: "s ! h = CR" "h + 4 \<le> length s" "starts_with crlf (drop h s)" "\<And>j. j < h \<Longrightarrow> \<not> starts_with (crlf @ crlf) (drop j s)"
    using sep find_str_bound [OF sep] starts_separator [of h s] starts_crlf [of h s] by (auto simp: find_str_Some_iff simp del: append.simps)
  have inside: "starts_with crlf (drop j ?r) \<longleftrightarrow> j + 1 < h - i \<and> starts_with crlf (drop (i + j) s)" for j
    using fin(2) i starts_crlf [of j ?r] starts_crlf [of "i + j" s] by (auto simp: less_diff_conv add.commute add.left_commute)
  show ?thesis
  proof (cases "e = h")
    case True
    have "find_str crlf ?r = None" using inside before True by (auto simp: find_str_None_iff)
    then show ?thesis using True by (subst split_crlf.simps) (simp add: substr_def)
  next
    case False
    then have "e < h" "e + 1 \<noteq> h" using le at fin(1) by auto
    moreover have "e + 2 \<noteq> h"
      using fin(2,3) fin(4) [of e] \<open>e < h\<close> starts_separator [of e s] starts_crlf [of e s] at by auto
    ultimately have lt: "e + 2 < h" by linarith
    have "find_str crlf ?r = Some (e - i)"
      unfolding find_str_Some_iff
    proof (intro conjI allI impI)
      show "e - i \<le> length ?r" using lt fin(2) first(2) by simp
      show "starts_with crlf (drop (e - i) ?r)" using inside [of "e - i"] lt first(2) starts_crlf [of e s] at fin(2) by auto
      show "\<not> starts_with crlf (drop j ?r)" if "j < e - i" for j using inside [of j] before [of "i + j"] that by auto
    qed
    moreover have "take (e - i) ?r = substr s i (e - i)" using lt by (simp add: substr_def min_def)
    moreover have "drop (e - i + 2) ?r = take (h - (e + 2)) (drop (e + 2) s)"
      using lt first(2) by (simp add: drop_take add.commute)
    ultimately show ?thesis using False lt by (subst split_crlf.simps) simp
  qed
qed

lemma parse_header_lines_split:
  assumes "find_str (crlf @ crlf) (buffer p) = Some h"
  shows "parse_header_lines p h i = (if i < h then parse_each p (split_crlf (take (h - i) (drop i (buffer p)))) else (Incomplete, p))"
  using assms
proof (induction p h i rule: parse_header_lines.induct)
  case (1 p h i)
  show ?case
  proof (cases "i < h")
    case False
    then show ?thesis by (subst parse_header_lines.simps) simp
  next
    case True
    then obtain e where e: "find_str_from crlf (buffer p) i = Some e" "e \<le> h" using separator_crlf [OF "1.prems", of i] by auto
    note split = crlf_before_separator [OF "1.prems" e(1) True e(2)]
    define line where "line = substr (buffer p) i (e - i)"
    obtain st q where q: "parse_header_line p line = (st, q)" by fastforce
    then have buf: "buffer q = buffer p" using parse_header_line_ok [of p line] by (simp add: step_ok_def same_frame_def)
    have "st \<noteq> Error \<Longrightarrow> parse_header_lines q h (e + 2) =
        (if e + 2 < h then parse_each q (split_crlf (take (h - (e + 2)) (drop (e + 2) (buffer q)))) else (Incomplete, q))"
      using "1.IH"(1) [OF True e(1) _ q [unfolded line_def, symmetric]]
        "1.IH"(2) [OF True e(1) _ q [unfolded line_def, symmetric]] "1.prems" e(2) buf by (cases st) simp_all
    then show ?thesis
      using True e q split buf line_def by (subst parse_header_lines.simps) (cases st; auto)
  qed
qed

lemma parse_request_line_headers: "headers (parsed_request (snd (parse_request_line p l))) = headers (parsed_request p)"
  by (cases "find_char (CHR '' '') l"; cases "find_char (CHR '' '') (drop (the (find_char (CHR '' '') l) + 1) l)")
    (simp_all add: parse_request_line_def Let_def fail_def del: find_char_None_iff split: option.split)

lemma parse_headers_framing:
  assumes sep: "find_str (crlf @ crlf) (buffer p) = Some h" and run: "parse_headers p h = (st, q)" "st \<noteq> Error"
    and fresh: "headers (parsed_request p) = Map.empty" "content_length p = 0"
  shows "framing (raw_fields (buffer p)) (content_length q)"
proof -
  obtain e where e: "find_str crlf (buffer p) = Some e" "e \<le> h"
    using separator_crlf [OF sep, of 0] by (auto simp: find_str_from_def)
  then have lt: "e < h" using run by (auto simp: parse_headers_def fail_def split: if_splits)
  obtain st1 p1 where p1: "parse_request_line p (substr (buffer p) 0 e) = (st1, p1)" by fastforce
  obtain st2 p2 where p2: "parse_header_lines p1 h (e + 2) = (st2, p2)" by fastforce
  have ok: "st1 \<noteq> Error" "st2 \<noteq> Error" "check_length p2 = (st, q)"
    using run e lt p1 p2 by (cases st1; cases st2; simp add: parse_headers_def)+
  have st: "st = Incomplete" using check_length_ok [of p2] ok(3) run(2) by (auto simp: step_ok_def)
  have buf: "buffer p1 = buffer p" and hs: "headers (parsed_request p1) = Map.empty"
    using parse_request_line_ok [of p "substr (buffer p) 0 e"] parse_request_line_headers [of p "substr (buffer p) 0 e"] p1 fresh
    by (simp_all add: step_ok_def same_frame_def)
  have cl: "content_length p2 = 0"
    using parse_request_line_length [of p "substr (buffer p) 0 e"] parse_header_lines_length [of p1 h "e + 2"] p1 p2 fresh by simp
  have split: "split_crlf (take h (buffer p)) = substr (buffer p) 0 e # split_crlf (take (h - (e + 2)) (drop (e + 2) (buffer p)))" "e + 2 < h"
    using crlf_before_separator [OF sep, of 0 e] e lt by (simp_all add: find_str_from_def)
  let ?ls = "split_crlf (take (h - (e + 2)) (drop (e + 2) (buffer p)))"
  have "parse_each p1 ?ls = (st2, p2)"
    using parse_header_lines_split [of p1 h "e + 2"] sep buf p2 split(2) by simp
  note each = parse_each_fields [OF this ok(2), unfolded hs]
  have fields: "raw_fields (buffer p) = map field_of ?ls" using sep split(1) by (simp add: raw_fields_def)
  have req: "parsed_request q = parsed_request p2"
    using ok(3) st by (auto simp: check_length_def Let_def fail_def split: if_splits option.splits list.splits)
  have agr: "length_agrees (parsed_request p2) (content_length q)"
    using check_length_agrees [of p2 q] ok(3) st cl req by simp
  show ?thesis
    unfolding framing_def fields
  proof (intro conjI)
    show "\<forall>f \<in> set (map field_of ?ls). fst f \<noteq> ''transfer-encoding''"
      using each agr unfolding length_agrees_def by metis
    show "\<forall>f \<in> set (map field_of ?ls). fst f = ''content-length'' \<longrightarrow> from_chars (snd f) = Some (content_length q, [])"
      using each agr unfolding length_agrees_def by fastforce
    show "(\<forall>f \<in> set (map field_of ?ls). fst f \<noteq> ''content-length'') \<longrightarrow> content_length q = 0"
      using each agr unfolding length_agrees_def by (force split: option.splits)
  qed
qed

section \<open>The parser and the bytes it was fed\<close>

definition reads :: "http_parser \<Rightarrow> string \<Rightarrow> bool" where
  "reads p s \<longleftrightarrow> (parse_error p = [] \<longrightarrow>
     (if headers_parsed p then \<exists>h. find_str (crlf @ crlf) s = Some h \<and> framing (raw_fields s) (content_length p) \<and>
        (if complete p then body (parsed_request p) = take (content_length p) (drop (h + 4) s) \<and> h + 4 + content_length p \<le> length s
         else buffer p = drop (h + 4) s)
      else \<not> complete p \<and> buffer p = s \<and> headers (parsed_request p) = Map.empty \<and> content_length p = 0))"

lemma reads_new: "reads (new_parser mh mb) []"
  by (simp add: reads_def new_parser_def empty_request_def)

lemma raw_fields_append:
  assumes "find_str (crlf @ crlf) s = Some h"
  shows "raw_fields (s @ t) = raw_fields s"
  using find_str_append_hit [OF assms, of t] find_str_bound [OF assms] assms by (simp add: raw_fields_def)

lemma reads_finish:
  assumes "find_str (crlf @ crlf) s = Some h" "framing (raw_fields s) (content_length p)" "buffer p = drop (h + 4) s"
    and "headers_parsed p" "\<not> complete p"
  shows "reads (snd (finish_body p)) s"
  using assms find_str_bound [OF assms(1)] by (auto simp: reads_def finish_body_def)

lemma reads_parse_buffer:
  assumes p: "\<not> complete p" "parse_error p = []" and old: "reads p0 s" "p = p0\<lparr>buffer := buffer p0 @ t\<rparr>"
  shows "reads (snd (parse_buffer p)) (s @ t)"
proof (cases "headers_parsed p")
  case True
  then obtain h where h: "find_str (crlf @ crlf) s = Some h" "framing (raw_fields s) (content_length p)" "buffer p = drop (h + 4) s @ t"
    using old p by (auto simp: reads_def)
  have "drop (h + 4) (s @ t) = drop (h + 4) s @ t" using find_str_bound [OF h(1)] by simp
  then show ?thesis
    using True p h find_str_append_hit [OF h(1), of t] raw_fields_append [OF h(1), of t]
    by (simp add: parse_buffer_def reads_finish)
next
  case False
  then have st: "buffer p = s @ t" "headers (parsed_request p) = Map.empty" "content_length p = 0" using old p by (auto simp: reads_def)
  show ?thesis
  proof (cases "find_str (crlf @ crlf) (buffer p)")
    case None
    then show ?thesis using False st p by (auto simp: parse_buffer_def fail_def reads_def)
  next
    case (Some h)
    obtain st1 p1 where ph: "parse_headers p h = (st1, p1)" by fastforce
    note frame = parse_headers_ok [of p h, unfolded ph step_ok_def same_frame_def fst_conv snd_conv]
    consider (big) "h + 4 > max_header_bytes p" | (err) "\<not> h + 4 > max_header_bytes p" "st1 = Error"
      | (go) "\<not> h + 4 > max_header_bytes p" "st1 = Incomplete" using frame by blast
    then show ?thesis
    proof cases
      case go
      let ?p = "p1\<lparr>headers_parsed := True, buffer := drop (h + 4) (buffer p1)\<rparr>"
      have "framing (raw_fields (s @ t)) (content_length p1)"
        using parse_headers_framing [OF Some ph _ st(2,3)] go st(1) by simp
      then have "reads (snd (finish_body ?p)) (s @ t)"
        using Some st(1) frame p by (intro reads_finish [of _ h]) auto
      then show ?thesis using go False Some ph by (simp add: parse_buffer_def)
    qed (use False Some ph frame in \<open>simp_all add: parse_buffer_def fail_def reads_def\<close>)
  qed
qed

lemma reads_feed:
  assumes "reads p s"
  shows "reads (snd (feed p t)) (s @ t)"
proof (cases "complete p \<or> parse_error p \<noteq> []")
  case True
  then have "snd (feed p t) = p" by (simp add: feed_def)
  moreover have "reads p (s @ t)"
  proof (cases "parse_error p = []")
    case no: True
    then obtain h where h: "headers_parsed p" "find_str (crlf @ crlf) s = Some h" "framing (raw_fields s) (content_length p)"
      "body (parsed_request p) = take (content_length p) (drop (h + 4) s)" "h + 4 + content_length p \<le> length s" "complete p"
      using True assms by (auto simp: reads_def split: if_splits)
    have "body (parsed_request p) = take (content_length p) (drop (h + 4) (s @ t))" using h(4,5) by simp
    then show ?thesis using h find_str_append_hit [OF h(2), of t] raw_fields_append [OF h(2), of t] by (simp add: reads_def)
  qed (simp add: reads_def)
  ultimately show ?thesis by simp
next
  case False
  then have "reads (snd (parse_buffer (p\<lparr>buffer := buffer p @ t\<rparr>))) (s @ t)"
    using reads_parse_buffer [of "p\<lparr>buffer := buffer p @ t\<rparr>" p s t] assms by simp
  moreover have "reads (snd (fail p ''request exceeds configured size limit'')) (s @ t)" by (simp add: reads_def fail_def)
  ultimately show ?thesis using False by (simp add: feed_def Let_def)
qed

lemma reads_feed_all: "reads p s \<Longrightarrow> reads (snd (feed_all p cs)) (s @ concat cs)"
proof (induction p cs arbitrary: s rule: feed_all.induct)
  case (3 p c c' cs)
  then show ?case using "3.IH" [OF reads_feed [OF "3.prems", of c]] by simp
qed (use reads_feed [of _ _ "[]"] reads_feed in \<open>auto\<close>)

section \<open>Property\<close>

text \<open>C10. What is accepted is bounded and framed in one way only. After any feeds the parser buffers at
  most the two limits together. When it reports a complete request, take the bytes the client sent
  and split the header block in front of the first blank line into its fields: none of them is a
  \<open>Transfer-Encoding\<close>, every \<open>Content-Length\<close> (there may be several, in any case of letters) is the
  decimal number of one and the same length \<open>n\<close>, which is zero when there is none and at most the
  body limit, and the body of the request is exactly the \<open>n\<close> bytes behind the blank line.\<close>

theorem accepted_is_framed:
  assumes "mh + mb \<le> uint64_max" and "feed_all (new_parser mh mb) cs = (st, q)"
  shows "length (buffer q) \<le> mh + mb \<and>
    (st = Complete \<longrightarrow> (\<exists>h n. find_str (crlf @ crlf) (concat cs) = Some h \<and> n \<le> mb \<and> h + 4 + n \<le> length (concat cs) \<and>
       framing (raw_fields (concat cs)) n \<and> body (request q) = take n (drop (h + 4) (concat cs))))"
proof -
  have inv: "parser_inv q" "max_header_bytes q = mh" "max_body_bytes q = mb"
    using feed_all_inv [OF parser_inv_new, of mh mb cs] assms by (simp_all add: new_parser_def)
  have "\<exists>h n. find_str (crlf @ crlf) (concat cs) = Some h \<and> n \<le> mb \<and> h + 4 + n \<le> length (concat cs) \<and>
      framing (raw_fields (concat cs)) n \<and> body (request q) = take n (drop (h + 4) (concat cs))" if "st = Complete"
  proof -
    have c: "complete q" using feed_all_complete [of "new_parser mh mb" cs q] assms(2) that by simp
    then have "headers_parsed q" "parse_error q = []" "content_length q \<le> mb" using inv by (auto simp: parser_inv_def)
    moreover have "reads q (concat cs)" using reads_feed_all [OF reads_new, of mh mb cs] assms(2) by simp
    ultimately obtain h where "find_str (crlf @ crlf) (concat cs) = Some h" "framing (raw_fields (concat cs)) (content_length q)"
      "body (parsed_request q) = take (content_length q) (drop (h + 4) (concat cs))" "h + 4 + content_length q \<le> length (concat cs)"
      "content_length q \<le> mb"
      using c by (auto simp: reads_def)
    then show ?thesis unfolding request_def by blast
  qed
  then show ?thesis using inv by (simp add: parser_inv_def)
qed

theorem accepted_is_framed_witness:
  "\<exists>h n. framing (raw_fields (print_request example_request ''HTTP/1.1'' example_fields)) n \<and>
    take n (drop (h + 4) (print_request example_request ''HTTP/1.1'' example_fields)) = ''ok''"
proof -
  let ?r = "feed_all (new_parser 1000 10) [print_request example_request ''HTTP/1.1'' example_fields]"
  have "fst ?r = Complete \<and> request (snd ?r) = example_request"
    using feed_print [OF example_good, of 10 1000]
    by (simp add: print_request_def request_line_def header_line_def example_request_def example_fields_def uint64_max_def)
  then obtain q where q: "?r = (Complete, q)" "request q = example_request" by (metis prod.collapse)
  then have "body (request q) = ''ok''" by (simp add: example_request_def)
  moreover obtain h n where "framing (raw_fields (print_request example_request ''HTTP/1.1'' example_fields)) n"
      "body (request q) = take n (drop (h + 4) (print_request example_request ''HTTP/1.1'' example_fields))"
    using accepted_is_framed [OF _ q(1)] by (auto simp: uint64_max_def)
  ultimately show ?thesis by (intro exI [of _ h] exI [of _ n]) simp
qed

end
