(* ===== verification/Http_Response.thy ===== *)
theory Http_Response
  imports Http_Framing
begin

text \<open>
  \<open>src/src/http/http_response.cpp\<close> and \<open>http_response.h\<close>: a response and its
  serialisation. The header map is the list of its entries in the order in which
  \<open>unordered_map\<close> enumerates them; the theorems hold for every order.
\<close>

record http_response =
  status_code :: int
  reason :: string
  resp_headers :: "(string \<times> string) list"
  resp_body :: string

definition default_response :: http_response where
  "default_response = \<lparr>status_code = 200, reason = ''OK'', resp_headers = [], resp_body = []\<rparr>"

text \<open>\<open>std::to_string\<close> of an \<open>int\<close>.\<close>

definition to_string_int :: "int \<Rightarrow> string" where
  "to_string_int i = (if i < 0 then CHR ''-'' # to_string (nat (- i)) else to_string (nat i))"

fun serialize_headers :: "(string \<times> string) list \<Rightarrow> string \<times> bool \<Rightarrow> string \<times> bool" where
  "serialize_headers [] (serialized, has_length) = (serialized, has_length)"
| "serialize_headers ((name, value) # hs) (serialized, has_length) =
     serialize_headers hs (serialized @ name @ '': '' @ value @ crlf,
       has_length \<or> name = ''Content-Length'' \<or> name = ''content-length'')"

definition response_to_string :: "http_response \<Rightarrow> string" where
  "response_to_string r =
     (let serialized = ''HTTP/1.1 '' @ to_string_int (status_code r) @ '' '' @ reason r @ crlf;
          (serialized, has_length) = serialize_headers (resp_headers r) (serialized, False);
          serialized = (if \<not> has_length
            then serialized @ ''Content-Length: '' @ to_string (length (resp_body r)) @ crlf else serialized);
          serialized = serialized @ ''Connection: close'' @ crlf @ crlf
      in serialized @ resp_body r)"

section \<open>Framing\<close>

definition is_length_name :: "string \<Rightarrow> bool" where
  "is_length_name n \<longleftrightarrow> n = ''Content-Length'' \<or> n = ''content-length''"

lemma serialize_headers_eq:
  "serialize_headers hs (s, b) = (s @ unlines (map header_line hs), b \<or> list_ex (\<lambda>h. is_length_name (fst h)) hs)"
  by (induction hs "(s, b)" arbitrary: s b rule: serialize_headers.induct)
    (auto simp: header_line_def is_length_name_def)

text \<open>The header lines of the serialised response, in order.\<close>

definition response_fields :: "http_response \<Rightarrow> (string \<times> string) list" where
  "response_fields r = resp_headers r @
     (if list_ex (\<lambda>h. is_length_name (fst h)) (resp_headers r) then []
      else [(''Content-Length'', to_string (length (resp_body r)))]) @ [(''Connection'', ''close'')]"

definition status_line :: "http_response \<Rightarrow> string" where
  "status_line r = ''HTTP/1.1 '' @ to_string_int (status_code r) @ '' '' @ reason r"

lemma unlines_append [simp]: "unlines (xs @ ys) = unlines xs @ unlines ys"
  by (simp add: unlines_def)

lemma response_to_string_lines:
  "response_to_string r = unlines (status_line r # map header_line (response_fields r)) @ crlf @ resp_body r"
  by (simp add: response_to_string_def serialize_headers_eq response_fields_def status_line_def Let_def
      header_line_def)

lemma CR_notin_digits: "CR \<notin> set (to_string n)"
  using to_string_digits [of n] by (auto simp: list_all_iff is_digit_def CR_def)

lemma CR_notin_int: "CR \<notin> set (to_string_int i)"
  using CR_notin_digits by (auto simp: to_string_int_def CR_def)

definition good_response :: "http_response \<Rightarrow> bool" where
  "good_response r \<longleftrightarrow> CR \<notin> set (reason r) \<and> (\<forall>h \<in> set (resp_headers r). CR \<notin> set (fst h) \<and> CR \<notin> set (snd h))"

text \<open>C27. A client can tell where a response ends. For a response whose reason and headers hold no
  carriage return, the first blank line of the serialised text is the end of the header block, what
  follows is the body, the block is the status line and the header fields, \<open>Connection: close\<close> is
  the last of them, and unless the handler set a length itself there is exactly one
  \<open>Content-Length\<close>, which is the length of the body.\<close>

theorem response_framing:
  assumes "good_response r"
  shows "\<exists>h. find_str (crlf @ crlf) (response_to_string r) = Some h \<and>
    drop (h + 4) (response_to_string r) = resp_body r \<and>
    take (h + 2) (response_to_string r) = unlines (status_line r # map header_line (response_fields r)) \<and>
    last (response_fields r) = (''Connection'', ''close'') \<and>
    (\<not> list_ex (\<lambda>f. is_length_name (fst f)) (resp_headers r) \<longrightarrow>
       filter (\<lambda>f. is_length_name (fst f)) (response_fields r) = [(''Content-Length'', to_string (length (resp_body r)))])"
proof -
  let ?ls = "status_line r # map header_line (response_fields r)"
  have cr: "\<forall>l \<in> set ?ls. CR \<notin> set l \<and> l \<noteq> []"
    using assms CR_notin_int CR_notin_digits
    by (auto simp: good_response_def response_fields_def header_line_def status_line_def) (auto simp: CR_def)
  have "2 \<le> length (unlines ?ls)" by simp
  then obtain h where h: "h + 2 = length (unlines ?ls)" by (metis add.commute le_Suc_ex)
  have "find_str (crlf @ crlf) (response_to_string r) = Some h"
    using find_separator [OF _ cr, of "resp_body r"] h
    by (simp add: response_to_string_lines del: unlines_simps)
  moreover have "drop (h + 4) (response_to_string r) = drop (length (unlines ?ls) + 2) (response_to_string r)"
    using h by (intro arg_cong [where f = "\<lambda>k. drop k (response_to_string r)"]) simp
  then have "drop (h + 4) (response_to_string r) = resp_body r"
    by (simp add: response_to_string_lines del: unlines_simps)
  moreover have "take (h + 2) (response_to_string r) = unlines ?ls"
    unfolding h by (simp add: response_to_string_lines del: unlines_simps)
  moreover have "filter (\<lambda>f. is_length_name (fst f)) (response_fields r) =
      [(''Content-Length'', to_string (length (resp_body r)))]"
    if none: "\<not> list_ex (\<lambda>f. is_length_name (fst f)) (resp_headers r)"
  proof -
    have "filter (\<lambda>f. is_length_name (fst f)) (resp_headers r) = []"
      using none by (simp add: filter_empty_conv list_ex_iff)
    then show ?thesis using none by (simp add: response_fields_def is_length_name_def)
  qed
  ultimately show ?thesis by (auto simp: response_fields_def)
qed

theorem response_framing_witness:
  "\<exists>h. drop (h + 4) (response_to_string \<lparr>status_code = 404, reason = ''Not Found'', resp_headers = [],
     resp_body = ''Not Found''\<rparr>) = ''Not Found''"
  using response_framing [of "\<lparr>status_code = 404, reason = ''Not Found'', resp_headers = [], resp_body = ''Not Found''\<rparr>"]
  by (auto simp: good_response_def CR_def)

end
