(* ===== verification/Rate_Limiter.thy ===== *)
theory Rate_Limiter
  imports Complex_Main Prelude
begin

text \<open>
  \<open>src/src/security/rate_limiter.cpp\<close> and \<open>rate_limiter.h\<close>: a token bucket per client
  address. \<open>double\<close> is modelled by \<open>real\<close>: rounding is not modelled. A time point is the
  count of nanoseconds of the steady clock. \<open>check\<close> is modelled twice: as one function, and
  as a step relation in which threads interleave between its three critical sections (look up
  under the shared lock, look up again and insert under the unique lock, consume under the lock
  of the entry). The theorems bound what a client can get through and show that the interleaved calls
  have the results of the one function, applied in the order of the third sections.
\<close>

section \<open>The token bucket\<close>

record token_bucket =
  capacity :: real
  tokens :: real
  refill_rate :: real
  last_refill_time :: int

definition new_bucket :: "real \<Rightarrow> real \<Rightarrow> int \<Rightarrow> token_bucket" where
  "new_bucket cap rate now = \<lparr>capacity = cap, tokens = cap, refill_rate = rate, last_refill_time = now\<rparr>"

text \<open>\<open>duration<double>\<close> of a nanosecond difference.\<close>

definition seconds :: "int \<Rightarrow> real" where
  "seconds ns = of_int ns / 1000000000"

definition consume :: "int \<Rightarrow> token_bucket \<Rightarrow> bool \<times> token_bucket" where
  "consume now b =
     (let elapsed = seconds (now - last_refill_time b);
          b = b\<lparr>tokens := min (capacity b) (tokens b + elapsed * refill_rate b), last_refill_time := now\<rparr>
      in if tokens b < 1 then (False, b) else (True, b\<lparr>tokens := tokens b - 1\<rparr>))"

section \<open>The limiter as one function\<close>

record rate_limiter =
  rl_capacity :: real
  rl_refill_rate :: real
  buckets :: "string \<rightharpoonup> token_bucket"

definition new_limiter :: "real \<Rightarrow> real \<Rightarrow> rate_limiter" where
  "new_limiter cap rate = \<lparr>rl_capacity = cap, rl_refill_rate = rate, buckets = Map.empty\<rparr>"

text \<open>The clock is read when a bucket is created and again when it is used.\<close>

definition check :: "int \<Rightarrow> int \<Rightarrow> string \<Rightarrow> rate_limiter \<Rightarrow> bool \<times> rate_limiter" where
  "check created now ip l =
     (let entry = (case buckets l ip of Some b \<Rightarrow> b
                   | None \<Rightarrow> new_bucket (rl_capacity l) (rl_refill_rate l) created);
          (ok, b) = consume now entry
      in (ok, l\<lparr>buckets := (buckets l)(ip \<mapsto> b)\<rparr>))"

section \<open>Bounds on one bucket\<close>

definition bucket_inv :: "token_bucket \<Rightarrow> bool" where
  "bucket_inv b \<longleftrightarrow> 0 \<le> tokens b \<and> tokens b \<le> capacity b \<and> 0 \<le> refill_rate b"

fun consume_all :: "token_bucket \<Rightarrow> int list \<Rightarrow> bool list \<times> token_bucket" where
  "consume_all b [] = ([], b)"
| "consume_all b (t # ts) =
     (let (ok, b') = consume t b; (oks, b'') = consume_all b' ts in (ok # oks, b''))"

text \<open>Requests at non-decreasing times, none before \<open>t\<close>.\<close>

fun times_from :: "int \<Rightarrow> int list \<Rightarrow> bool" where
  "times_from t [] = True"
| "times_from t (x # xs) = (t \<le> x \<and> times_from x xs)"

definition admitted :: "bool list \<Rightarrow> nat" where
  "admitted oks = length (filter id oks)"

lemma seconds_nonneg: "s \<le> t \<Longrightarrow> 0 \<le> seconds (t - s)"
  by (simp add: seconds_def)

lemma seconds_add: "seconds (t - s) + seconds (s - r) = seconds (t - r)"
  by (simp add: seconds_def diff_divide_distrib)

lemma consume_fields [simp]:
  "capacity (snd (consume t b)) = capacity b" "refill_rate (snd (consume t b)) = refill_rate b"
  "last_refill_time (snd (consume t b)) = t"
  by (simp_all add: consume_def Let_def)

lemma consume_inv: "bucket_inv b \<Longrightarrow> last_refill_time b \<le> t \<Longrightarrow> bucket_inv (snd (consume t b))"
  using seconds_nonneg [of "last_refill_time b" t]
  by (auto simp: bucket_inv_def consume_def Let_def min_def)

text \<open>A permit is paid from the tokens or from what flowed in.\<close>

lemma consume_pays:
  assumes "consume t b = (ok, b')"
  shows "(if ok then 1 else 0) + tokens b' \<le> tokens b + refill_rate b * seconds (t - last_refill_time b)"
  using assms by (auto simp: consume_def Let_def min_def mult.commute split: if_splits)

lemma consume_all_pays:
  assumes "bucket_inv b" and "times_from (last_refill_time b) ts" and "consume_all b ts = (oks, b')"
  shows "real (admitted oks) + tokens b' \<le> tokens b + refill_rate b * seconds (last_refill_time b' - last_refill_time b) \<and>
    bucket_inv b' \<and> refill_rate b' = refill_rate b \<and> capacity b' = capacity b \<and> last_refill_time b' = last (last_refill_time b # ts)"
  using assms
proof (induction ts arbitrary: b oks)
  case (Cons t ts)
  obtain ok b1 where b1: "consume t b = (ok, b1)" by fastforce
  obtain oks1 where rest: "consume_all b1 ts = (oks1, b')" and oks: "oks = ok # oks1"
    using Cons.prems(3) b1 by (auto simp: Let_def split: prod.splits)
  have keep: "refill_rate b1 = refill_rate b" "capacity b1 = capacity b" "last_refill_time b1 = t" "bucket_inv b1"
    using consume_fields [of t b] consume_inv [of b t] b1 Cons.prems by simp_all
  note IH = Cons.IH [OF keep(4) _ rest] consume_pays [OF b1]
  have "real (admitted oks) = (if ok then 1 else 0) + real (admitted oks1)" by (simp add: oks admitted_def)
  moreover have "refill_rate b * seconds (t - last_refill_time b) + refill_rate b * seconds (last_refill_time b' - t) =
      refill_rate b * seconds (last_refill_time b' - last_refill_time b)"
    using seconds_add [of "last_refill_time b'" t "last_refill_time b"] by (simp flip: distrib_left add: add.commute)
  ultimately show ?case using IH Cons.prems(2) keep by auto
qed (simp add: admitted_def seconds_def)

lemma consume_granted:
  assumes "bucket_inv b" and "1 \<le> capacity b" and "1 \<le> refill_rate b * seconds (t - last_refill_time b)"
  shows "fst (consume t b)"
  using assms by (auto simp: consume_def Let_def bucket_inv_def min_def mult.commute)

section \<open>Interleaved calls\<close>

text \<open>Where a thread is in \<open>check\<close>: before the first lookup, before the locked lookup, before
  using the entry it got.\<close>

datatype check_pc = Idle | Finding string | Creating string | Consuming string nat

text \<open>\<open>entry_of\<close> is the member \<open>buckets\<close>, \<open>heap\<close> the shared entries it points to; \<open>clock\<close> is the
  steady clock. \<open>history\<close> records the finished calls, \<open>created_at\<close> the creation times: both are
  for the statements only.\<close>

record limiter_run =
  run_capacity :: real
  run_rate :: real
  clock :: int
  entry_of :: "string \<rightharpoonup> nat"
  heap :: "nat \<rightharpoonup> token_bucket"
  next_entry :: nat
  pcs :: "nat \<Rightarrow> check_pc"
  history :: "(string \<times> int \<times> bool) list"
  created_at :: "nat \<Rightarrow> int"

definition run_start :: "real \<Rightarrow> real \<Rightarrow> int \<Rightarrow> limiter_run" where
  "run_start cap rate t = \<lparr>run_capacity = cap, run_rate = rate, clock = t, entry_of = Map.empty,
     heap = Map.empty, next_entry = 0, pcs = (\<lambda>_. Idle), history = [], created_at = (\<lambda>_. t)\<rparr>"

inductive check_step :: "limiter_run \<Rightarrow> limiter_run \<Rightarrow> bool" where
  tick: "clock s \<le> t \<Longrightarrow> check_step s (s\<lparr>clock := t\<rparr>)"
| call: "pcs s i = Idle \<Longrightarrow> check_step s (s\<lparr>pcs := (pcs s)(i := Finding ip)\<rparr>)"
| find_hit: "pcs s i = Finding ip \<Longrightarrow> entry_of s ip = Some e \<Longrightarrow>
    check_step s (s\<lparr>pcs := (pcs s)(i := Consuming ip e)\<rparr>)"
| find_miss: "pcs s i = Finding ip \<Longrightarrow> entry_of s ip = None \<Longrightarrow>
    check_step s (s\<lparr>pcs := (pcs s)(i := Creating ip)\<rparr>)"
| create_hit: "pcs s i = Creating ip \<Longrightarrow> entry_of s ip = Some e \<Longrightarrow>
    check_step s (s\<lparr>pcs := (pcs s)(i := Consuming ip e)\<rparr>)"
| create_new: "pcs s i = Creating ip \<Longrightarrow> entry_of s ip = None \<Longrightarrow> e = next_entry s \<Longrightarrow>
    check_step s (s\<lparr>entry_of := (entry_of s)(ip \<mapsto> e),
      heap := (heap s)(e \<mapsto> new_bucket (run_capacity s) (run_rate s) (clock s)), next_entry := e + 1,
      created_at := (created_at s)(e := clock s), pcs := (pcs s)(i := Consuming ip e)\<rparr>)"
| finish: "pcs s i = Consuming ip e \<Longrightarrow> heap s e = Some b \<Longrightarrow> consume (clock s) b = (ok, b') \<Longrightarrow>
    check_step s (s\<lparr>heap := (heap s)(e \<mapsto> b'), pcs := (pcs s)(i := Idle),
      history := history s @ [(ip, clock s, ok)]\<rparr>)"

inductive_cases check_stepE: "check_step s s'"

definition events :: "string \<Rightarrow> (string \<times> int \<times> bool) list \<Rightarrow> (int \<times> bool) list" where
  "events ip h = map snd (filter (\<lambda>ev. fst ev = ip) h)"

lemma events_simps [simp]: "events ip [] = []"
  "events ip (h @ [(ip', t, ok)]) = events ip h @ (if ip' = ip then [(t, ok)] else [])"
  by (simp_all add: events_def)

text \<open>The bucket of an address is what a sequential run of its calls would leave.\<close>

definition bucket_seq :: "limiter_run \<Rightarrow> string \<Rightarrow> nat \<Rightarrow> bool" where
  "bucket_seq s ip e \<longleftrightarrow> (\<exists>b. heap s e = Some b \<and>
     consume_all (new_bucket (run_capacity s) (run_rate s) (created_at s e)) (map fst (events ip (history s))) =
       (map snd (events ip (history s)), b) \<and>
     times_from (created_at s e) (map fst (events ip (history s))) \<and> last_refill_time b \<le> clock s)"

definition limiter_inv :: "limiter_run \<Rightarrow> bool" where
  "limiter_inv s \<longleftrightarrow>
     (\<forall>ip e. entry_of s ip = Some e \<longrightarrow> e < next_entry s \<and> bucket_seq s ip e) \<and>
     (\<forall>ip ip' e. entry_of s ip = Some e \<longrightarrow> entry_of s ip' = Some e \<longrightarrow> ip = ip') \<and>
     (\<forall>ip. entry_of s ip = None \<longrightarrow> events ip (history s) = []) \<and>
     (\<forall>i ip e. pcs s i = Consuming ip e \<longrightarrow> entry_of s ip = Some e)"

lemma consume_all_append:
  "consume_all b (ts @ us) =
     (let (oks, b1) = consume_all b ts; (oks', b2) = consume_all b1 us in (oks @ oks', b2))"
  by (induction ts arbitrary: b) (simp_all add: Let_def split: prod.split)

lemma consume_all_snoc:
  "consume_all b ts = (oks, b1) \<Longrightarrow> consume t b1 = (ok, b2) \<Longrightarrow> consume_all b (ts @ [t]) = (oks @ [ok], b2)"
  by (simp add: consume_all_append Let_def)

lemma consume_all_last:
  "consume_all b ts = (oks, b') \<Longrightarrow> last_refill_time b' = last (last_refill_time b # ts)"
proof (induction ts arbitrary: b oks)
  case (Cons t ts)
  obtain ok b1 where b1: "consume t b = (ok, b1)" by fastforce
  obtain oks1 where "consume_all b1 ts = (oks1, b')"
    using Cons.prems b1 by (auto simp: Let_def split: prod.splits)
  then have "last_refill_time b' = last (last_refill_time b1 # ts)" by (rule Cons.IH)
  then show ?case using consume_fields(3) [of t b] b1 by (cases ts) simp_all
qed simp

lemma times_from_snoc: "times_from t ts \<Longrightarrow> last (t # ts) \<le> u \<Longrightarrow> times_from t (ts @ [u])"
  by (induction ts arbitrary: t) auto

lemma bucket_seq_frame:
  "bucket_seq s ip e \<Longrightarrow> heap s' e = heap s e \<Longrightarrow> created_at s' e = created_at s e \<Longrightarrow>
     events ip (history s') = events ip (history s) \<Longrightarrow> run_capacity s' = run_capacity s \<Longrightarrow> run_rate s' = run_rate s \<Longrightarrow>
     clock s \<le> clock s' \<Longrightarrow> bucket_seq s' ip e"
  by (fastforce simp: bucket_seq_def)

lemma bucket_seq_finish:
  assumes "bucket_seq s ip e" and "heap s e = Some b" and "consume (clock s) b = (ok, b')"
  shows "bucket_seq (s\<lparr>heap := (heap s)(e \<mapsto> b'), pcs := p, history := history s @ [(ip, clock s, ok)]\<rparr>) ip e"
proof -
  let ?b0 = "new_bucket (run_capacity s) (run_rate s) (created_at s e)" and ?ev = "events ip (history s)"
  have run: "consume_all ?b0 (map fst ?ev) = (map snd ?ev, b)" and times: "times_from (created_at s e) (map fst ?ev)"
    and le: "last_refill_time b \<le> clock s"
    using assms(1,2) by (auto simp: bucket_seq_def)
  have "last (created_at s e # map fst ?ev) \<le> clock s"
    using consume_all_last [OF run] le by (simp add: new_bucket_def)
  then have "times_from (created_at s e) (map fst ?ev @ [clock s])" using times by (rule times_from_snoc [rotated])
  moreover have "last_refill_time b' = clock s" using consume_fields(3) [of "clock s" b] assms(3) by simp
  ultimately show ?thesis using consume_all_snoc [OF run assms(3)] by (simp add: bucket_seq_def)
qed

lemma limiter_inv_start: "limiter_inv (run_start cap rate t)"
  by (simp add: limiter_inv_def run_start_def)

lemma limiter_inv_step:
  assumes "check_step s s'" and inv: "limiter_inv s"
  shows "limiter_inv s'"
  using assms(1)
proof cases
  case (tick t)
  have "bucket_seq s' ip e" if "bucket_seq s ip e" for ip e
    using that tick by (intro bucket_seq_frame [of s ip e s']) simp_all
  then show ?thesis using inv tick by (simp add: limiter_inv_def)
next
  case (create_new i ip e)
  have old: "e' \<noteq> e" if "entry_of s ip' = Some e'" for ip' e'
    using inv that create_new by (auto simp: limiter_inv_def)
  have keep: "bucket_seq s' ip' e'" if "entry_of s ip' = Some e'" for ip' e'
    using that inv old [OF that] create_new
    by (intro bucket_seq_frame [of s ip' e' s']) (auto simp: limiter_inv_def)
  have "bucket_seq s' ip e" using inv create_new by (simp add: limiter_inv_def bucket_seq_def new_bucket_def)
  then show ?thesis using inv create_new keep old by (auto simp: limiter_inv_def less_Suc_eq)
next
  case (finish i ip e b ok b')
  have e: "entry_of s ip = Some e" using inv finish by (auto simp: limiter_inv_def)
  then have "bucket_seq s' ip e" using inv finish bucket_seq_finish [of s ip e b ok b'] by (simp add: limiter_inv_def)
  moreover have "bucket_seq s' ip' e'" if "entry_of s ip' = Some e'" "ip' \<noteq> ip" for ip' e'
  proof -
    have "e' \<noteq> e" using inv e that by (auto simp: limiter_inv_def)
    then show ?thesis using that inv finish
      by (intro bucket_seq_frame [of s ip' e' s']) (auto simp: limiter_inv_def)
  qed
  ultimately have "bucket_seq s' ip' e'" if "entry_of s ip' = Some e'" for ip' e' using that e by (cases "ip' = ip") auto
  then show ?thesis using inv finish e by (auto simp: limiter_inv_def)
qed (use inv in \<open>auto simp: limiter_inv_def bucket_seq_def\<close>)

lemma check_step_clock: "check_step s s' \<Longrightarrow> clock s \<le> clock s' \<and> run_capacity s' = run_capacity s \<and> run_rate s' = run_rate s"
  by (auto elim: check_stepE)

definition created_after :: "int \<Rightarrow> limiter_run \<Rightarrow> bool" where
  "created_after t s \<longleftrightarrow> t \<le> clock s \<and> (\<forall>e. t \<le> created_at s e)"

interpretation limiter: transition_system "\<lambda>s. s = run_start cap rate t" check_step
  "\<lambda>s. limiter_inv s \<and> created_after t s \<and> run_capacity s = cap \<and> run_rate s = rate"
  for cap rate t
proof unfold_locales
  fix s s'
  show "limiter_inv s \<and> created_after t s \<and> run_capacity s = cap \<and> run_rate s = rate" if "s = run_start cap rate t"
    using that limiter_inv_start by (simp add: run_start_def created_after_def)
  assume inv: "limiter_inv s \<and> created_after t s \<and> run_capacity s = cap \<and> run_rate s = rate" and step: "check_step s s'"
  then have "created_after t s'" by (auto simp: created_after_def elim!: check_stepE intro: order_trans)
  with inv step show "limiter_inv s' \<and> created_after t s' \<and> run_capacity s' = cap \<and> run_rate s' = rate"
    using limiter_inv_step check_step_clock by auto
qed

lemmas check_run = limiter.inv_reachable [OF refl]

text \<open>The limiter that a state of the run represents.\<close>

definition run_abs :: "limiter_run \<Rightarrow> rate_limiter" where
  "run_abs s = \<lparr>rl_capacity = run_capacity s, rl_refill_rate = run_rate s,
     buckets = (\<lambda>ip. case entry_of s ip of None \<Rightarrow> None | Some e \<Rightarrow> heap s e)\<rparr>"

lemma run_abs_fields [simp]: "rl_capacity (run_abs s) = run_capacity s" "rl_refill_rate (run_abs s) = run_rate s"
  by (simp_all add: run_abs_def)

text \<open>A sequence of calls of the one-function \<open>check\<close>, each with the time at which it would create a bucket.\<close>

fun check_all :: "(int \<times> string \<times> int) list \<Rightarrow> rate_limiter \<Rightarrow> bool list \<times> rate_limiter" where
  "check_all [] l = ([], l)"
| "check_all ((created, ip, now) # cs) l =
     (let (ok, l1) = check created now ip l; (oks, l2) = check_all cs l1 in (ok # oks, l2))"

lemma check_all_snoc:
  "check_all cs l = (oks, l1) \<Longrightarrow> check created now ip l1 = (ok, l2) \<Longrightarrow> check_all (cs @ [(created, ip, now)]) l = (oks @ [ok], l2)"
proof (induction cs arbitrary: l oks)
  case (Cons c cs)
  obtain cr ip' n where c: "c = (cr, ip', n)" by (cases c)
  obtain ok' l' where l': "check cr n ip' l = (ok', l')" by fastforce
  obtain oks' where "check_all cs l' = (oks', l1)" "oks = ok' # oks'"
    using Cons.prems(1) l' by (auto simp: c Let_def split: prod.splits)
  then show ?case using Cons.IH Cons.prems(2) l' by (simp add: c Let_def)
qed simp

text \<open>The calls of the history, in its order; \<open>f\<close> gives the creation time of the bucket of an address.\<close>

definition calls_of :: "(string \<Rightarrow> int) \<Rightarrow> (string \<times> int \<times> bool) list \<Rightarrow> (int \<times> string \<times> int) list" where
  "calls_of f h = map (\<lambda>(ip, now, ok). (f ip, ip, now)) h"

text \<open>When the calls of each address alone have the results of its own bucket, all calls in sequence
  have the results of the limiter.\<close>

lemma check_all_by_address:
  assumes "\<And>ip. consume_all (new_bucket cap rate (f ip)) (map fst (events ip h)) = (map snd (events ip h), b ip)"
  shows "check_all (calls_of f h) (new_limiter cap rate) =
    (map (snd \<circ> snd) h, \<lparr>rl_capacity = cap, rl_refill_rate = rate,
       buckets = (\<lambda>ip. if events ip h = [] then None else Some (b ip))\<rparr>)"
  using assms
proof (induction h arbitrary: b rule: rev_induct)
  case Nil
  then show ?case by (simp add: calls_of_def new_limiter_def)
next
  case (snoc ev h)
  obtain ip now ok where ev: "ev = (ip, now, ok)" by (cases ev)
  define b1 where "b1 = (\<lambda>x. snd (consume_all (new_bucket cap rate (f x)) (map fst (events x h))))"
  have split: "consume_all (new_bucket cap rate (f x)) (map fst (events x h)) = (map snd (events x h), b1 x) \<and>
      (if x = ip then consume now (b1 x) = (ok, b x) else b x = b1 x)" for x
    using snoc.prems [of x] by (auto simp: ev b1_def consume_all_append Let_def split: prod.splits if_splits)
  have IH: "check_all (calls_of f h) (new_limiter cap rate) = (map (snd \<circ> snd) h, \<lparr>rl_capacity = cap, rl_refill_rate = rate,
      buckets = (\<lambda>x. if events x h = [] then None else Some (b1 x))\<rparr>)"
    using split by (intro snoc.IH) blast
  have new: "(case if events ip h = [] then None else Some (b1 ip) of Some b \<Rightarrow> b | None \<Rightarrow> new_bucket cap rate (f ip)) = b1 ip"
    by (simp add: b1_def)
  have use: "consume now (b1 ip) = (ok, b ip)" and other: "x \<noteq> ip \<Longrightarrow> b x = b1 x" for x using split [of ip] split [of x] by auto
  have "check (f ip) now ip \<lparr>rl_capacity = cap, rl_refill_rate = rate, buckets = (\<lambda>x. if events x h = [] then None else Some (b1 x))\<rparr> =
      (ok, \<lparr>rl_capacity = cap, rl_refill_rate = rate, buckets = (\<lambda>x. if events x (h @ [ev]) = [] then None else Some (b x))\<rparr>)"
    unfolding check_def by (simp only: rate_limiter.simps Let_def new use prod.case) (auto simp: ev other fun_eq_iff)
  then show ?case using check_all_snoc [OF IH] by (simp add: calls_of_def ev)
qed

text \<open>Two threads that race for a new address with one token: both miss in the first section, one creates
  the bucket, the other finds it in the second section and is refused.\<close>

lemma race_run:
  "\<exists>s. check_step\<^sup>*\<^sup>* (run_start 1 0 7) s \<and> history s = [(''ip'', 7, True), (''ip'', 9, False)] \<and> clock s = 9"
proof -
  define s1 where "s1 = (run_start 1 0 7)\<lparr>pcs := (\<lambda>_. Idle)(0 := Finding ''ip'')\<rparr>"
  define s2 where "s2 = s1\<lparr>pcs := (pcs s1)(1 := Finding ''ip'')\<rparr>"
  define s3 where "s3 = s2\<lparr>pcs := (pcs s2)(0 := Creating ''ip'')\<rparr>"
  define s4 where "s4 = s3\<lparr>pcs := (pcs s3)(1 := Creating ''ip'')\<rparr>"
  define s5 where "s5 = s4\<lparr>entry_of := (entry_of s4)(''ip'' \<mapsto> 0), heap := (heap s4)(0 \<mapsto> new_bucket (run_capacity s4) (run_rate s4) (clock s4)),
      next_entry := 0 + 1, created_at := (created_at s4)(0 := clock s4), pcs := (pcs s4)(0 := Consuming ''ip'' 0)\<rparr>"
  define s6 where "s6 = s5\<lparr>pcs := (pcs s5)(1 := Consuming ''ip'' 0)\<rparr>"
  define b where "b = \<lparr>capacity = 1, tokens = 0, refill_rate = 0, last_refill_time = 7\<rparr>"
  define s7 where "s7 = s6\<lparr>heap := (heap s6)(0 \<mapsto> b), pcs := (pcs s6)(0 := Idle), history := history s6 @ [(''ip'', clock s6, True)]\<rparr>"
  define s8 where "s8 = s7\<lparr>clock := 9\<rparr>"
  define s9 where "s9 = s8\<lparr>heap := (heap s8)(0 \<mapsto> b\<lparr>last_refill_time := 9\<rparr>), pcs := (pcs s8)(1 := Idle),
      history := history s8 @ [(''ip'', clock s8, False)]\<rparr>"
  note defs = s1_def s2_def s3_def s4_def s5_def s6_def s7_def s8_def b_def run_start_def new_bucket_def
  have "check_step (run_start 1 0 7) s1" using check_step.call [of "run_start 1 0 7" 0 "''ip''"] by (simp add: defs)
  moreover have "check_step s1 s2" unfolding s2_def by (rule check_step.call) (simp add: defs)
  moreover have "check_step s2 s3" unfolding s3_def by (rule check_step.find_miss) (simp_all add: defs)
  moreover have "check_step s3 s4" unfolding s4_def by (rule check_step.find_miss) (simp_all add: defs)
  moreover have "check_step s4 s5" unfolding s5_def by (rule check_step.create_new) (simp_all add: defs)
  moreover have "check_step s5 s6" unfolding s6_def by (rule check_step.create_hit) (simp_all add: defs)
  moreover have "check_step s6 s7" unfolding s7_def
    by (rule check_step.finish [where b = "new_bucket 1 0 7"]) (simp_all add: defs consume_def seconds_def)
  moreover have "check_step s7 s8" unfolding s8_def by (rule check_step.tick) (simp add: defs)
  moreover have "check_step s8 s9" unfolding s9_def
    by (rule check_step.finish [where b = b]) (simp_all add: defs consume_def seconds_def)
  ultimately have "check_step\<^sup>*\<^sup>* (run_start 1 0 7) s9" by (meson r_into_rtranclp rtranclp_trans)
  moreover have "history s9 = [(''ip'', 7, True), (''ip'', 9, False)]" "clock s9 = 9" by (simp_all add: s9_def defs)
  ultimately show ?thesis by blast
qed

section \<open>Properties\<close>

text \<open>C12. The rate limit holds under concurrency. In every interleaving of any number of threads
  that call \<open>check\<close>, the calls of one address that returned \<open>true\<close> since the start are at most
  the capacity plus the refill rate times the elapsed seconds.\<close>

theorem rate_bound:
  assumes run: "check_step\<^sup>*\<^sup>* (run_start cap rate t) s" and pos: "0 \<le> cap" "0 \<le> rate"
  shows "real (admitted (map snd (events ip (history s)))) \<le> cap + rate * seconds (clock s - t)"
proof (cases "entry_of s ip")
  case None
  then have "events ip (history s) = []" using check_run [OF run] by (simp add: limiter_inv_def)
  then show ?thesis
    using pos seconds_nonneg [of t "clock s"] check_run [OF run] by (simp add: admitted_def created_after_def)
next
  case (Some e)
  note R = check_run [OF run]
  let ?b0 = "new_bucket cap rate (created_at s e)"
  have "bucket_seq s ip e" using R Some by (simp add: limiter_inv_def)
  with R obtain b where b: "consume_all ?b0 (map fst (events ip (history s))) = (map snd (events ip (history s)), b)"
    "times_from (created_at s e) (map fst (events ip (history s)))" "last_refill_time b \<le> clock s"
    by (auto simp: bucket_seq_def)
  have inv0: "bucket_inv ?b0" using pos by (simp add: bucket_inv_def new_bucket_def)
  note pays = consume_all_pays [OF inv0 _ b(1)]
  have "real (admitted (map snd (events ip (history s)))) \<le> cap + rate * seconds (last_refill_time b - created_at s e)"
  proof -
    have "real (admitted (map snd (events ip (history s)))) + tokens b \<le>
        cap + rate * seconds (last_refill_time b - created_at s e)" "bucket_inv b"
      using pays b(2) unfolding new_bucket_def token_bucket.simps by blast+
    then show ?thesis by (simp add: bucket_inv_def)
  qed
  also have "\<dots> \<le> cap + rate * seconds (clock s - t)"
  proof (intro add_left_mono mult_left_mono)
    have "last_refill_time b - created_at s e \<le> clock s - t" using R b(3) by (simp add: created_after_def diff_mono)
    then show "seconds (last_refill_time b - created_at s e) \<le> seconds (clock s - t)"
      unfolding seconds_def by (intro divide_right_mono) linarith+
  qed (rule pos)
  finally show ?thesis .
qed

theorem rate_bound_witness:
  "\<exists>s :: limiter_run. history s = [(''ip'', 7, True), (''ip'', 9, False)] \<and> real (admitted (map snd (events ''ip'' (history s)))) \<le> 1"
proof -
  obtain s where s: "check_step\<^sup>*\<^sup>* (run_start 1 0 7) s" "history s = [(''ip'', 7, True), (''ip'', 9, False)]" using race_run by blast
  then show ?thesis using rate_bound [OF s(1), of "''ip''"] by auto
qed

text \<open>C28. The three critical sections of \<open>check\<close> are linearisable. Take any interleaving of any number of
  threads, and the finished calls in the order in which they took the lock of their entry. Calling the
  one-function \<open>check\<close> in that order, at the same times, on a new limiter gives every call the
  result that it had in the interleaving, and the same bucket for every address that has finished a
  call; each bucket is created once, between the start and its first use.\<close>

theorem check_linearizable:
  assumes run: "check_step\<^sup>*\<^sup>* (run_start cap rate t) s"
  shows "\<exists>f l. check_all (calls_of f (history s)) (new_limiter cap rate) = (map (snd \<circ> snd) (history s), l) \<and>
    (\<forall>ip \<in> fst ` set (history s). buckets l ip = buckets (run_abs s) ip) \<and>
    (\<forall>(ip, now, ok) \<in> set (history s). t \<le> f ip \<and> f ip \<le> now)"
proof -
  note R = check_run [OF run]
  define f where "f ip = (case entry_of s ip of None \<Rightarrow> t | Some e \<Rightarrow> created_at s e)" for ip
  define b where "b ip = snd (consume_all (new_bucket cap rate (f ip)) (map fst (events ip (history s))))" for ip
  have seq: "consume_all (new_bucket cap rate (f ip)) (map fst (events ip (history s))) = (map snd (events ip (history s)), b ip) \<and>
      times_from (f ip) (map fst (events ip (history s))) \<and> (events ip (history s) \<noteq> [] \<longrightarrow> buckets (run_abs s) ip = Some (b ip))" for ip
  proof (cases "entry_of s ip")
    case None
    then have "events ip (history s) = []" using R by (simp add: limiter_inv_def)
    then show ?thesis by (simp add: b_def)
  next
    case (Some e)
    then have "bucket_seq s ip e" using R by (simp add: limiter_inv_def)
    then show ?thesis using R Some by (auto simp: bucket_seq_def b_def f_def run_abs_def)
  qed
  have "events ip (history s) \<noteq> []" if "ip \<in> fst ` set (history s)" for ip
    using that by (auto simp: events_def filter_empty_conv)
  moreover have "t \<le> f ip \<and> f ip \<le> now" if "(ip, now, ok) \<in> set (history s)" for ip now ok
  proof -
    have "now \<in> set (map fst (events ip (history s)))" using that by (force simp: events_def)
    moreover have "times_from u ts \<Longrightarrow> x \<in> set ts \<Longrightarrow> u \<le> x" for u ts and x :: int
      by (induction ts arbitrary: u) force+
    ultimately have "f ip \<le> now" using seq by blast
    then show ?thesis using R by (auto simp: f_def created_after_def split: option.split)
  qed
  ultimately show ?thesis
    using check_all_by_address [of cap rate f "history s" b] seq
    by (intro exI [of _ f] exI [of _ "\<lparr>rl_capacity = cap, rl_refill_rate = rate,
       buckets = (\<lambda>ip. if events ip (history s) = [] then None else Some (b ip))\<rparr>"]) auto
qed

theorem check_linearizable_witness:
  "\<exists>(s :: limiter_run) f l. history s = [(''ip'', 7, True), (''ip'', 9, False)] \<and>
    check_all [(f, ''ip'', 7), (f, ''ip'', 9)] (new_limiter 1 0) = ([True, False], l)"
proof -
  obtain s where s: "check_step\<^sup>*\<^sup>* (run_start 1 0 7) s" "history s = [(''ip'', 7, True), (''ip'', 9, False)]" using race_run by blast
  obtain f l where "check_all (calls_of f (history s)) (new_limiter 1 0) = (map (snd \<circ> snd) (history s), l)"
    using check_linearizable [OF s(1)] by blast
  then have "check_all [(f ''ip'', ''ip'', 7), (f ''ip'', ''ip'', 9)] (new_limiter 1 0) = ([True, False], l)"
    by (simp only: s(2) calls_of_def list.map prod.case comp_apply snd_conv)
  then show ?thesis using s(2) by blast
qed

text \<open>C29. A patient client is served. With a capacity of at least one, a call of \<open>check\<close> returns
  \<open>true\<close> when the address is new or when enough time for one token has passed since its last
  call; the buckets of other addresses do not change.\<close>

theorem patient_client_served:
  assumes "\<forall>b \<in> ran (buckets l). bucket_inv b \<and> 1 \<le> capacity b" and "1 \<le> rl_capacity l" "0 \<le> rl_refill_rate l"
    and "created \<le> now"
    and "\<forall>b. buckets l ip = Some b \<longrightarrow> 1 \<le> refill_rate b * seconds (now - last_refill_time b)"
  shows "fst (check created now ip l) \<and>
    (\<forall>other. other \<noteq> ip \<longrightarrow> buckets (snd (check created now ip l)) other = buckets l other)"
proof (cases "buckets l ip")
  case None
  have "fst (consume now (new_bucket (rl_capacity l) (rl_refill_rate l) created))"
    using assms seconds_nonneg [of created now] by (auto simp: consume_def Let_def new_bucket_def min_def)
  then show ?thesis using None by (auto simp: check_def Let_def split: prod.splits)
next
  case (Some b)
  then have "fst (consume now b)" using assms by (intro consume_granted) (auto intro: ranI)
  then show ?thesis using Some by (auto simp: check_def Let_def split: prod.splits)
qed

theorem patient_client_served_witness: "fst (check 3 3 ''ip'' (new_limiter 1 0))"
  using patient_client_served [of "new_limiter 1 0" 3 3 "''ip''"] by (simp add: new_limiter_def)

end
