(* ===== verification/Router.thy ===== *)
theory Router
  imports Http_Response Rate_Limiter
begin

unbundle bit_operations_syntax

text \<open>
  \<open>src/src/http/router.cpp\<close> and \<open>router.h\<close>: routes by method and path, behind the rate
  limiter. A handler is a program over the state \<open>'s\<close> of whatever it captured. The map
  \<open>unordered_map<RouteKey, Handler, RouteKeyHash>\<close> is a map on pairs: \<open>RouteKey::operator==\<close>
  compares both components, so the hash decides the buckets only. \<open>hash<string>\<close> is a parameter
  of \<open>route_key_hash\<close>.
\<close>

type_synonym route_key = "string \<times> string"
type_synonym 's handler = "http_request \<Rightarrow> ('s, http_response) prog"

record 's router =
  routes :: "route_key \<rightharpoonup> 's handler"
  limiter :: rate_limiter

definition new_router :: "real \<Rightarrow> real \<Rightarrow> 's router" where
  "new_router rate_limit_capacity rate_limit_refill_rate =
     \<lparr>routes = Map.empty, limiter = new_limiter rate_limit_capacity rate_limit_refill_rate\<rparr>"

definition add_route :: "string \<Rightarrow> string \<Rightarrow> 's handler \<Rightarrow> 's router \<Rightarrow> 's router" where
  "add_route meth pth handler r = r\<lparr>routes := (routes r)((meth, pth) \<mapsto> handler)\<rparr>"

definition plain_response :: "int \<Rightarrow> string \<Rightarrow> string \<Rightarrow> http_response" where
  "plain_response code why text = \<lparr>status_code = code, reason = why, resp_headers = [], resp_body = text\<rparr>"

text \<open>\<open>created\<close> and \<open>now\<close> are the clock readings of the limiter. The router is updated even
  when the handler throws.\<close>

definition route :: "int \<Rightarrow> int \<Rightarrow> http_request \<Rightarrow> string \<Rightarrow> 's router \<Rightarrow> 's \<Rightarrow>
    (exn + http_response) \<times> 's router \<times> 's" where
  "route created now req client_ip r s =
     (let (ok, l) = check created now client_ip (limiter r); r = r\<lparr>limiter := l\<rparr> in
      if \<not> ok then (Inr (plain_response 429 ''Too Many Requests'' ''Too Many Requests''), r, s)
      else case routes r (req_method req, path req) of
          None \<Rightarrow> (Inr (plain_response 404 ''Not Found'' ''Not Found''), r, s)
        | Some handler \<Rightarrow> (let (res, s') = handler req s in (res, r, s')))"

definition route_key_hash :: "(string \<Rightarrow> u64) \<Rightarrow> route_key \<Rightarrow> u64" where
  "route_key_hash hash key =
     (let method_hash = hash (fst key); path_hash = hash (snd key) in
      method_hash XOR (path_hash + 0x9e3779b9 + push_bit 6 method_hash + drop_bit 2 method_hash))"

end
