(* ===== verification/Metrics.thy ===== *)
theory Metrics
  imports Prelude
begin

text \<open>
  \<open>src/src/monitoring/metrics.cpp\<close> and \<open>metrics.h\<close>: the counters behind \<open>/metrics\<close>.
  Every counter is a 64-bit unsigned integer that wraps; each atomic operation is one update.
  \<open>double\<close> is \<open>real\<close>; the text of a \<open>double\<close> in the stream (\<open>setprecision(9)\<close>) is a
  parameter. The theorems relate the counters to the events that were reported.
\<close>

section \<open>State\<close>

record epoll_worker_metrics =
  w_accepted_connections :: nat
  w_requests :: nat
  w_completed_requests :: nat
  w_completion_queue_depth :: nat
  w_completion_queue_high_water :: nat

record metrics =
  process_start :: int
  accepted_connections :: nat
  open_connections :: nat
  requests :: nat
  blocked_requests :: nat
  parse_errors :: nat
  response_status_classes :: "nat list"
  epoll_workers :: "epoll_worker_metrics list"
  epoll_worker_count :: nat
  duration_bucket_counts :: "nat list"
  duration_observations :: nat
  duration_sum :: real

definition duration_buckets :: "real list" where
  "duration_buckets = [0.005, 0.01, 0.025, 0.05, 0.1, 0.25, 0.5, 1.0, 2.5, 5.0, 10.0]"

definition new_worker_metrics :: epoll_worker_metrics where
  "new_worker_metrics = \<lparr>w_accepted_connections = 0, w_requests = 0, w_completed_requests = 0,
     w_completion_queue_depth = 0, w_completion_queue_high_water = 0\<rparr>"

definition new_metrics :: "int \<Rightarrow> metrics" where
  "new_metrics now = \<lparr>process_start = now, accepted_connections = 0, open_connections = 0, requests = 0,
     blocked_requests = 0, parse_errors = 0, response_status_classes = replicate 5 0,
     epoll_workers = replicate 256 new_worker_metrics, epoll_worker_count = 0,
     duration_bucket_counts = replicate (length duration_buckets) 0, duration_observations = 0, duration_sum = 0\<rparr>"

section \<open>Operations\<close>

definition update_worker :: "nat \<Rightarrow> (epoll_worker_metrics \<Rightarrow> epoll_worker_metrics) \<Rightarrow> metrics \<Rightarrow> metrics" where
  "update_worker worker_id f m =
     (if worker_id < length (epoll_workers m)
      then m\<lparr>epoll_workers := (epoll_workers m)[worker_id := f (epoll_workers m ! worker_id)]\<rparr> else m)"

definition set_epoll_worker_count :: "nat \<Rightarrow> metrics \<Rightarrow> metrics" where
  "set_epoll_worker_count count m = m\<lparr>epoll_worker_count := min count (length (epoll_workers m))\<rparr>"

definition connection_opened :: "nat \<Rightarrow> metrics \<Rightarrow> metrics" where
  "connection_opened worker_id m =
     (let m = m\<lparr>accepted_connections := add64 (accepted_connections m) 1,
                open_connections := add64 (open_connections m) 1\<rparr> in
      update_worker worker_id (\<lambda>w. w\<lparr>w_accepted_connections := add64 (w_accepted_connections w) 1\<rparr>) m)"

definition connection_closed :: "metrics \<Rightarrow> metrics" where
  "connection_closed m = m\<lparr>open_connections := sub64 (open_connections m) 1\<rparr>"

definition request_started :: "nat \<Rightarrow> metrics \<Rightarrow> metrics" where
  "request_started worker_id m =
     update_worker worker_id (\<lambda>w. w\<lparr>w_requests := add64 (w_requests w) 1\<rparr>)
       (m\<lparr>requests := add64 (requests m) 1\<rparr>)"

fun count_buckets :: "real \<Rightarrow> real list \<Rightarrow> nat list \<Rightarrow> nat list" where
  "count_buckets secs (b # bs) (c # cs) = (if secs \<le> b then add64 c 1 else c) # count_buckets secs bs cs"
| "count_buckets secs bs cs = cs"

definition request_completed :: "int \<Rightarrow> real \<Rightarrow> nat \<Rightarrow> metrics \<Rightarrow> metrics" where
  "request_completed status elapsed worker_id m =
     (let m = (if status \<ge> 100 \<and> status < 600
               then (let i = nat (status div 100 - 1) in
                     m\<lparr>response_status_classes := (response_status_classes m)
                         [i := add64 (response_status_classes m ! i) 1]\<rparr>) else m);
          m = (if status = 429 then m\<lparr>blocked_requests := add64 (blocked_requests m) 1\<rparr> else m);
          m = update_worker worker_id (\<lambda>w. w\<lparr>w_completed_requests := add64 (w_completed_requests w) 1\<rparr>) m
      in m\<lparr>duration_observations := add64 (duration_observations m) 1,
           duration_sum := duration_sum m + elapsed,
           duration_bucket_counts := count_buckets elapsed duration_buckets (duration_bucket_counts m)\<rparr>)"

text \<open>The compare-and-swap loop of \<open>completion_queue_size\<close>. \<open>seen\<close> lists what happens before
  each attempt: another thread stored a value, or the weak exchange failed spuriously; when it is
  used up, the exchange succeeds.\<close>

fun cas_max :: "nat \<Rightarrow> nat \<Rightarrow> nat \<Rightarrow> nat option list \<Rightarrow> nat" where
  "cas_max sz maximum current [] = (if sz > maximum then sz else current)"
| "cas_max sz maximum current (Some v # seen) =
     (if sz > maximum then cas_max sz v v seen else current)"
| "cas_max sz maximum current (None # seen) =
     (if sz > maximum then cas_max sz current current seen else current)"

definition completion_queue_size :: "nat \<Rightarrow> nat \<Rightarrow> nat option list \<Rightarrow> metrics \<Rightarrow> metrics" where
  "completion_queue_size worker_id sz seen m =
     update_worker worker_id (\<lambda>w. w\<lparr>w_completion_queue_depth := sz,
       w_completion_queue_high_water :=
         cas_max sz (w_completion_queue_high_water w) (w_completion_queue_high_water w) seen\<rparr>) m"

definition count_parse_error :: "metrics \<Rightarrow> metrics" where
  "count_parse_error m = m\<lparr>parse_errors := add64 (parse_errors m) 1\<rparr>"

definition active_connections :: "metrics \<Rightarrow> nat" where
  "active_connections m = open_connections m"

section \<open>The text of the metrics page\<close>

definition nl :: string where "nl = [CHR 0x0A]"
definition dq :: string where "dq = [CHR 0x22]"

definition help_type :: "string \<Rightarrow> string \<Rightarrow> string \<Rightarrow> string" where
  "help_type name help kind =
     ''# HELP '' @ name @ '' '' @ help @ nl @ ''# TYPE '' @ name @ '' '' @ kind @ nl"

definition worker_text :: "nat \<Rightarrow> epoll_worker_metrics \<Rightarrow> string" where
  "worker_text worker_id w =
     (let label = ''{worker='' @ dq @ to_string worker_id @ dq @ ''} '' in
      ''gateway_epoll_worker_connections_accepted_total'' @ label @ to_string (w_accepted_connections w) @ nl @
      ''gateway_epoll_worker_requests_total'' @ label @ to_string (w_requests w) @ nl @
      ''gateway_epoll_worker_requests_completed_total'' @ label @ to_string (w_completed_requests w) @ nl @
      ''gateway_epoll_worker_completion_queue_depth'' @ label @ to_string (w_completion_queue_depth w) @ nl @
      ''gateway_epoll_worker_completion_queue_high_water'' @ label @ to_string (w_completion_queue_high_water w) @ nl)"

definition prometheus_text :: "(real \<Rightarrow> string) \<Rightarrow> real \<Rightarrow> nat \<Rightarrow> nat \<Rightarrow> nat \<Rightarrow> nat \<Rightarrow> nat \<Rightarrow> metrics \<Rightarrow> string" where
  "prometheus_text fmt uptime pool_workers busy_threads queue_length log_disk_bytes queue_high_water m =
     help_type ''gateway_connections_active'' ''Current open client connections.'' ''gauge'' @
     ''gateway_connections_active '' @ to_string (active_connections m) @ nl @
     help_type ''gateway_connections_accepted_total'' ''Client connections accepted since startup.'' ''counter'' @
     ''gateway_connections_accepted_total '' @ to_string (accepted_connections m) @ nl @
     help_type ''gateway_http_requests_total'' ''Parsed HTTP requests sent to the router.'' ''counter'' @
     ''gateway_http_requests_total '' @ to_string (requests m) @ nl @
     help_type ''gateway_http_requests_blocked_total'' ''Requests rejected by rate limiting.'' ''counter'' @
     ''gateway_http_requests_blocked_total '' @ to_string (blocked_requests m) @ nl @
     help_type ''gateway_http_parse_errors_total'' ''Malformed HTTP requests rejected by the parser.'' ''counter'' @
     ''gateway_http_parse_errors_total '' @ to_string (parse_errors m) @ nl @
     help_type ''gateway_http_responses_total'' ''Responses grouped by status class.'' ''counter'' @
     concat (map (\<lambda>index. ''gateway_http_responses_total{status_class='' @ dq @ to_string (index + 1) @ ''xx'' @ dq @ ''} '' @
         to_string (response_status_classes m ! index) @ nl) [0..<length (response_status_classes m)]) @
     help_type ''gateway_http_request_duration_seconds'' ''Request handling duration in seconds.'' ''histogram'' @
     concat (map (\<lambda>index. ''gateway_http_request_duration_seconds_bucket{le='' @ dq @ fmt (duration_buckets ! index) @ dq @ ''} '' @
         to_string (duration_bucket_counts m ! index) @ nl) [0..<length duration_buckets]) @
     ''gateway_http_request_duration_seconds_bucket{le='' @ dq @ ''+Inf'' @ dq @ ''} '' @ to_string (duration_observations m) @ nl @
     ''gateway_http_request_duration_seconds_sum '' @ fmt (duration_sum m) @ nl @
     ''gateway_http_request_duration_seconds_count '' @ to_string (duration_observations m) @ nl @
     help_type ''process_uptime_seconds'' ''Seconds since the gateway process started.'' ''gauge'' @
     ''process_uptime_seconds '' @ fmt uptime @ nl @
     help_type ''gateway_thread_pool_workers'' ''Configured request worker threads.'' ''gauge'' @
     ''gateway_thread_pool_workers '' @ to_string pool_workers @ nl @
     help_type ''gateway_thread_pool_busy_threads'' ''Request worker threads currently executing tasks.'' ''gauge'' @
     ''gateway_thread_pool_busy_threads '' @ to_string busy_threads @ nl @
     help_type ''gateway_thread_pool_queue_length'' ''Queued request tasks.'' ''gauge'' @
     ''gateway_thread_pool_queue_length '' @ to_string queue_length @ nl @
     help_type ''gateway_thread_pool_queue_high_water'' ''Maximum shared request-pool queue depth since startup.'' ''gauge'' @
     ''gateway_thread_pool_queue_high_water '' @ to_string queue_high_water @ nl @
     help_type ''gateway_log_disk_bytes'' ''Provisioned bytes across pre-sized log segment files.'' ''gauge'' @
     ''gateway_log_disk_bytes '' @ to_string log_disk_bytes @ nl @
     concat (map (\<lambda>worker_id. worker_text worker_id (epoll_workers m ! worker_id)) [0..<epoll_worker_count m])"

section \<open>Counting reported events\<close>

datatype metrics_event =
    Opened nat
  | Closed
  | Started nat
  | Completed int real nat
  | Queue_size nat nat "nat option list"
  | Bad_request

fun report :: "metrics \<Rightarrow> metrics_event \<Rightarrow> metrics" where
  "report m (Opened w) = connection_opened w m"
| "report m Closed = connection_closed m"
| "report m (Started w) = request_started w m"
| "report m (Completed status elapsed w) = request_completed status elapsed w m"
| "report m (Queue_size w n seen) = completion_queue_size w n seen m"
| "report m Bad_request = count_parse_error m"

definition report_all :: "int \<Rightarrow> metrics_event list \<Rightarrow> metrics" where
  "report_all now evs = foldl report (new_metrics now) evs"

definition occurs :: "('a \<Rightarrow> bool) \<Rightarrow> 'a list \<Rightarrow> nat" where
  "occurs P xs = length (filter P xs)"

lemma occurs_simps [simp]: "occurs P [] = 0" "occurs P (xs @ [x]) = (if P x then Suc (occurs P xs) else occurs P xs)"
  by (simp_all add: occurs_def)

lemma report_all_snoc [simp]: "report_all now (evs @ [ev]) = report (report_all now evs) ev"
  by (simp add: report_all_def)

lemma add64_count [simp]: "add64 (n mod 18446744073709551616) (Suc 0) = Suc n mod 18446744073709551616"
  by (simp add: add64_def mod_simps)

lemma sub64_count: "int (sub64 a 1) = (int a - 1) mod 2 ^ 64"
proof -
  have "int (sub64 a 1) = (int a + 2 ^ 64 - 1) mod 2 ^ 64" by (simp add: sub64_def zmod_int of_nat_diff)
  also have "\<dots> = (int a - 1) mod 2 ^ 64" using mod_add_self2 [of "int a - 1" "2 ^ 64"] by (simp add: algebra_simps)
  finally show ?thesis .
qed

lemma update_worker_frame [simp]:
  "accepted_connections (update_worker w f m) = accepted_connections m"
  "open_connections (update_worker w f m) = open_connections m"
  "requests (update_worker w f m) = requests m"
  "blocked_requests (update_worker w f m) = blocked_requests m"
  "parse_errors (update_worker w f m) = parse_errors m"
  "response_status_classes (update_worker w f m) = response_status_classes m"
  "duration_bucket_counts (update_worker w f m) = duration_bucket_counts m"
  "duration_observations (update_worker w f m) = duration_observations m"
  "length (epoll_workers (update_worker w f m)) = length (epoll_workers m)"
  "process_start (update_worker w f m) = process_start m" "epoll_worker_count (update_worker w f m) = epoll_worker_count m"
  "duration_sum (update_worker w f m) = duration_sum m"
  by (simp_all add: update_worker_def)

lemmas metrics_ops = connection_opened_def connection_closed_def request_started_def request_completed_def
  completion_queue_size_def count_parse_error_def Let_def

lemma report_accepted: "accepted_connections (report_all now evs) = occurs (\<lambda>ev. \<exists>w. ev = Opened w) evs mod 2 ^ 64"
proof (induction evs rule: rev_induct)
  case (snoc ev evs)
  then show ?case by (cases ev) (simp_all add: metrics_ops)
qed (simp add: report_all_def new_metrics_def)

lemma report_open:
  "int (open_connections (report_all now evs)) =
     (int (occurs (\<lambda>ev. \<exists>w. ev = Opened w) evs) - int (occurs (\<lambda>ev. ev = Closed) evs)) mod 2 ^ 64"
proof (induction evs rule: rev_induct)
  case (snoc ev evs)
  then show ?case
    by (cases ev) (simp_all add: metrics_ops sub64_count [simplified] add64_def zmod_int mod_simps algebra_simps)
qed (simp add: report_all_def new_metrics_def)

lemma report_requests: "requests (report_all now evs) = occurs (\<lambda>ev. \<exists>w. ev = Started w) evs mod 2 ^ 64"
proof (induction evs rule: rev_induct)
  case (snoc ev evs)
  then show ?case by (cases ev) (simp_all add: metrics_ops)
qed (simp add: report_all_def new_metrics_def)

lemma report_blocked: "blocked_requests (report_all now evs) = occurs (\<lambda>ev. \<exists>d w. ev = Completed 429 d w) evs mod 2 ^ 64"
proof (induction evs rule: rev_induct)
  case (snoc ev evs)
  then show ?case by (cases ev) (simp_all add: metrics_ops)
qed (simp add: report_all_def new_metrics_def)

lemma report_parse_errors: "parse_errors (report_all now evs) = occurs (\<lambda>ev. ev = Bad_request) evs mod 2 ^ 64"
proof (induction evs rule: rev_induct)
  case (snoc ev evs)
  then show ?case by (cases ev) (simp_all add: metrics_ops)
qed (simp add: report_all_def new_metrics_def)

lemma report_observations:
  "duration_observations (report_all now evs) = occurs (\<lambda>ev. \<exists>c d w. ev = Completed c d w) evs mod 2 ^ 64"
proof (induction evs rule: rev_induct)
  case (snoc ev evs)
  then show ?case by (cases ev) (simp_all add: metrics_ops)
qed (simp add: report_all_def new_metrics_def)

lemma report_classes:
  "length (response_status_classes (report_all now evs)) = 5 \<and> (\<forall>i < 5. response_status_classes (report_all now evs) ! i =
     occurs (\<lambda>ev. \<exists>c d w. ev = Completed c d w \<and> 100 \<le> c \<and> c < 600 \<and> nat (c div 100) = Suc i) evs mod 2 ^ 64)"
proof (induction evs rule: rev_induct)
  case (snoc ev evs)
  then show ?case
    by (cases ev) (auto simp: metrics_ops nth_list_update nat_diff_distrib)
qed (simp add: report_all_def new_metrics_def)

lemma count_buckets_nth:
  "length (count_buckets d bs cs) = length cs"
  "i < length bs \<Longrightarrow> i < length cs \<Longrightarrow> count_buckets d bs cs ! i = (if d \<le> bs ! i then add64 (cs ! i) 1 else cs ! i)"
  by (induction d bs cs arbitrary: i rule: count_buckets.induct) (auto simp: nth_Cons' less_Suc_eq_0_disj)

lemma report_buckets:
  "length (duration_bucket_counts (report_all now evs)) = length duration_buckets \<and>
   (\<forall>i < length duration_buckets. duration_bucket_counts (report_all now evs) ! i =
     occurs (\<lambda>ev. \<exists>c d w. ev = Completed c d w \<and> d \<le> duration_buckets ! i) evs mod 2 ^ 64)"
proof (induction evs rule: rev_induct)
  case (snoc ev evs)
  then show ?case by (cases ev) (simp_all add: metrics_ops count_buckets_nth)
qed (simp add: report_all_def new_metrics_def)

lemma occurs_mono: "(\<And>x. P x \<Longrightarrow> Q x) \<Longrightarrow> occurs P xs \<le> occurs Q xs"
  by (induction xs) (auto simp: occurs_def)

lemma duration_buckets_sorted: "i \<le> j \<Longrightarrow> j < length duration_buckets \<Longrightarrow> duration_buckets ! i \<le> duration_buckets ! j"
proof -
  have "sorted duration_buckets" by (simp add: duration_buckets_def)
  then show "i \<le> j \<Longrightarrow> j < length duration_buckets \<Longrightarrow> ?thesis" by (rule sorted_nth_mono)
qed

text \<open>The high-water mark: with other threads that only raise it, the loop leaves a value that is
  at least the reported size and at least every value seen.\<close>

fun raising :: "nat \<Rightarrow> nat option list \<Rightarrow> bool" where
  "raising c [] = True"
| "raising c (None # seen) = raising c seen"
| "raising c (Some v # seen) = (c \<le> v \<and> raising v seen)"

lemma cas_max_bound: "raising c seen \<Longrightarrow> sz \<le> cas_max sz c c seen \<and> c \<le> cas_max sz c c seen"
proof (induction seen arbitrary: c)
  case (Cons x seen)
  then show ?case by (cases x) (auto intro: order_trans)
qed simp

section \<open>The tally of all reports\<close>

text \<open>The sizes reported for the completion queue of a worker, and the reports during whose exchange no
  other thread stored a value (it may fail spuriously).\<close>

definition sizes :: "nat \<Rightarrow> metrics_event list \<Rightarrow> nat list" where
  "sizes w evs = concat (map (\<lambda>ev. case ev of Queue_size w' n seen \<Rightarrow> (if w' = w then [n] else []) | _ \<Rightarrow> []) evs)"

definition no_store :: "metrics_event \<Rightarrow> bool" where
  "no_store ev = (case ev of Queue_size w n seen \<Rightarrow> list_all (\<lambda>x. x = None) seen | _ \<Rightarrow> True)"

definition worker_tally :: "metrics_event list \<Rightarrow> nat \<Rightarrow> epoll_worker_metrics" where
  "worker_tally evs w = \<lparr>w_accepted_connections = occurs (\<lambda>ev. ev = Opened w) evs mod 2 ^ 64,
     w_requests = occurs (\<lambda>ev. ev = Started w) evs mod 2 ^ 64,
     w_completed_requests = occurs (\<lambda>ev. \<exists>c d. ev = Completed c d w) evs mod 2 ^ 64,
     w_completion_queue_depth = (if sizes w evs = [] then 0 else last (sizes w evs)),
     w_completion_queue_high_water = Max (insert 0 (set (sizes w evs)))\<rparr>"

text \<open>What the members of \<open>Metrics\<close> should be after these reports.\<close>

definition tally :: "int \<Rightarrow> metrics_event list \<Rightarrow> metrics" where
  "tally now evs = \<lparr>process_start = now,
     accepted_connections = occurs (\<lambda>ev. \<exists>w. ev = Opened w) evs mod 2 ^ 64,
     open_connections = nat ((int (occurs (\<lambda>ev. \<exists>w. ev = Opened w) evs) - int (occurs (\<lambda>ev. ev = Closed) evs)) mod 2 ^ 64),
     requests = occurs (\<lambda>ev. \<exists>w. ev = Started w) evs mod 2 ^ 64,
     blocked_requests = occurs (\<lambda>ev. \<exists>d w. ev = Completed 429 d w) evs mod 2 ^ 64,
     parse_errors = occurs (\<lambda>ev. ev = Bad_request) evs mod 2 ^ 64,
     response_status_classes = map (\<lambda>i. occurs (\<lambda>ev. \<exists>c d w. ev = Completed c d w \<and> 100 \<le> c \<and> c < 600 \<and> nat (c div 100) = Suc i)
       evs mod 2 ^ 64) [0..<5],
     epoll_workers = map (worker_tally evs) [0..<256], epoll_worker_count = 0,
     duration_bucket_counts = map (\<lambda>bound. occurs (\<lambda>ev. \<exists>c d w. ev = Completed c d w \<and> d \<le> bound) evs mod 2 ^ 64) duration_buckets,
     duration_observations = occurs (\<lambda>ev. \<exists>c d w. ev = Completed c d w) evs mod 2 ^ 64,
     duration_sum = (\<Sum>ev \<leftarrow> evs. case ev of Completed c d w \<Rightarrow> d | _ \<Rightarrow> 0)\<rparr>"

lemma sizes_simps [simp]: "sizes w [] = []"
  "sizes w (evs @ [ev]) = sizes w evs @ (case ev of Queue_size w' n seen \<Rightarrow> (if w' = w then [n] else []) | _ \<Rightarrow> [])"
  by (simp_all add: sizes_def)

lemma cas_max_calm: "list_all (\<lambda>x. x = None) seen \<Longrightarrow> cas_max sz c c seen = max sz c"
  by (induction seen) auto

lemma update_worker_nth:
  "w' < length (epoll_workers m) \<Longrightarrow>
    epoll_workers (update_worker w f m) ! w' = (if w' = w then f (epoll_workers m ! w') else epoll_workers m ! w')"
  by (auto simp: update_worker_def)

lemma report_workers:
  "list_all no_store evs \<Longrightarrow> length (epoll_workers (report_all now evs)) = 256 \<and>
    (\<forall>w < 256. epoll_workers (report_all now evs) ! w = worker_tally evs w)"
proof (induction evs rule: rev_induct)
  case Nil
  then show ?case by (simp add: report_all_def new_metrics_def worker_tally_def new_worker_metrics_def)
next
  case (snoc ev evs)
  then have IH: "length (epoll_workers (report_all now evs)) = 256" "\<And>w. w < 256 \<Longrightarrow> epoll_workers (report_all now evs) ! w = worker_tally evs w"
    and calm: "no_store ev" by simp_all
  show ?case
  proof (cases ev)
    case (Queue_size w n seen)
    have "Max (insert 0 (insert n (set (sizes w evs)))) = max n (Max (insert 0 (set (sizes w evs))))"
      using Max_insert [of "insert 0 (set (sizes w evs))" n] by (simp add: insert_commute)
    then show ?thesis
      using IH calm Queue_size by (auto simp: metrics_ops update_worker_nth worker_tally_def no_store_def cas_max_calm insert_commute)
  qed (use IH in \<open>auto simp: metrics_ops update_worker_nth worker_tally_def\<close>)
qed

lemma report_sum: "duration_sum (report_all now evs) = (\<Sum>ev \<leftarrow> evs. case ev of Completed c d w \<Rightarrow> d | _ \<Rightarrow> 0)"
  "process_start (report_all now evs) = now" "epoll_worker_count (report_all now evs) = 0"
proof (induction evs rule: rev_induct)
  case (snoc ev evs)
  {
    case 1
    then show ?case using snoc by (cases ev) (simp_all add: metrics_ops)
  next
    case 2
    then show ?case using snoc by (cases ev) (simp_all add: metrics_ops)
  next
    case 3
    then show ?case using snoc by (cases ev) (simp_all add: metrics_ops)
  }
qed (simp_all add: report_all_def new_metrics_def)

section \<open>Properties\<close>

text \<open>C30. Every member of \<open>Metrics\<close> is exact. After any reports, in any order, the state is the tally of
  the reports: the gauge of active connections is opened minus closed; the totals, the status classes,
  the observations and every bucket of the histogram are the numbers of the reports they stand
  for, modulo \<open>2 ^ 64\<close>; the sum of durations is their sum; and each of the 256 workers has its own
  numbers of accepted connections, started and completed requests, the size that was reported last
  for its completion queue and the largest reported one. (For the largest size: no other thread
  stores a mark during the exchange loop; spurious failures are allowed.)\<close>

theorem counters_exact:
  assumes "list_all no_store evs"
  shows "report_all now evs = tally now evs"
proof (rule metrics.equality)
  let ?m = "report_all now evs"
  show "response_status_classes ?m = response_status_classes (tally now evs)"
    using report_classes [of now evs] by (auto simp: tally_def intro!: nth_equalityI)
  show "epoll_workers ?m = epoll_workers (tally now evs)"
    using report_workers [OF assms] by (auto simp: tally_def intro!: nth_equalityI)
  show "duration_bucket_counts ?m = duration_bucket_counts (tally now evs)"
    using report_buckets [of now evs] by (auto simp: tally_def intro!: nth_equalityI)
  show "open_connections ?m = open_connections (tally now evs)"
    using report_open [of now evs] by (simp add: tally_def nat_eq_iff2)
qed (simp_all add: tally_def report_accepted report_requests report_blocked report_parse_errors report_observations report_sum)

theorem counters_exact_witness:
  "w_accepted_connections (epoll_workers (report_all 0 [Opened 3, Opened 4, Opened 3, Queue_size 3 7 [None], Queue_size 3 2 []]) ! 3) = 2 \<and>
   w_completion_queue_high_water (epoll_workers (report_all 0 [Opened 3, Opened 4, Opened 3, Queue_size 3 7 [None], Queue_size 3 2 []]) ! 3) = 7"
  using counters_exact [of "[Opened 3, Opened 4, Opened 3, Queue_size 3 7 [None], Queue_size 3 2 []]" 0]
  by (simp add: no_store_def tally_def worker_tally_def occurs_def sizes_def)

text \<open>The histogram is cumulative. With fewer than \<open>2 ^ 64\<close> completed requests, the count of a
  bucket is the number of requests that took at most its bound, counts do not decrease from one
  bucket to the next, and none exceeds the total, which is the \<open>+Inf\<close> bucket.\<close>

lemma histogram_cumulative:
  assumes "occurs (\<lambda>ev. \<exists>c d w. ev = Completed c d w) evs < 2 ^ 64" and "i \<le> j" and "j < length duration_buckets"
  shows "duration_bucket_counts (report_all now evs) ! i =
      occurs (\<lambda>ev. \<exists>c d w. ev = Completed c d w \<and> d \<le> duration_buckets ! i) evs \<and>
    duration_bucket_counts (report_all now evs) ! i \<le> duration_bucket_counts (report_all now evs) ! j \<and>
    duration_bucket_counts (report_all now evs) ! j \<le> duration_observations (report_all now evs)"
proof -
  let ?n = "\<lambda>k. occurs (\<lambda>ev. \<exists>c d w. ev = Completed c d w \<and> d \<le> duration_buckets ! k) evs"
  have le: "?n k \<le> occurs (\<lambda>ev. \<exists>c d w. ev = Completed c d w) evs" for k by (rule occurs_mono) blast
  have mono: "?n i \<le> ?n j"
    using duration_buckets_sorted [OF assms(2,3)] by (intro occurs_mono) (auto intro: order_trans)
  have eq: "duration_bucket_counts (report_all now evs) ! k = ?n k" if "k < length duration_buckets" for k
    using report_buckets [of now evs] that le [of k] assms(1) by simp
  show ?thesis
    using eq [of i] eq [of j] assms mono le [of j] by (simp add: report_observations)
qed

end
