(* ===== verification/Thread_Pool.thy ===== *)
theory Thread_Pool
  imports Prelude "HOL-Library.Multiset"
begin

text \<open>
  \<open>src/src/network/thread_pool.h\<close>: the bounded pool that runs the request handlers. A state
  holds the members of the class and, per worker thread, where it is in \<open>worker_loop\<close>. Every
  critical section is one operation; \<open>pool_step\<close> interleaves them, the notifications (which
  come after the lock is released) and spurious wake-ups. \<open>accepted\<close>, \<open>started\<close> and
  \<open>finished\<close> record the tasks for the statements only. A task is a value \<open>'t\<close>: what it does
  is not part of the pool, and the \<open>catch\<close> makes throwing the same as returning.
\<close>

section \<open>State and operations\<close>

datatype 't worker_pc = Checking | Sleeping | Running 't | Ending | Exited

record 't pool =
  queue_capacity :: nat
  tasks :: "'t list"
  queue_high_water :: nat
  workers :: "'t worker_pc list"
  busy_threads :: nat
  stopping :: bool
  notify_ones :: nat
  notify_alls :: nat
  accepted :: "'t list"
  started :: "'t list"
  finished :: "'t list"

definition new_pool :: "nat \<Rightarrow> nat \<Rightarrow> 't pool" where
  "new_pool worker_count capacity = \<lparr>queue_capacity = capacity, tasks = [], queue_high_water = 0,
     workers = replicate worker_count Checking, busy_threads = 0, stopping = False,
     notify_ones = 0, notify_alls = 0, accepted = [], started = [], finished = []\<rparr>"

text \<open>\<open>submit\<close> up to the end of the critical section; a notification is then owed.\<close>

definition submit :: "'t \<Rightarrow> 't pool \<Rightarrow> bool \<times> 't pool" where
  "submit task p =
     (if stopping p \<or> length (tasks p) \<ge> queue_capacity p then (False, p)
      else (True, p\<lparr>tasks := tasks p @ [task], queue_high_water := max (queue_high_water p) (length (tasks p) + 1),
                    notify_ones := notify_ones p + 1, accepted := accepted p @ [task]\<rparr>))"

definition begin_shutdown :: "'t pool \<Rightarrow> 't pool" where
  "begin_shutdown p = p\<lparr>stopping := True, notify_alls := notify_alls p + 1\<rparr>"

text \<open>The destructor; its \<open>join\<close> then waits for \<open>joined\<close>.\<close>

definition destroy_pool :: "'t pool \<Rightarrow> 't pool" where
  "destroy_pool p = begin_shutdown p"

definition wake :: "'t worker_pc \<Rightarrow> 't worker_pc" where
  "wake w = (if w = Sleeping then Checking else w)"

text \<open>\<open>notify_one\<close> wakes one sleeping worker, if there is one; \<open>notify_all\<close> wakes all.\<close>

definition notify_one :: "nat \<Rightarrow> 't pool \<Rightarrow> 't pool" where
  "notify_one i p = p\<lparr>notify_ones := notify_ones p - 1, workers := (workers p)[i := wake (workers p ! i)]\<rparr>"

definition notify_all :: "'t pool \<Rightarrow> 't pool" where
  "notify_all p = p\<lparr>notify_alls := notify_alls p - 1, workers := map wake (workers p)\<rparr>"

text \<open>The critical section of \<open>worker_loop\<close>: the wait predicate, the exit test, taking a task.\<close>

definition worker_check :: "nat \<Rightarrow> 't pool \<Rightarrow> 't pool" where
  "worker_check i p =
     (if stopping p \<or> tasks p \<noteq> [] then
        if stopping p \<and> tasks p = [] then p\<lparr>workers := (workers p)[i := Exited]\<rparr>
        else p\<lparr>tasks := tl (tasks p), workers := (workers p)[i := Running (hd (tasks p))],
               busy_threads := busy_threads p + 1, started := started p @ [hd (tasks p)]\<rparr>
      else p\<lparr>workers := (workers p)[i := Sleeping]\<rparr>)"

definition task_end :: "nat \<Rightarrow> 't \<Rightarrow> 't pool \<Rightarrow> 't pool" where
  "task_end i task p = p\<lparr>workers := (workers p)[i := Ending], finished := finished p @ [task]\<rparr>"

definition worker_release :: "nat \<Rightarrow> 't pool \<Rightarrow> 't pool" where
  "worker_release i p = p\<lparr>workers := (workers p)[i := Checking], busy_threads := busy_threads p - 1\<rparr>"

definition stats :: "'t pool \<Rightarrow> nat \<times> nat \<times> nat \<times> nat" where
  "stats p = (length (workers p), busy_threads p, length (tasks p), queue_high_water p)"

text \<open>\<open>join\<close> returns when every worker has left its loop.\<close>

definition joined :: "'t pool \<Rightarrow> bool" where
  "joined p \<longleftrightarrow> list_all (\<lambda>w. w = Exited) (workers p)"

text \<open>Steps of the workers and of owed notifications, and steps of the clients.\<close>

inductive worker_step :: "'t pool \<Rightarrow> 't pool \<Rightarrow> bool" where
  check: "i < length (workers p) \<Longrightarrow> workers p ! i = Checking \<Longrightarrow> worker_step p (worker_check i p)"
| ran: "i < length (workers p) \<Longrightarrow> workers p ! i = Running task \<Longrightarrow> worker_step p (task_end i task p)"
| release: "i < length (workers p) \<Longrightarrow> workers p ! i = Ending \<Longrightarrow> worker_step p (worker_release i p)"
| notified: "0 < notify_ones p \<Longrightarrow> i < length (workers p) \<Longrightarrow>
    workers p ! i = Sleeping \<or> Sleeping \<notin> set (workers p) \<Longrightarrow> worker_step p (notify_one i p)"
| notified_all: "0 < notify_alls p \<Longrightarrow> worker_step p (notify_all p)"

inductive client_step :: "'t pool \<Rightarrow> 't pool \<Rightarrow> bool" where
  submitted: "client_step p (snd (submit task p))"
| shut: "client_step p (begin_shutdown p)"
| spurious: "i < length (workers p) \<Longrightarrow> workers p ! i = Sleeping \<Longrightarrow>
    client_step p (p\<lparr>workers := (workers p)[i := Checking]\<rparr>)"

definition pool_step :: "'t pool \<Rightarrow> 't pool \<Rightarrow> bool" where
  "pool_step p q \<longleftrightarrow> worker_step p q \<or> client_step p q"

inductive_cases worker_stepE: "worker_step p q"
inductive_cases client_stepE: "client_step p q"

section \<open>The invariant\<close>

definition is_busy :: "'t worker_pc \<Rightarrow> bool" where
  "is_busy w \<longleftrightarrow> w = Ending \<or> (\<exists>task. w = Running task)"

definition running :: "'t worker_pc list \<Rightarrow> 't list" where
  "running ws = concat (map (\<lambda>w. case w of Running task \<Rightarrow> [task] | _ \<Rightarrow> []) ws)"

definition pool_inv :: "'t pool \<Rightarrow> bool" where
  "pool_inv p \<longleftrightarrow>
     length (tasks p) \<le> queue_high_water p \<and> queue_high_water p \<le> queue_capacity p \<and>
     accepted p = started p @ tasks p \<and>
     busy_threads p = length (filter is_busy (workers p)) \<and>
     mset (started p) = mset (finished p) + mset (running (workers p)) \<and>
     (Exited \<in> set (workers p) \<longrightarrow> stopping p \<and> tasks p = []) \<and>
     (tasks p \<noteq> [] \<longrightarrow> workers p \<noteq> [] \<longrightarrow> set (workers p) \<subseteq> {Sleeping} \<longrightarrow> 0 < notify_ones p) \<and>
     (stopping p \<longrightarrow> Sleeping \<in> set (workers p) \<longrightarrow> 0 < notify_alls p)"

lemma is_busy_simps [simp]: "\<not> is_busy Checking" "\<not> is_busy Sleeping" "is_busy (Running t)" "is_busy Ending" "\<not> is_busy Exited"
  "is_busy (wake w) = is_busy w"
  by (auto simp: is_busy_def wake_def)

lemma filter_update:
  assumes "i < length ws"
  shows "length (filter P (ws[i := w])) + (if P (ws ! i) then 1 else 0) = length (filter P ws) + (if P w then 1 else 0)"
  using assms
proof (induction ws arbitrary: i)
  case (Cons x ws)
  then show ?case by (cases i) auto
qed simp

lemma running_update:
  assumes "i < length ws"
  shows "mset (running (ws[i := w])) + mset (running [ws ! i]) = mset (running ws) + mset (running [w])"
  using assms
proof (induction ws arbitrary: i)
  case (Cons x ws)
  then show ?case by (cases i) (auto simp: running_def add.assoc add.left_commute)
qed simp

lemma running_wake [simp]: "running (map wake ws) = running ws"
  by (induction ws) (auto simp: running_def wake_def split: worker_pc.splits)

lemma set_update_mem: "i < length ws \<Longrightarrow> w \<in> set (ws[i := w])"
  by (simp add: set_update_memI)

lemma set_update_other: "v \<in> set (ws[i := w]) \<Longrightarrow> v \<noteq> w \<Longrightarrow> v \<in> set ws"
  using set_update_subset_insert [of ws i w] by auto

lemma update_not_Sleeping:
  "i < length ws \<Longrightarrow> w \<noteq> Sleeping \<Longrightarrow> set (ws[i := w]) \<subseteq> {Sleeping} \<Longrightarrow> False"
  using set_update_mem by fastforce

lemma new_pool_inv: "pool_inv (new_pool n c)"
  by (simp add: pool_inv_def new_pool_def running_def)

lemma submit_inv: "pool_inv p \<Longrightarrow> pool_inv (snd (submit task p))"
  by (auto simp: pool_inv_def submit_def)

lemma begin_shutdown_inv: "pool_inv p \<Longrightarrow> pool_inv (begin_shutdown p)"
  by (auto simp: pool_inv_def begin_shutdown_def)

lemma worker_check_inv:
  assumes inv: "pool_inv p" and i: "i < length (workers p)" "workers p ! i = Checking"
  shows "pool_inv (worker_check i p)"
proof -
  have ne: "workers p \<noteq> []" using i by auto
  note upd = filter_update [OF i(1), of is_busy] running_update [OF i(1)]
  have "Exited \<in> set ((workers p)[i := w]) \<Longrightarrow> w \<noteq> Exited \<Longrightarrow> Exited \<in> set (workers p)" for w
    by (rule set_update_other) auto
  moreover have "Sleeping \<in> set ((workers p)[i := w]) \<Longrightarrow> w \<noteq> Sleeping \<Longrightarrow> Sleeping \<in> set (workers p)" for w
    by (rule set_update_other) auto
  moreover have "\<not> set ((workers p)[i := w]) \<subseteq> {Sleeping}" if "w \<noteq> Sleeping" for w
    using update_not_Sleeping [OF i(1) that] by blast
  ultimately show ?thesis
    using inv i upd [of Exited] upd [of Sleeping] upd [of "Running (hd (tasks p))"]
    by (cases "tasks p") (auto simp: pool_inv_def worker_check_def running_def)
qed

lemma task_end_inv:
  assumes inv: "pool_inv p" and i: "i < length (workers p)" "workers p ! i = Running task"
  shows "pool_inv (task_end i task p)"
proof -
  note upd = filter_update [OF i(1), of is_busy Ending] running_update [OF i(1), of Ending]
  have "\<not> set ((workers p)[i := Ending]) \<subseteq> {Sleeping}" using update_not_Sleeping [OF i(1)] by blast
  then show ?thesis
    using inv i upd by (auto simp: pool_inv_def task_end_def running_def dest!: set_update_other)
qed

lemma worker_release_inv:
  assumes inv: "pool_inv p" and i: "i < length (workers p)" "workers p ! i = Ending"
  shows "pool_inv (worker_release i p)"
proof -
  note upd = filter_update [OF i(1), of is_busy Checking] running_update [OF i(1), of Checking]
  have "\<not> set ((workers p)[i := Checking]) \<subseteq> {Sleeping}" using update_not_Sleeping [OF i(1)] by blast
  then show ?thesis
    using inv i upd by (auto simp: pool_inv_def worker_release_def running_def dest!: set_update_other)
qed

lemma wake_one_inv:
  assumes inv: "pool_inv p" and i: "i < length (workers p)" and w: "workers p ! i = Sleeping"
  shows "pool_inv (p\<lparr>notify_ones := k, workers := (workers p)[i := Checking]\<rparr>)"
proof -
  note upd = filter_update [OF i, of is_busy Checking] running_update [OF i, of Checking]
  have "\<not> set ((workers p)[i := Checking]) \<subseteq> {Sleeping}" using update_not_Sleeping [OF i] by blast
  moreover have "Sleeping \<in> set (workers p)" using i w by (metis nth_mem)
  ultimately show ?thesis
    using inv w upd by (auto simp: pool_inv_def running_def dest!: set_update_other)
qed

lemma notify_one_inv:
  assumes inv: "pool_inv p" and i: "i < length (workers p)"
    and w: "workers p ! i = Sleeping \<or> Sleeping \<notin> set (workers p)"
  shows "pool_inv (notify_one i p)"
proof (cases "workers p ! i = Sleeping")
  case True
  then show ?thesis using wake_one_inv [OF inv i True, of "notify_ones p - 1"] by (simp add: notify_one_def wake_def)
next
  case False
  then have "(workers p)[i := wake (workers p ! i)] = workers p" by (simp add: wake_def)
  moreover have "\<not> set (workers p) \<subseteq> {Sleeping}" using False i nth_mem by fastforce
  ultimately show ?thesis using inv by (auto simp: pool_inv_def notify_one_def)
qed

lemma wake_not_Sleeping: "w \<in> set (map wake ws) \<Longrightarrow> w \<noteq> Sleeping"
  by (auto simp: wake_def)

lemma notify_all_inv:
  assumes inv: "pool_inv p"
  shows "pool_inv (notify_all p)"
proof -
  have "length (filter is_busy (map wake (workers p))) = length (filter is_busy (workers p))"
    by (simp add: filter_map comp_def)
  moreover have "Exited \<in> set (map wake (workers p)) \<Longrightarrow> Exited \<in> set (workers p)" by (auto simp: wake_def split: if_splits)
  moreover have "set (map wake (workers p)) \<subseteq> {Sleeping} \<Longrightarrow> workers p = []"
    using wake_not_Sleeping [of _ "workers p"] by (cases "workers p") auto
  moreover have "Sleeping \<notin> set (map wake (workers p))" using wake_not_Sleeping by blast
  ultimately show ?thesis using inv unfolding pool_inv_def notify_all_def by auto
qed

lemma pool_step_inv: "pool_inv p \<Longrightarrow> pool_step p q \<Longrightarrow> pool_inv q"
  unfolding pool_step_def
proof (elim disjE worker_stepE client_stepE)
  fix i assume "pool_inv p" "i < length (workers p)" "workers p ! i = Sleeping" "q = p\<lparr>workers := (workers p)[i := Checking]\<rparr>"
  then show "pool_inv q" using wake_one_inv [of p i "notify_ones p"] by simp
qed (auto intro: submit_inv begin_shutdown_inv worker_check_inv task_end_inv worker_release_inv notify_one_inv notify_all_inv)

interpretation pool: transition_system "\<lambda>p. p = new_pool n c" pool_step pool_inv for n c
  by unfold_locales (auto simp: new_pool_inv intro: pool_step_inv)

section \<open>Termination and progress\<close>

fun pc_weight :: "'t worker_pc \<Rightarrow> nat" where
  "pc_weight Checking = 1"
| "pc_weight Sleeping = 0"
| "pc_weight (Running task) = 3"
| "pc_weight Ending = 2"
| "pc_weight Exited = 0"

definition pool_work :: "'t pool \<Rightarrow> nat" where
  "pool_work p = 3 * length (tasks p) + sum_list (map pc_weight (workers p)) + 2 * notify_ones p +
     (length (workers p) + 1) * notify_alls p"

lemma weight_update:
  assumes "i < length ws"
  shows "sum_list (map pc_weight (ws[i := w])) + pc_weight (ws ! i) = sum_list (map pc_weight ws) + pc_weight w"
  using assms
proof (induction ws arbitrary: i)
  case (Cons x ws)
  then show ?case by (cases i) auto
qed simp

lemma weight_wake: "sum_list (map pc_weight (map wake ws)) \<le> sum_list (map pc_weight ws) + length ws"
  by (induction ws) (auto simp: wake_def)

lemma worker_step_work: "worker_step p q \<Longrightarrow> pool_work q < pool_work p"
proof (induction rule: worker_step.induct)
  case (check i p)
  note upd = weight_update [OF check(1)]
  show ?case
    using check upd [of Exited] upd [of Sleeping] upd [of "Running (hd (tasks p))"]
    by (cases "tasks p") (auto simp: pool_work_def worker_check_def)
next
  case (ran i p task)
  then show ?case using weight_update [OF ran(1), of Ending] by (simp add: pool_work_def task_end_def)
next
  case (release i p)
  then show ?case using weight_update [OF release(1), of Checking] by (simp add: pool_work_def worker_release_def)
next
  case (notified p i)
  then show ?case using weight_update [OF notified(2), of "wake (workers p ! i)"]
    by (auto simp: pool_work_def notify_one_def wake_def split: if_splits)
next
  case (notified_all p)
  then obtain k where "notify_alls p = Suc k" by (cases "notify_alls p") auto
  then show ?case using weight_wake [of "workers p"] by (simp add: pool_work_def notify_all_def)
qed

lemma worker_run_bounded: "(worker_step ^^ k) p q \<Longrightarrow> k + pool_work q \<le> pool_work p"
proof (induction k arbitrary: q)
  case (Suc k)
  then obtain r where "(worker_step ^^ k) p r" "worker_step r q" by auto
  with Suc.IH [of r] worker_step_work [of r q] show ?case by simp
qed simp

lemma worker_step_keeps: "worker_step p q \<Longrightarrow> accepted q = accepted p \<and> length (workers q) = length (workers p) \<and> stopping q = stopping p"
  by (induction rule: worker_step.induct)
    (auto simp: worker_check_def task_end_def worker_release_def notify_one_def notify_all_def)

lemma worker_steps_keep: "worker_step\<^sup>*\<^sup>* p q \<Longrightarrow> accepted q = accepted p \<and> length (workers q) = length (workers p) \<and> stopping q = stopping p"
  by (induction rule: rtranclp_induct) (auto dest: worker_step_keeps)

text \<open>No wake-up is lost: a pool in which nothing can happen has nothing left to do.\<close>

lemma quiescent_done:
  assumes inv: "pool_inv p" and ne: "workers p \<noteq> []" and quiet: "\<And>q. \<not> worker_step p q"
  shows "tasks p = [] \<and> mset (finished p) = mset (accepted p) \<and> busy_threads p = 0 \<and> (stopping p \<longrightarrow> joined p)"
proof -
  have idle: "w = Sleeping \<or> w = Exited" if mem: "w \<in> set (workers p)" for w
  proof -
    obtain i where "i < length (workers p)" "workers p ! i = w" using mem by (meson in_set_conv_nth)
    then have "w \<noteq> Checking" "w \<noteq> Ending" "w \<noteq> Running task" for task
      using quiet worker_step.check [of i p] worker_step.release [of i p] worker_step.ran [of i p task] by metis+
    then show ?thesis by (cases w) blast+
  qed
  have run: "running (workers p) = []" using idle by (auto simp: running_def split: worker_pc.splits)
  have busy: "filter is_busy (workers p) = []" using idle by (auto simp: filter_empty_conv is_busy_def)
  obtain w where w: "w \<in> set (workers p)" using ne by (cases "workers p") auto
  have none: "notify_alls p = 0" using quiet worker_step.notified_all by blast
  have "tasks p = []"
  proof (rule ccontr)
    assume t: "tasks p \<noteq> []"
    then have "Exited \<notin> set (workers p)" using inv by (auto simp: pool_inv_def)
    then have sl: "set (workers p) \<subseteq> {Sleeping}" using idle by blast
    then have "0 < notify_ones p" using inv t ne by (simp add: pool_inv_def)
    moreover have "0 < length (workers p)" "workers p ! 0 = Sleeping" using sl ne by (auto simp: subset_iff)
    ultimately show False using quiet worker_step.notified by blast
  qed
  moreover have "joined p" if "stopping p"
    using that inv none idle by (auto simp: pool_inv_def joined_def list_all_iff)
  ultimately show ?thesis using inv run busy by (auto simp: pool_inv_def)
qed

lemma pool_steps_length: "pool_step\<^sup>*\<^sup>* p q \<Longrightarrow> length (workers q) = length (workers p)"
proof (induction rule: rtranclp_induct)
  case (step q r)
  then have "length (workers r) = length (workers q)"
    by (auto simp: pool_step_def submit_def begin_shutdown_def elim!: client_stepE dest: worker_step_keeps)
  with step show ?case by simp
qed simp

section \<open>Properties\<close>

text \<open>C11. The pool is bounded, fair and exact. In every interleaving of submitters, workers,
  notifications and shutdown: the queue never exceeds its capacity and the high-water mark bounds
  it; the tasks that were started, followed by those still queued, are the accepted tasks in the
  order of their acceptance; and every started task is either finished or running on exactly one
  worker, so none is lost or run twice.\<close>

theorem pool_fifo_exactly_once:
  assumes "pool_step\<^sup>*\<^sup>* (new_pool n c) p"
  shows "length (tasks p) \<le> queue_high_water p \<and> queue_high_water p \<le> c \<and>
    accepted p = started p @ tasks p \<and> mset (started p) = mset (finished p) + mset (running (workers p)) \<and>
    busy_threads p = length (filter is_busy (workers p))"
proof -
  have "queue_capacity q = c" if "pool_step\<^sup>*\<^sup>* (new_pool n c) q" for q
    using that
  proof (induction rule: rtranclp_induct)
    case (step q r)
    then show ?case
      by (auto simp: pool_step_def submit_def begin_shutdown_def worker_check_def task_end_def worker_release_def
          notify_one_def notify_all_def elim!: client_stepE worker_stepE)
  qed (simp add: new_pool_def)
  from this [OF assms] show ?thesis using pool.inv_reachable [OF refl assms] by (auto simp: pool_inv_def)
qed

theorem pool_fifo_exactly_once_witness:
  "accepted (snd (submit ''a'' (new_pool 2 1))) = [''a''] \<and> length (tasks (snd (submit ''a'' (new_pool 2 1)))) \<le> 1"
proof -
  have "pool_step\<^sup>*\<^sup>* (new_pool 2 1) (snd (submit ''a'' (new_pool 2 1)))"
    by (rule r_into_rtranclp) (simp add: pool_step_def client_step.submitted)
  from pool_fifo_exactly_once [OF this] show ?thesis by (auto simp: submit_def new_pool_def)
qed

text \<open>C31. The pool drains. From every reachable state of a pool with workers, every run of the
  workers and owed notifications is finite, with a bound that the state gives; and where it stops,
  every accepted task has finished and no worker is busy. In particular no wake-up is lost, and
  after \<open>begin_shutdown\<close> all workers have left their loops, so \<open>join\<close> returns.\<close>

theorem pool_drains:
  assumes reach: "pool_step\<^sup>*\<^sup>* (new_pool n c) p" and n: "0 < n"
  shows "((worker_step ^^ k) p q \<longrightarrow> k \<le> pool_work p) \<and>
    (worker_step\<^sup>*\<^sup>* p q \<longrightarrow> (\<forall>r. \<not> worker_step q r) \<longrightarrow>
       tasks q = [] \<and> mset (finished q) = mset (accepted p) \<and> busy_threads q = 0 \<and> (stopping p \<longrightarrow> joined q))"
proof (intro conjI impI)
  show "k \<le> pool_work p" if "(worker_step ^^ k) p q" using worker_run_bounded [OF that] by simp
next
  assume run: "worker_step\<^sup>*\<^sup>* p q" and quiet: "\<forall>r. \<not> worker_step q r"
  have "pool_step\<^sup>*\<^sup>* p q" using run by (rule mono_rtranclp [rule_format, rotated]) (simp add: pool_step_def)
  then have "pool_inv q" using pool.inv_reachable [OF refl, of n c q] reach by (meson rtranclp_trans)
  moreover have "length (workers q) = n"
    using worker_steps_keep [OF run] pool_steps_length [OF reach] by (simp add: new_pool_def)
  then have "workers q \<noteq> []" using n by auto
  ultimately show "tasks q = []" "mset (finished q) = mset (accepted p)" "busy_threads q = 0"
    "stopping p \<Longrightarrow> joined q"
    using quiescent_done [of q] quiet worker_steps_keep [OF run] by auto
qed

text \<open>One worker, one task: it is taken, run and released, the owed notification finds nobody asleep, and
  the worker goes to sleep.\<close>

definition one_task :: "string pool" where "one_task = snd (submit ''t'' (new_pool 1 1))"

definition one_task_done :: "string pool" where
  "one_task_done = worker_check 0 (notify_one 0 (worker_release 0 (task_end 0 ''t'' (worker_check 0 one_task))))"

lemma one_task_simps:
  "workers one_task = [Checking]" "notify_ones one_task = 1" "accepted one_task = [''t'']"
  "workers (worker_check 0 one_task) = [Running ''t'']"
  "workers one_task_done = [Sleeping]" "notify_ones one_task_done = 0" "notify_alls one_task_done = 0"
  by (simp_all add: one_task_def one_task_done_def submit_def new_pool_def worker_check_def task_end_def worker_release_def
      notify_one_def wake_def)

lemma one_task_run: "worker_step\<^sup>*\<^sup>* one_task one_task_done"
proof -
  let ?r = "worker_check 0 one_task" let ?e = "task_end 0 ''t'' ?r" let ?c = "worker_release 0 ?e" let ?n = "notify_one 0 ?c"
  have "worker_step one_task ?r" by (rule worker_step.check) (simp_all add: one_task_simps)
  moreover have "worker_step ?r ?e" by (rule worker_step.ran) (simp_all add: one_task_simps)
  moreover have "worker_step ?e ?c" by (rule worker_step.release) (simp_all add: one_task_simps task_end_def)
  moreover have "worker_step ?c ?n"
    by (rule worker_step.notified) (simp_all add: one_task_simps worker_check_def task_end_def worker_release_def)
  moreover have "worker_step ?n one_task_done" unfolding one_task_done_def
    by (rule worker_step.check) (simp_all add: one_task_simps task_end_def worker_release_def notify_one_def wake_def)
  ultimately show ?thesis by (meson rtranclp.rtrancl_into_rtrancl rtranclp.rtrancl_refl)
qed

lemma one_task_quiet: "\<not> worker_step one_task_done q"
  by (auto simp: one_task_simps elim!: worker_stepE)

theorem pool_drains_witness: "tasks one_task_done = [] \<and> finished one_task_done = [''t''] \<and> busy_threads one_task_done = 0"
proof -
  have "client_step (new_pool 1 1) one_task" unfolding one_task_def by (rule submitted)
  then have "pool_step\<^sup>*\<^sup>* (new_pool 1 1) one_task" by (simp add: pool_step_def r_into_rtranclp)
  then have "tasks one_task_done = [] \<and> mset (finished one_task_done) = mset (accepted one_task) \<and> busy_threads one_task_done = 0"
    using pool_drains [of 1 1 one_task 0 one_task_done] one_task_run one_task_quiet by simp
  then show ?thesis by (simp add: one_task_simps)
qed

end
