(* ===== verification/Tcp_Server.thy ===== *)
theory Tcp_Server
  imports Connections Epoll_Loop Router Metrics Thread_Pool
begin

text \<open>
  \<open>src/src/network/tcp_server.cpp\<close> and \<open>tcp_server.h\<close>: one epoll worker of the server, operation
  by operation. A \<open>node\<close> is the state one worker thread sees: the \<open>LoopState\<close>, the locals of
  \<open>worker_loop\<close> (listener, interest list, connections) and the members shared by all workers
  (\<open>srv\<close>). The outcome of each socket call is taken from \<open>net\<close>; where a list is exhausted,
  \<open>read\<close> and \<open>accept\<close> report \<open>EAGAIN\<close>, \<open>send\<close> takes everything and \<open>fcntl\<close> succeeds. The
  fields from \<open>fds_opened\<close> on are traces that no operation reads: descriptors obtained and
  closed, bytes received, responses queued and bytes sent, the latter by connection generation.

  A handler runs as one step: it shares the metrics (atomic updates), the pool (one critical section
  per call) and the completion queue (one critical section) with other threads.
\<close>

section \<open>State\<close>

text \<open>The task that \<open>handle_client\<close> submits, by the values its lambda captures.\<close>

record task =
  task_worker :: nat
  task_fd :: int
  task_generation :: nat
  task_request :: http_request
  task_ip :: string

record completion =
  compl_fd :: int
  compl_generation :: nat
  serialized_response :: string
  compl_status :: int
  compl_elapsed :: real

text \<open>A handler sees the metrics and the pool through \<open>const\<close> members and may change the
  application state \<open>'a\<close>.\<close>

type_synonym 'a view = "metrics \<times> task pool \<times> 'a"

record 'a server =
  metrics :: metrics
  thread_pool :: "task pool"
  shutdown_requested :: bool
  worker_failed :: bool
  router :: "'a view router"
  app :: 'a

datatype accept_result = Accepted int "string option" | Accept_errno errno
datatype recv_result = Received string | Recv_errno errno
datatype send_result = Sent nat | Send_errno errno

record net =
  accepts :: "accept_result list"
  recvs :: "recv_result list"
  sends :: "send_result list"
  fcntls :: "bool list"

record loop_state =
  completion_fd :: int
  completions :: "completion list"
  outstanding_tasks :: nat
  next_generation :: nat
  worker_id :: nat
  draining :: bool
  listener_fd :: int
  loop :: epoll_loop
  conns :: connections
  notifications :: nat
  net :: net
  fds_opened :: "int list"
  fds_closed :: "int list"
  received :: "(nat \<times> string) list"
  answers :: "(nat \<times> string) list"
  sent :: "(nat \<times> string) list"

record 'a node = loop_state +
  srv :: "'a server"

definition max_outbound_bytes :: nat where
  "max_outbound_bytes = 2 ^ 20"

section \<open>Updates shared by the operations\<close>

definition set_metrics :: "(metrics \<Rightarrow> metrics) \<Rightarrow> 'a node \<Rightarrow> 'a node" where
  "set_metrics f s = s\<lparr>srv := (srv s)\<lparr>metrics := f (metrics (srv s))\<rparr>\<rparr>"

definition set_pool :: "(task pool \<Rightarrow> task pool) \<Rightarrow> 'a node \<Rightarrow> 'a node" where
  "set_pool f s = s\<lparr>srv := (srv s)\<lparr>thread_pool := f (thread_pool (srv s))\<rparr>\<rparr>"

definition request_stop :: "'a node \<Rightarrow> 'a node" where
  "request_stop s = s\<lparr>srv := (srv s)\<lparr>worker_failed := True, shutdown_requested := True\<rparr>\<rparr>"

text \<open>The signal handler, and \<open>TCPServer::stop\<close>.\<close>

definition handle_shutdown_signal :: "'a server \<Rightarrow> 'a server" where
  "handle_shutdown_signal sv = sv\<lparr>shutdown_requested := True\<rparr>"

definition server_stop :: "'a server \<Rightarrow> 'a server" where
  "server_stop sv = sv\<lparr>shutdown_requested := True\<rparr>"

definition put_conn :: "int \<Rightarrow> connection \<Rightarrow> 'a node \<Rightarrow> 'a node" where
  "put_conn fd c s = s\<lparr>conns := conn_put fd c (conns s)\<rparr>"

definition get_conn :: "'a node \<Rightarrow> int \<Rightarrow> connection option" where
  "get_conn s fd = conn_get (conns s) fd"

definition loop_add :: "int \<Rightarrow> events \<Rightarrow> 'a node \<Rightarrow> bool \<times> 'a node" where
  "loop_add fd evs s = (let (ok, l) = add_fd fd evs (loop s) in (ok, s\<lparr>loop := l\<rparr>))"

definition loop_modify :: "int \<Rightarrow> events \<Rightarrow> 'a node \<Rightarrow> bool \<times> 'a node" where
  "loop_modify fd evs s = (let (ok, l) = modify_fd fd evs (loop s) in (ok, s\<lparr>loop := l\<rparr>))"

definition loop_remove :: "int \<Rightarrow> 'a node \<Rightarrow> 'a node" where
  "loop_remove fd s = s\<lparr>loop := snd (remove_fd fd (loop s))\<rparr>"

definition close_fd :: "int \<Rightarrow> 'a node \<Rightarrow> 'a node" where
  "close_fd fd s = s\<lparr>loop := forget_fd fd (loop s), fds_closed := fds_closed s @ [fd]\<rparr>"

text \<open>Appending a response to a connection's outbound buffer and \<open>peer_closed = true\<close>, which
  always go together.\<close>

definition queue_response :: "int \<Rightarrow> connection \<Rightarrow> string \<Rightarrow> 'a node \<Rightarrow> 'a node" where
  "queue_response fd c text s =
     (put_conn fd (c\<lparr>outbound := outbound c @ text, peer_closed := True\<rparr>) s)\<lparr>answers := answers s @ [(generation c, text)]\<rparr>"

section \<open>Closing and flushing a client\<close>

definition close_client :: "int \<Rightarrow> 'a node \<Rightarrow> 'a node" where
  "close_client client_fd s =
     (let s = loop_remove client_fd s;
          s = (if get_conn s client_fd \<noteq> None
               then set_metrics connection_closed (s\<lparr>conns := conn_remove client_fd (conns s)\<rparr>) else s)
      in close_fd client_fd s)"

datatype flush_end = All_sent | Blocked | Send_failed

text \<open>\<open>send\<close> took \<open>n\<close> bytes.\<close>

definition transmit :: "int \<Rightarrow> nat \<Rightarrow> connection \<Rightarrow> 'a node \<Rightarrow> connection \<times> 'a node" where
  "transmit client_fd n c s =
     (let bytes = take n (drop (outbound_offset c) (outbound c));
          c = c\<lparr>outbound_offset := add64 (outbound_offset c) n\<rparr>
      in (c, (put_conn client_fd c s)\<lparr>sent := sent s @ [(generation c, bytes)]\<rparr>))"

text \<open>The loop of \<open>flush_client\<close>: how it ends, the connection and the state.\<close>

fun send_loop :: "send_result list \<Rightarrow> int \<Rightarrow> connection \<Rightarrow> 'a node \<Rightarrow> flush_end \<times> connection \<times> 'a node" where
  "send_loop [] client_fd c s =
     (let s = s\<lparr>net := (net s)\<lparr>sends := []\<rparr>\<rparr> in
      if pending_bytes c = 0 then (All_sent, c, s) else (All_sent, transmit client_fd (pending_bytes c) c s))"
| "send_loop (Sent n # rs) client_fd c s =
     (if pending_bytes c = 0 then (All_sent, c, s\<lparr>net := (net s)\<lparr>sends := Sent n # rs\<rparr>\<rparr>) else
      let bytes_sent = min n (pending_bytes c) in
      if bytes_sent > 0 then (let (c, s) = transmit client_fd bytes_sent c s in send_loop rs client_fd c s)
      else (Send_failed, c, s\<lparr>net := (net s)\<lparr>sends := rs\<rparr>\<rparr>))"
| "send_loop (Send_errno e # rs) client_fd c s =
     (if pending_bytes c = 0 then (All_sent, c, s\<lparr>net := (net s)\<lparr>sends := Send_errno e # rs\<rparr>\<rparr>) else
      if e = EINTR then send_loop rs client_fd c s
      else if e = EAGAIN then (Blocked, c, s\<lparr>net := (net s)\<lparr>sends := rs\<rparr>\<rparr>)
      else (Send_failed, c, s\<lparr>net := (net s)\<lparr>sends := rs\<rparr>\<rparr>))"

definition flush_client :: "int \<Rightarrow> 'a node \<Rightarrow> bool \<times> 'a node" where
  "flush_client client_fd s =
     (case get_conn s client_fd of None \<Rightarrow> (False, s)
      | Some c \<Rightarrow>
         let (ending, c, s) = send_loop (sends (net s)) client_fd c s in
         case ending of
           Blocked \<Rightarrow>
             let (ok, s) = loop_modify client_fd (EPOLLIN OR EPOLLOUT OR EPOLLRDHUP) s in
             if ok then (True, s) else (False, close_client client_fd s)
         | Send_failed \<Rightarrow> (False, close_client client_fd s)
         | All_sent \<Rightarrow>
             let s = put_conn client_fd (c\<lparr>outbound := [], outbound_offset := 0\<rparr>) s in
             if peer_closed c then (False, close_client client_fd s)
             else let (ok, s) = loop_modify client_fd (EPOLLIN OR EPOLLRDHUP) s in
             if ok then (True, s) else (False, close_client client_fd s))"

section \<open>Accepting clients\<close>

definition next_fcntl :: "'a node \<Rightarrow> bool \<times> 'a node" where
  "next_fcntl s = (case fcntls (net s) of [] \<Rightarrow> (True, s) | ok # rs \<Rightarrow> (ok, s\<lparr>net := (net s)\<lparr>fcntls := rs\<rparr>\<rparr>))"

definition set_nonblocking :: "int \<Rightarrow> 'a node \<Rightarrow> bool \<times> 'a node" where
  "set_nonblocking fd s =
     (let (ok, s) = next_fcntl s in if \<not> ok then (False, s) else
      let (ok, s) = next_fcntl s in if \<not> ok then (False, s) else (True, s))"

text \<open>One accepted descriptor: the body of the loop behind \<open>accept\<close>. \<open>ip = None\<close> is a failure of
  \<open>inet_ntop\<close>.\<close>

definition admit_client :: "int \<Rightarrow> string option \<Rightarrow> 'a node \<Rightarrow> 'a node" where
  "admit_client client_fd ip s =
     (case ip of None \<Rightarrow> close_fd client_fd s
      | Some addr \<Rightarrow>
         let (ok, s) = set_nonblocking client_fd s in
         if \<not> ok then close_fd client_fd s else
         let (ok, s) = loop_add client_fd (EPOLLIN OR EPOLLRDHUP) s in
         if \<not> ok then close_fd client_fd s else
         let s = s\<lparr>conns := conn_add client_fd addr (next_generation s) (conns s),
                   next_generation := add64 (next_generation s) 1\<rparr>
         in set_metrics (connection_opened (worker_id s)) s)"

text \<open>\<open>accept\<close> never returns a descriptor that is open: an outcome that names one of this worker's
  open descriptors, or no descriptor at all, is read as a failure.\<close>

definition holds_fd :: "'a node \<Rightarrow> int \<Rightarrow> bool" where
  "holds_fd s fd \<longleftrightarrow> fd < 0 \<or> get_conn s fd \<noteq> None \<or> fd = completion_fd s \<or> fd = listener_fd s \<or> fd = epoll_fd (loop s)"

fun accept_loop :: "accept_result list \<Rightarrow> 'a node \<Rightarrow> 'a node" where
  "accept_loop [] s = s\<lparr>net := (net s)\<lparr>accepts := []\<rparr>\<rparr>"
| "accept_loop (Accept_errno e # rs) s =
     (if shutdown_requested (srv s) then s\<lparr>net := (net s)\<lparr>accepts := Accept_errno e # rs\<rparr>\<rparr>
      else if e = EAGAIN then s\<lparr>net := (net s)\<lparr>accepts := rs\<rparr>\<rparr>
      else if e = EINTR then accept_loop rs s
      else s\<lparr>net := (net s)\<lparr>accepts := rs\<rparr>\<rparr>)"
| "accept_loop (Accepted fd ip # rs) s =
     (if shutdown_requested (srv s) then s\<lparr>net := (net s)\<lparr>accepts := Accepted fd ip # rs\<rparr>\<rparr>
      else if holds_fd s fd then s\<lparr>net := (net s)\<lparr>accepts := rs\<rparr>\<rparr>
      else accept_loop rs (admit_client fd ip (s\<lparr>fds_opened := fds_opened s @ [fd]\<rparr>)))"

definition accept_clients :: "'a node \<Rightarrow> 'a node" where
  "accept_clients s = accept_loop (accepts (net s)) s"

section \<open>Reading requests\<close>

datatype read_next = Read_more | Break_loop | Return_now

text \<open>A malformed request: 400, then close.\<close>

definition reject_request :: "int \<Rightarrow> connection \<Rightarrow> 'a node \<Rightarrow> read_next \<times> 'a node" where
  "reject_request client_fd c s =
     (let s = set_metrics count_parse_error s;
          serialized = response_to_string (plain_response 400 ''Bad Request'' ''Bad Request'') in
      if add64 (pending_bytes c) (length serialized) > max_outbound_bytes
      then (Return_now, close_client client_fd s)
      else (Break_loop, queue_response client_fd c serialized s))"

text \<open>A complete request: dispatch to the pool, or 503 when the pool refuses.\<close>

definition dispatch_request :: "int \<Rightarrow> connection \<Rightarrow> 'a node \<Rightarrow> read_next \<times> 'a node" where
  "dispatch_request client_fd c s =
     (let s = set_metrics (request_started (worker_id s)) s;
          c = c\<lparr>request_in_flight := True\<rparr>;
          s = put_conn client_fd c s;
          (ok, s) = loop_modify client_fd EPOLLRDHUP s in
      if \<not> ok then (Return_now, close_client client_fd s) else
      let s = s\<lparr>outstanding_tasks := add64 (outstanding_tasks s) 1\<rparr>;
          (taken, p) = submit \<lparr>task_worker = worker_id s, task_fd = client_fd, task_generation = generation c,
            task_request = request (parser c), task_ip = client_ip c\<rparr> (thread_pool (srv s));
          s = set_pool (\<lambda>_. p) s in
      if taken then (Break_loop, s) else
      let s = s\<lparr>outstanding_tasks := sub64 (outstanding_tasks s) 1\<rparr>;
          c = c\<lparr>request_in_flight := False\<rparr>;
          overloaded = plain_response 503 ''Service Unavailable'' ''Service Unavailable'';
          s = queue_response client_fd c (response_to_string overloaded) s;
          s = set_metrics (request_completed 503 0 (worker_id s)) s
      in (Break_loop, snd (flush_client client_fd s)))"

text \<open>What the loop does with the bytes of one \<open>read\<close>.\<close>

definition handle_bytes :: "int \<Rightarrow> string \<Rightarrow> 'a node \<Rightarrow> read_next \<times> 'a node" where
  "handle_bytes client_fd bytes s =
     (case get_conn s client_fd of None \<Rightarrow> (Return_now, s)
      | Some c \<Rightarrow>
         let (status, p) = feed (parser c) (inbound c @ bytes);
             c = c\<lparr>parser := p, inbound := []\<rparr>;
             s = (put_conn client_fd c s)\<lparr>received := received s @ [(generation c, bytes)]\<rparr>
         in case status of
              Error \<Rightarrow> reject_request client_fd c s
            | Complete \<Rightarrow> dispatch_request client_fd c s
            | Incomplete \<Rightarrow>
                if error p \<noteq> [] then (Return_now, close_client client_fd s) else (Read_more, s))"

text \<open>The result says whether \<open>handle_client\<close> returns from inside the loop.\<close>

fun read_loop :: "recv_result list \<Rightarrow> int \<Rightarrow> 'a node \<Rightarrow> bool \<times> 'a node" where
  "read_loop [] client_fd s = (False, s\<lparr>net := (net s)\<lparr>recvs := []\<rparr>\<rparr>)"
| "read_loop (Recv_errno e # rs) client_fd s =
     (if e = EAGAIN then (False, s\<lparr>net := (net s)\<lparr>recvs := rs\<rparr>\<rparr>)
      else if e = EINTR then read_loop rs client_fd s
      else (True, close_client client_fd (s\<lparr>net := (net s)\<lparr>recvs := rs\<rparr>\<rparr>)))"
| "read_loop (Received bytes # rs) client_fd s =
     (let s = s\<lparr>net := (net s)\<lparr>recvs := rs\<rparr>\<rparr> in
      if bytes = [] then
        (case get_conn s client_fd of None \<Rightarrow> (False, s)
         | Some c \<Rightarrow> (False, put_conn client_fd (c\<lparr>peer_closed := True\<rparr>) s))
      else
        (case handle_bytes client_fd (take 1024 bytes) s of
           (Read_more, s) \<Rightarrow> read_loop rs client_fd s
         | (Break_loop, s) \<Rightarrow> (False, s)
         | (Return_now, s) \<Rightarrow> (True, s)))"

definition handle_client :: "int \<Rightarrow> 'a node \<Rightarrow> 'a node" where
  "handle_client client_fd s =
     (if get_conn s client_fd = None then s else
      let (returned, s) = read_loop (recvs (net s)) client_fd s in
      if returned then s else
      case get_conn s client_fd of None \<Rightarrow> s
      | Some c \<Rightarrow> if request_in_flight c then s else snd (flush_client client_fd s))"

section \<open>Completions\<close>

definition deliver :: "completion \<Rightarrow> 'a node \<Rightarrow> 'a node" where
  "deliver k s =
     (let s = set_metrics (request_completed (compl_status k) (compl_elapsed k) (worker_id s)) s;
          s = (case get_conn s (compl_fd k) of None \<Rightarrow> s
            | Some c \<Rightarrow>
               if generation c = compl_generation k \<and> request_in_flight c then
                 let c = c\<lparr>request_in_flight := False\<rparr>; s = put_conn (compl_fd k) c s in
                 if add64 (pending_bytes c) (length (serialized_response k)) \<le> max_outbound_bytes
                 then snd (flush_client (compl_fd k) (queue_response (compl_fd k) c (serialized_response k) s))
                 else close_client (compl_fd k) s
               else s)
      in s\<lparr>outstanding_tasks := sub64 (outstanding_tasks s) 1\<rparr>)"

definition process_completions :: "'a node \<Rightarrow> 'a node" where
  "process_completions s =
     (let s = s\<lparr>notifications := 0\<rparr>;
          completed = completions s;
          s = s\<lparr>completions := []\<rparr>;
          s = set_metrics (completion_queue_size (worker_id s) (length (completions s)) []) s
      in fold deliver completed s)"

section \<open>Shutdown\<close>

definition drain_client :: "int \<Rightarrow> 'a node \<Rightarrow> 'a node" where
  "drain_client fd s =
     (case get_conn s fd of None \<Rightarrow> s
      | Some c \<Rightarrow> if request_in_flight c then s
                   else if pending_bytes c \<noteq> 0 then snd (flush_client fd s) else close_client fd s)"

text \<open>\<open>listener_fd\<close> is a reference parameter: its new value is returned.\<close>

definition begin_drain :: "int \<Rightarrow> 'a node \<Rightarrow> int \<times> 'a node" where
  "begin_drain listener s =
     (if draining s then (listener, s) else
      let s = s\<lparr>draining := True\<rparr>;
          s = set_pool begin_shutdown s;
          (listener, s) = (if listener \<noteq> -1 then (-1, close_fd listener (loop_remove listener s)) else (listener, s))
      in (listener, fold drain_client (file_descriptors (conns s)) s))"

section \<open>Events\<close>

text \<open>\<open>handle_event\<close> has its own copy of \<open>listener_fd\<close>: what \<open>begin_drain\<close> assigns to it is lost on
  return.\<close>

definition client_event :: "int \<Rightarrow> events \<Rightarrow> 'a node \<Rightarrow> 'a node" where
  "client_event fd evs s =
     (if has_event evs (EPOLLERR OR EPOLLHUP) then close_client fd s else
      let s = (if has_event evs EPOLLIN then handle_client fd s else s) in
      if has_event evs EPOLLIN \<and> get_conn s fd = None then s else
      let s = (case get_conn s fd of
                 Some c \<Rightarrow> if has_event evs EPOLLRDHUP then put_conn fd (c\<lparr>peer_closed := True\<rparr>) s else s
               | None \<Rightarrow> s);
          s = (if has_event evs EPOLLOUT then snd (flush_client fd s) else s) in
      if has_event evs EPOLLOUT \<and> get_conn s fd = None then s else
      case get_conn s fd of
        Some c \<Rightarrow> if \<not> request_in_flight c \<and> peer_closed c \<and> pending_bytes c = 0 then close_client fd s else s
      | None \<Rightarrow> s)"

definition handle_event :: "int \<Rightarrow> events \<Rightarrow> 'a node \<Rightarrow> 'a node" where
  "handle_event fd evs s =
     (let (listener, s) = (if shutdown_requested (srv s) \<and> \<not> draining s
                           then begin_drain (listener_fd s) s else (listener_fd s, s)) in
      if fd = completion_fd s then process_completions s
      else if fd \<noteq> listener \<and> get_conn s fd = None then s
      else if fd = listener then
        if draining s then s
        else if has_event evs (EPOLLERR OR EPOLLHUP) then request_stop s
        else if has_event evs EPOLLIN then accept_clients s else s
      else client_event fd evs s)"

text \<open>The two other callbacks that \<open>worker_loop\<close> passes to \<open>EpollLoop::run\<close>.\<close>

definition on_iteration :: "'a node \<Rightarrow> 'a node" where
  "on_iteration s =
     (let s = process_completions s;
          s = (if shutdown_requested (srv s)
               then (let (listener, s) = begin_drain (listener_fd s) s in s\<lparr>listener_fd := listener\<rparr>) else s)
      in if draining s then fold drain_client (file_descriptors (conns s)) s else s)"

definition should_stop :: "'a node \<Rightarrow> bool" where
  "should_stop s \<longleftrightarrow> draining s \<and> outstanding_tasks s = 0 \<and> conn_count (conns s) = 0"

section \<open>The task\<close>

text \<open>What a pool thread runs for a request, in two steps: routing, and the push of the completion
  under the mutex; then the write to the eventfd, which a full counter refuses. The clock readings
  \<open>created\<close>, \<open>now\<close> and \<open>elapsed\<close> are parameters, as is \<open>seen\<close> (what the compare-and-swap of the
  metrics meets).\<close>

definition respond :: "int \<Rightarrow> int \<Rightarrow> task \<Rightarrow> 'a server \<Rightarrow> http_response \<times> 'a server" where
  "respond created now t sv =
     (let (res, r, v) = route created now (task_request t) (task_ip t) (router sv) (metrics sv, thread_pool sv, app sv);
          sv = sv\<lparr>router := r, app := snd (snd v)\<rparr>
      in case res of Inr response \<Rightarrow> (response, sv)
         | Inl _ \<Rightarrow> (plain_response 500 ''Internal Server Error'' ''Internal Server Error'', sv))"

definition push_completion :: "task \<Rightarrow> http_response \<Rightarrow> real \<Rightarrow> nat option list \<Rightarrow> 'a node \<Rightarrow> 'a node" where
  "push_completion t response elapsed seen s =
     (let s = s\<lparr>completions := completions s @ [\<lparr>compl_fd = task_fd t, compl_generation = task_generation t,
            serialized_response = response_to_string response, compl_status = status_code response,
            compl_elapsed = elapsed\<rparr>]\<rparr>
      in set_metrics (completion_queue_size (worker_id s) (length (completions s)) seen) s)"

definition notify_loop :: "loop_state \<Rightarrow> loop_state" where
  "notify_loop l = l\<lparr>notifications := (if notifications l < 2 ^ 64 - 2 then notifications l + 1 else notifications l)\<rparr>"

section \<open>The worker thread\<close>

text \<open>The outcomes of the calls that set a worker up; \<open>-1\<close> is a failure.\<close>

record setup_calls =
  socket_result :: int
  reuseaddr_ok :: bool
  reuseport_ok :: bool
  bind_ok :: "16 word \<Rightarrow> bool"
  listen_ok :: "int \<Rightarrow> bool"
  epoll_create_result :: int
  eventfd_result :: int

definition new_node :: "net \<Rightarrow> 'a server \<Rightarrow> 'a node" where
  "new_node nt sv = \<lparr>completion_fd = -1, completions = [], outstanding_tasks = 0, next_generation = 1, worker_id = 0,
     draining = False, listener_fd = -1, loop = new_epoll (-1) [], conns = [], notifications = 0, net = nt,
     fds_opened = [], fds_closed = [], received = [], answers = [], sent = [], srv = sv\<rparr>"

definition create_reuseport_listener :: "setup_calls \<Rightarrow> int \<Rightarrow> int \<Rightarrow> 'a node \<Rightarrow> int \<times> 'a node" where
  "create_reuseport_listener u port backlog s =
     (let fd = socket_result u in
      if fd = -1 then (-1, s) else
      let s = s\<lparr>fds_opened := fds_opened s @ [fd]\<rparr> in
      if \<not> reuseaddr_ok u \<or> \<not> reuseport_ok u then (-1, close_fd fd s)
      else if \<not> bind_ok u (word_of_int port) then (-1, close_fd fd s)
      else if \<not> listen_ok u backlog then (-1, close_fd fd s)
      else let (ok, s) = set_nonblocking fd s in
      if \<not> ok then (-1, close_fd fd s) else (fd, s))"

text \<open>Leaving \<open>worker_loop\<close> destroys the \<open>EpollLoop\<close>, which closes its descriptor.\<close>

definition destroy_loop :: "'a node \<Rightarrow> 'a node" where
  "destroy_loop s = (if epoll_fd (loop s) \<noteq> -1 then close_fd (epoll_fd (loop s)) s else s)"

text \<open>\<open>worker_loop\<close> up to \<open>loop.run\<close>; the flag says whether it gets there.\<close>

definition worker_setup :: "setup_calls \<Rightarrow> bool list \<Rightarrow> int \<Rightarrow> int \<Rightarrow> nat \<Rightarrow> 'a node \<Rightarrow> bool \<times> 'a node" where
  "worker_setup u cs port backlog w s =
     (let (listener, s) = create_reuseport_listener u port backlog s in
      if listener = -1 then (False, request_stop s) else
      let s = s\<lparr>listener_fd := listener, loop := new_epoll (epoll_create_result u) cs, worker_id := w,
                completion_fd := eventfd_result u,
                fds_opened := fds_opened s @ (if epoll_create_result u = -1 then [] else [epoll_create_result u])\<rparr> in
      if completion_fd s = -1 then (False, destroy_loop (request_stop (close_fd listener s))) else
      let s = s\<lparr>fds_opened := fds_opened s @ [completion_fd s]\<rparr>;
          (ok, s) = loop_add (completion_fd s) EPOLLIN s in
      if \<not> ok then (False, destroy_loop (request_stop (close_fd listener (close_fd (completion_fd s) s)))) else
      let (ok, s) = loop_add listener EPOLLIN s in
      if \<not> ok then (False, destroy_loop (request_stop (close_fd listener (close_fd (completion_fd s) s)))) else
      (True, s))"

text \<open>\<open>worker_loop\<close> behind \<open>loop.run\<close>.\<close>

definition worker_exit :: "bool \<Rightarrow> 'a node \<Rightarrow> 'a node" where
  "worker_exit loop_completed s =
     (let s = (if \<not> loop_completed \<and> \<not> shutdown_requested (srv s) then request_stop s else s);
          s = (if listener_fd s \<noteq> -1 then close_fd (listener_fd s) s else s);
          s = close_fd (completion_fd s) s
      in destroy_loop s)"

text \<open>The whole function over the outcomes of \<open>epoll_wait\<close>; the flag says whether it returned.\<close>

definition worker_loop :: "setup_calls \<Rightarrow> bool list \<Rightarrow> int \<Rightarrow> int \<Rightarrow> nat \<Rightarrow>
    (wait_result \<times> ('a node \<Rightarrow> 'a node)) list \<Rightarrow> 'a node \<Rightarrow> bool \<times> 'a node" where
  "worker_loop u cs port backlog w ws s =
     (let (ok, s) = worker_setup u cs port backlog w s in
      if \<not> ok then (True, s) else
      case run handle_event on_iteration should_stop (loop s) ws s of
        (None, s) \<Rightarrow> (False, s)
      | (Some loop_completed, s) \<Rightarrow> (True, worker_exit loop_completed s))"

end
