(* ===== verification/Tcp_Effects.thy ===== *)
theory Tcp_Effects
  imports Tcp_Server
begin

text \<open>
  The operations of one epoll worker as sequences of small effects on its state. Every handler of
  \<open>Tcp_Server\<close> is shown to be such a sequence (\<open>handle_event_effects\<close>, \<open>on_iteration_effects\<close>), so
  an invariant of the effects is an invariant of the handlers.
\<close>

section \<open>Effects\<close>

definition quiet :: "'a node \<Rightarrow> 'a node \<Rightarrow> bool" where
  "quiet s s' \<longleftrightarrow> completion_fd s' = completion_fd s \<and> completions s' = completions s \<and>
     (outstanding_tasks s < 2 ^ 64 \<longrightarrow> outstanding_tasks s' = outstanding_tasks s) \<and> next_generation s' = next_generation s \<and>
     worker_id s' = worker_id s \<and> draining s' = draining s \<and> (draining s \<or> listener_fd s' = listener_fd s) \<and>
     dom (interest (loop s')) = dom (interest (loop s)) \<and> epoll_fd (loop s') = epoll_fd (loop s) \<and>
     conns s' = conns s \<and> fds_opened s' = fds_opened s \<and> fds_closed s' = fds_closed s \<and>
     received s' = received s \<and> answers s' = answers s \<and> sent s' = sent s \<and>
     thread_pool (srv s') = thread_pool (srv s) \<and> (shutdown_requested (srv s) \<longrightarrow> shutdown_requested (srv s')) \<and>
     (worker_failed (srv s) \<longrightarrow> worker_failed (srv s')) \<and> router (srv s') = router (srv s) \<and> app (srv s') = app (srv s) \<and>
     open_connections (metrics (srv s')) = open_connections (metrics (srv s))"

definition bad_request_text :: string where
  "bad_request_text = response_to_string (plain_response 400 ''Bad Request'' ''Bad Request'')"

definition overloaded_text :: string where
  "overloaded_text = response_to_string (plain_response 503 ''Service Unavailable'' ''Service Unavailable'')"

definition take_bytes :: "int \<Rightarrow> connection \<Rightarrow> string \<Rightarrow> 'a node \<Rightarrow> 'a node" where
  "take_bytes fd c bytes s = (put_conn fd (c\<lparr>parser := snd (feed (parser c) (inbound c @ bytes)), inbound := []\<rparr>) s)
     \<lparr>received := received s @ [(generation c, bytes)]\<rparr>"

definition request_task :: "'a node \<Rightarrow> int \<Rightarrow> connection \<Rightarrow> task" where
  "request_task s fd c = \<lparr>task_worker = worker_id s, task_fd = fd, task_generation = generation c,
     task_request = request (parser c), task_ip = client_ip c\<rparr>"

definition start_task :: "int \<Rightarrow> connection \<Rightarrow> 'a node \<Rightarrow> 'a node" where
  "start_task fd c s = set_pool (\<lambda>p. snd (submit (request_task s fd c) p))
     (put_conn fd (c\<lparr>request_in_flight := True\<rparr>) (s\<lparr>outstanding_tasks := add64 (outstanding_tasks s) 1\<rparr>))"

definition stop_accepting :: "'a node \<Rightarrow> 'a node" where
  "stop_accepting s = (let s = set_pool begin_shutdown (s\<lparr>draining := True\<rparr>) in
     if listener_fd s \<noteq> -1 then close_fd (listener_fd s) (loop_remove (listener_fd s) s) else s)"

definition fully_sent :: "connection \<Rightarrow> bool" where
  "fully_sent c \<longleftrightarrow> (outbound_offset c \<le> length (outbound c) \<longrightarrow> length (outbound c) < 2 ^ 64 \<longrightarrow>
     outbound_offset c = length (outbound c))"

text \<open>\<open>refuse\<close> and \<open>admit\<close> are the two fates of an accepted descriptor; \<open>settle\<close> takes a
  completion out of the queue once no connection waits for it.\<close>

inductive effect :: "'a node \<Rightarrow> 'a node \<Rightarrow> bool" where
  tick: "quiet s s' \<Longrightarrow> effect s s'"
| mark: "get_conn s fd = Some c \<Longrightarrow> effect s (put_conn fd (c\<lparr>peer_closed := True\<rparr>) s)"
| receive: "get_conn s fd = Some c \<Longrightarrow> effect s (take_bytes fd c bytes s)"
| refusal: "get_conn s fd = Some c \<Longrightarrow> msg = bad_request_text \<or> msg = overloaded_text \<Longrightarrow>
    c' = c \<or> c' = c\<lparr>request_in_flight := False\<rparr> \<Longrightarrow> effect s (queue_response fd c' msg s)"
| answer: "get_conn s (compl_fd k) = Some c \<Longrightarrow> k \<in> set (completions s) \<Longrightarrow> generation c = compl_generation k \<Longrightarrow>
    effect s (queue_response (compl_fd k) (c\<lparr>request_in_flight := False\<rparr>) (serialized_response k) s)"
| transmitted: "get_conn s fd = Some c \<Longrightarrow> n \<le> pending_bytes c \<Longrightarrow> effect s (snd (transmit fd n c s))"
| clear: "get_conn s fd = Some c \<Longrightarrow> fully_sent c \<Longrightarrow> effect s (put_conn fd (c\<lparr>outbound := [], outbound_offset := 0\<rparr>) s)"
| close: "get_conn s fd \<noteq> None \<Longrightarrow> effect s (close_client fd s)"
| refuse: "\<not> holds_fd s fd \<Longrightarrow> effect s (s\<lparr>fds_opened := fds_opened s @ [fd], fds_closed := fds_closed s @ [fd],
    loop := forget_fd fd (loop s)\<rparr>)"
| admit: "\<not> holds_fd s fd \<Longrightarrow> fst (loop_add fd ev s) \<Longrightarrow>
    effect s (set_metrics (connection_opened (worker_id s)) (s\<lparr>fds_opened := fds_opened s @ [fd],
      loop := snd (add_fd fd ev (loop s)),
      conns := conn_add fd ip (next_generation s) (conns s), next_generation := add64 (next_generation s) 1\<rparr>))"
| dispatch: "get_conn s fd = Some c \<Longrightarrow> complete (parser c) \<Longrightarrow> fst (submit (request_task s fd c) (thread_pool (srv s))) \<Longrightarrow>
    effect s (start_task fd c s)"
| settle: "completions s = k # ks \<Longrightarrow>
    (\<And>c. get_conn s (compl_fd k) = Some c \<Longrightarrow> generation c = compl_generation k \<Longrightarrow> \<not> request_in_flight c) \<Longrightarrow>
    effect s (s\<lparr>completions := ks, outstanding_tasks := sub64 (outstanding_tasks s) 1\<rparr>)"
| stop: "\<not> draining s \<Longrightarrow> effect s (stop_accepting s)"

abbreviation effects :: "'a node \<Rightarrow> 'a node \<Rightarrow> bool" where
  "effects \<equiv> effect\<^sup>*\<^sup>*"

lemma effectsI: "effect s s' \<Longrightarrow> effects s s'" by blast

lemma tick_effects: "quiet s s' \<Longrightarrow> effects s s'" by (blast intro: tick)

section \<open>Frames\<close>

lemma get_conn_simps [simp]:
  "get_conn (put_conn fd c s) = (get_conn s)(fd \<mapsto> c)"
  "get_conn (set_metrics f s) = get_conn s" "get_conn (set_pool g s) = get_conn s"
  "get_conn (request_stop s) = get_conn s" "get_conn (close_fd fd s) = get_conn s" "get_conn (loop_remove fd s) = get_conn s"
  "get_conn (s\<lparr>net := nt\<rparr>) = get_conn s" "get_conn (s\<lparr>completions := ks\<rparr>) = get_conn s"
  "get_conn (s\<lparr>outstanding_tasks := k\<rparr>) = get_conn s" "get_conn (s\<lparr>notifications := k\<rparr>) = get_conn s"
  "get_conn (s\<lparr>listener_fd := fd\<rparr>) = get_conn s" "get_conn (s\<lparr>draining := b\<rparr>) = get_conn s"
  "get_conn (s\<lparr>loop := l\<rparr>) = get_conn s" "get_conn (s\<lparr>received := r\<rparr>) = get_conn s"
  "get_conn (s\<lparr>answers := r\<rparr>) = get_conn s" "get_conn (s\<lparr>sent := r\<rparr>) = get_conn s"
  "get_conn (s\<lparr>fds_opened := fs\<rparr>) = get_conn s"
  "get_conn (queue_response fd c text s) = (get_conn s)(fd \<mapsto> c\<lparr>outbound := outbound c @ text, peer_closed := True\<rparr>)"
  "get_conn (snd (transmit fd n c s)) = (get_conn s)(fd \<mapsto> fst (transmit fd n c s))"
  "get_conn (snd (loop_modify fd ev s)) = get_conn s"
  "get_conn (take_bytes fd c bytes s) = (get_conn s)(fd \<mapsto> c\<lparr>parser := snd (feed (parser c) (inbound c @ bytes)), inbound := []\<rparr>)"
  by (auto simp: get_conn_def put_conn_def set_metrics_def set_pool_def request_stop_def close_fd_def loop_remove_def
      queue_response_def transmit_def loop_modify_def take_bytes_def table.get_put fun_eq_iff Let_def split_beta)

lemma get_conn_close [simp]: "get_conn (close_client fd s) = (get_conn s)(fd := None)"
proof (cases "get_conn s fd = None")
  case False
  then show ?thesis
    by (simp add: close_client_def Let_def) (simp add: get_conn_def set_metrics_def loop_remove_def table.get_remove fun_eq_iff)
qed (auto simp: close_client_def Let_def fun_eq_iff)

lemma put_conn_put [simp]: "put_conn fd c (put_conn fd c' s) = put_conn fd c s"
  by (simp add: put_conn_def conn_put_def)

lemma transmit_keeps [simp]:
  "generation (fst (transmit fd n c s)) = generation c" "request_in_flight (fst (transmit fd n c s)) = request_in_flight c"
  "peer_closed (fst (transmit fd n c s)) = peer_closed c" "outbound (fst (transmit fd n c s)) = outbound c"
  by (simp_all add: transmit_def Let_def)

lemma quiet_net [simp]: "quiet s (s\<lparr>net := n\<rparr>)" by (simp add: quiet_def)

lemma quiet_modify [simp]: "quiet s (snd (loop_modify fd ev s))"
  by (simp add: quiet_def loop_modify_def split_beta)

lemma quiet_fcntl [simp]: "quiet s (snd (next_fcntl s))"
  by (auto simp: quiet_def next_fcntl_def split: list.split)

lemma update_worker_open [simp]: "open_connections (update_worker w f m) = open_connections m"
  by (simp add: update_worker_def)

lemma quiet_metrics:
  "quiet s (set_metrics count_parse_error s)" "quiet s (set_metrics (request_started w) s)"
  "quiet s (set_metrics (request_completed code d w) s)" "quiet s (set_metrics (completion_queue_size w n seen) s)"
  by (simp_all add: quiet_def set_metrics_def metrics_ops)

lemma put_close:
  assumes "get_conn s fd \<noteq> None"
  shows "close_client fd (put_conn fd c s) = close_client fd s"
proof -
  have "conn_remove fd (conn_put fd c cs) = conn_remove fd cs" for cs
    by (simp add: conn_remove_def conn_put_def update_conv' delete_update_same)
  with assms show ?thesis
    by (simp add: close_client_def Let_def) (simp add: put_conn_def loop_remove_def set_metrics_def close_fd_def)
qed

section \<open>Flushing\<close>

lemma fully_sentI: "pending_bytes c = 0 \<Longrightarrow> fully_sent c"
  by (auto simp: fully_sent_def pending_exact)

lemma fully_sent_transmit: "fully_sent (fst (transmit fd (pending_bytes c) c s))"
  by (auto simp: fully_sent_def transmit_def Let_def pending_all [simplified])

definition flushed :: "connection \<Rightarrow> connection \<Rightarrow> bool" where
  "flushed c c' \<longleftrightarrow> generation c' = generation c \<and> request_in_flight c' = request_in_flight c \<and> peer_closed c' = peer_closed c"

lemma flushed_refl [simp]: "flushed c c" by (simp add: flushed_def)

lemma flushed_trans: "flushed b c \<Longrightarrow> flushed a b \<Longrightarrow> flushed a c" by (simp add: flushed_def)

lemma flushed_transmit [simp]: "flushed c (fst (transmit fd n c s))" by (simp add: flushed_def)

lemma send_loop_effects:
  assumes "get_conn s fd = Some c" and "send_loop rs fd c s = (e, c', s')"
  shows "effects s s' \<and> get_conn s' = (get_conn s)(fd \<mapsto> c') \<and> flushed c c' \<and> (e = All_sent \<longrightarrow> fully_sent c')"
  using assms
proof (induction rs arbitrary: c s)
  case Nil
  let ?s = "s\<lparr>net := (net s)\<lparr>sends := []\<rparr>\<rparr>"
  have "effects s ?s" by (rule tick_effects) simp
  moreover have "effects ?s (snd (transmit fd (pending_bytes c) c ?s))" using Nil by (auto intro!: effectsI transmitted)
  ultimately show ?case
    using Nil fully_sent_transmit [of fd c ?s] get_conn_simps(19) [of fd "pending_bytes c" c ?s]
      flushed_transmit [of c fd "pending_bytes c" ?s]
    by (auto simp: Let_def fully_sentI fun_upd_idem simp del: get_conn_simps(19) flushed_transmit intro: rtranclp_trans split: if_splits)
next
  case (Cons r rs)
  have same: "(get_conn s)(fd \<mapsto> c) = get_conn s" using Cons.prems by (simp add: fun_upd_idem)
  have still: "effects s (s\<lparr>net := n\<rparr>)" for n by (rule tick_effects) simp
  show ?case
  proof (cases "pending_bytes c = 0")
    case True
    then show ?thesis using Cons.prems still by (cases r) (auto simp: fully_sentI same)
  next
    case busy: False
    show ?thesis
    proof (cases r)
      case (Sent n)
      define k where "k = min n (pending_bytes c)"
      obtain d t where t: "transmit fd k c s = (d, t)" by fastforce
      have k: "send_loop (r # rs) fd c s = (if k > 0 then send_loop rs fd d t else (Send_failed, c, s\<lparr>net := (net s)\<lparr>sends := rs\<rparr>\<rparr>))"
        using busy t by (simp add: Sent k_def Let_def)
      have "effects s t" using transmitted [OF Cons.prems(1), of k] t by (auto simp: k_def)
      moreover have gt: "get_conn t = (get_conn s)(fd \<mapsto> d)" "flushed c d"
        using get_conn_simps(19) [of fd k c s] flushed_transmit [of c fd k s] t by auto
      moreover have "get_conn t fd = Some d" using gt by simp
      ultimately have "?thesis" if "k > 0"
        using Cons.IH [of t d] Cons.prems(2) that by (auto simp: k intro: rtranclp_trans flushed_trans)
      moreover have ?thesis if "\<not> k > 0"
      proof -
        have "e = Send_failed" "c' = c" "s' = s\<lparr>net := (net s)\<lparr>sends := rs\<rparr>\<rparr>" using Cons.prems(2) k that by auto
        then show ?thesis using still by (simp add: same)
      qed
      ultimately show ?thesis by blast
    next
      case (Send_errno err)
      then show ?thesis using Cons busy still by (auto simp: same split: if_splits)
    qed
  qed
qed

lemma modify_effects: "effects s (snd (loop_modify fd ev s))" by (rule tick_effects) simp

lemma close_effects: "get_conn s fd \<noteq> None \<Longrightarrow> effects s (close_client fd s)" by (intro effectsI effect.close)

lemma modify_or_close:
  assumes "get_conn s fd \<noteq> None"
    and t_def: "t = snd (let (ok, s) = loop_modify fd ev s in if ok then (True, s) else (False, close_client fd s))"
  shows "effects s t \<and> (get_conn t fd' = Some c' \<longrightarrow> get_conn s fd' = Some c')"
proof -
  have "effects s (close_client fd (snd (loop_modify fd ev s)))"
    using assms by (intro rtranclp_trans [OF modify_effects close_effects]) simp
  then show ?thesis by (auto simp: t_def split_beta modify_effects split: if_splits)
qed

lemma flush_effects_get:
  "effects s (snd (flush_client fd s)) \<and>
   (get_conn (snd (flush_client fd s)) fd' = Some c' \<longrightarrow> (\<exists>c. get_conn s fd' = Some c \<and> flushed c c'))"
proof (cases "get_conn s fd")
  case (Some c)
  obtain e d t where l: "send_loop (sends (net s)) fd c s = (e, d, t)" using prod_cases3 by blast
  note lp = send_loop_effects [OF Some l]
  then have t: "get_conn t fd \<noteq> None" by simp
  let ?u = "put_conn fd (d\<lparr>outbound := [], outbound_offset := 0\<rparr>) t"
  have u: "get_conn ?u fd \<noteq> None" by simp
  have tu: "e = All_sent \<Longrightarrow> effects t ?u" using lp by (auto intro!: effectsI clear)
  have gt: "get_conn t fd' = Some c' \<Longrightarrow> \<exists>c. get_conn s fd' = Some c \<and> flushed c c'"
    and gu: "get_conn ?u fd' = Some c' \<Longrightarrow> \<exists>c. get_conn s fd' = Some c \<and> flushed c c'"
    using lp Some by (auto simp: flushed_def split: if_splits)
  show ?thesis
  proof (cases e)
    case All_sent
    have "effects s ?u" using lp tu All_sent by (blast intro: rtranclp_trans)
    then show ?thesis
      using modify_or_close [OF u refl, of "EPOLLIN OR EPOLLRDHUP" fd' c'] close_effects [OF u] gu Some All_sent
      by (auto simp: flush_client_def l Let_def simp del: get_conn_simps(1) intro: rtranclp_trans split: if_splits)
  next
    case Blocked
    then show ?thesis using modify_or_close [OF t refl, of "EPOLLIN OR EPOLLOUT OR EPOLLRDHUP" fd' c'] lp gt Some
      by (auto simp: flush_client_def l Let_def simp del: get_conn_simps(1) intro: rtranclp_trans)
  next
    case Send_failed
    then show ?thesis using close_effects [OF t] lp gt Some
      by (auto simp: flush_client_def l Let_def intro: rtranclp_trans split: if_splits)
  qed
qed (simp add: flush_client_def)

lemmas flush_effects = flush_effects_get [THEN conjunct1]
lemmas flush_get = flush_effects_get [THEN conjunct2, rule_format]

section \<open>Accepting\<close>

lemma nonblocking_net: "\<exists>n. snd (set_nonblocking fd s) = s\<lparr>net := n\<rparr>"
proof -
  have fc: "\<exists>n. snd (next_fcntl t) = t\<lparr>net := n\<rparr>" for t :: "'a node"
    by (cases "fcntls (net t)") (auto simp: next_fcntl_def intro: exI [of _ "net t"])
  from fc [of s] obtain n where n: "snd (next_fcntl s) = s\<lparr>net := n\<rparr>" by blast
  from fc [of "s\<lparr>net := n\<rparr>"] n show ?thesis
    by (auto simp: set_nonblocking_def split_beta Let_def)
qed

lemma holds_fd_net [simp]: "holds_fd (s\<lparr>net := n\<rparr>) fd = holds_fd s fd"
  by (simp add: holds_fd_def)

lemma admit_effects:
  assumes free: "\<not> holds_fd s fd"
  shows "effects s (admit_client fd ip (s\<lparr>fds_opened := fds_opened s @ [fd]\<rparr>))"
proof (cases ip)
  case None
  have "close_fd fd (s\<lparr>fds_opened := fds_opened s @ [fd]\<rparr>) = s\<lparr>fds_opened := fds_opened s @ [fd],
    fds_closed := fds_closed s @ [fd], loop := forget_fd fd (loop s)\<rparr>" by (simp add: close_fd_def)
  then show ?thesis using effectsI [OF refuse [OF free]] None by (simp add: admit_client_def)
next
  case (Some addr)
  obtain n where n: "snd (set_nonblocking fd (s\<lparr>fds_opened := fds_opened s @ [fd]\<rparr>)) =
    s\<lparr>fds_opened := fds_opened s @ [fd], net := n\<rparr>" using nonblocking_net by blast
  let ?ev = "EPOLLIN OR EPOLLRDHUP" and ?o = "s\<lparr>fds_opened := fds_opened s @ [fd], net := n\<rparr>"
  let ?s = "s\<lparr>net := n\<rparr>" and ?l = "snd (add_fd fd ?ev (loop s))"
  have sn: "effects s ?s" by (rule tick_effects) simp
  have free1: "\<not> holds_fd ?s fd" and free2: "\<not> holds_fd (?s\<lparr>loop := ?l\<rparr>) fd" using free by (simp_all add: holds_fd_def)
  have "effect ?s (close_fd fd ?o)"
    by (rule back_subst [of "effect ?s", OF refuse [OF free1]]) (simp add: close_fd_def)
  moreover have "effects ?s (close_fd fd (?o\<lparr>loop := ?l\<rparr>))" if "\<not> fst (add_fd fd ?ev (loop s))"
  proof -
    have "effect ?s (?s\<lparr>loop := ?l\<rparr>)" using that by (intro tick) (simp add: quiet_def interest_add)
    moreover have "effect (?s\<lparr>loop := ?l\<rparr>) (close_fd fd (?o\<lparr>loop := ?l\<rparr>))"
      by (rule back_subst [of "effect (?s\<lparr>loop := ?l\<rparr>)", OF refuse [OF free2]]) (simp add: close_fd_def)
    ultimately show ?thesis by simp
  qed
  moreover have "effect ?s (set_metrics (connection_opened (worker_id s)) (?o\<lparr>loop := ?l,
      conns := conn_add fd addr (next_generation s) (conns s), next_generation := add64 (next_generation s) 1\<rparr>))"
    if "fst (add_fd fd ?ev (loop s))"
  proof -
    have "fst (loop_add fd ?ev ?s)" using that by (simp add: loop_add_def split_beta)
    from effect.admit [OF free1 this, of addr] show ?thesis
      by (rule back_subst [of "effect ?s"]) (simp add: set_metrics_def)
  qed
  ultimately have "effects ?s (admit_client fd ip (s\<lparr>fds_opened := fds_opened s @ [fd]\<rparr>))"
    using n Some by (auto simp: admit_client_def Let_def split_beta loop_add_def)
  then show ?thesis using sn by (blast intro: rtranclp_trans)
qed

lemma accept_loop_effects: "effects s (accept_loop rs s)"
proof (induction rs arbitrary: s)
  case Nil
  then show ?case by (auto intro: tick_effects)
next
  case (Cons r rs)
  then show ?case by (cases r) (auto intro: tick_effects rtranclp_trans [OF admit_effects])
qed

lemma accept_effects: "effects s (accept_clients s)"
  by (simp add: accept_clients_def accept_loop_effects)

section \<open>Reading\<close>

lemma metrics_effects:
  "effects s (set_metrics count_parse_error s)" "effects s (set_metrics (request_started w) s)"
  "effects s (set_metrics (request_completed code d w) s)" "effects s (set_metrics (completion_queue_size w n seen) s)"
  by (rule tick_effects, rule quiet_metrics)+

lemma reject_effects:
  assumes c: "get_conn s fd = Some c"
  shows "effects s (snd (reject_request fd c s))"
proof -
  let ?s = "set_metrics count_parse_error s"
  have "effects ?s (close_client fd ?s)" using c by (intro close_effects) simp
  moreover have "effects ?s (queue_response fd c bad_request_text ?s)" using c by (intro effectsI refusal) auto
  ultimately show ?thesis
    by (auto simp: reject_request_def bad_request_text_def Let_def intro: rtranclp_trans [OF metrics_effects(1)])
qed

lemma loop_modify_put: "loop_modify fd ev (put_conn fd' c s) = (fst (loop_modify fd ev s), put_conn fd' c (snd (loop_modify fd ev s)))"
  by (simp add: loop_modify_def put_conn_def split_beta)

lemma sub64_add64: "n < 2 ^ 64 \<Longrightarrow> sub64 (add64 n 1) 1 = n"
proof -
  assume "n < 2 ^ 64"
  then have "int (sub64 (add64 n 1) 1) = int n"
    unfolding sub64_count by (simp add: add64_def zmod_int mod_simps)
  then show ?thesis by simp
qed

lemma overload_effects:
  assumes c: "get_conn s fd = Some c"
  shows "effects s (snd (flush_client fd (set_metrics (request_completed 503 0 w)
    (queue_response fd (c\<lparr>request_in_flight := False\<rparr>) overloaded_text
      (s\<lparr>outstanding_tasks := sub64 (add64 (outstanding_tasks s) 1) 1\<rparr>)))))"
proof -
  let ?t = "s\<lparr>outstanding_tasks := sub64 (add64 (outstanding_tasks s) 1) 1\<rparr>"
  have "effects s ?t" by (rule tick_effects) (simp add: quiet_def sub64_add64 [simplified])
  also have "effects ?t (queue_response fd (c\<lparr>request_in_flight := False\<rparr>) overloaded_text ?t)"
    using c by (intro effectsI refusal) auto
  finally show ?thesis using metrics_effects(3) flush_effects by (meson rtranclp_trans)
qed

lemma dispatch_effects:
  assumes c: "get_conn s fd = Some c" and cp: "complete (parser c)"
  shows "effects s (snd (dispatch_request fd c s))"
proof -
  let ?m = "loop_modify fd EPOLLRDHUP (set_metrics (request_started (worker_id s)) s)"
  let ?c = "c\<lparr>request_in_flight := True\<rparr>"
  obtain ok s1 where m: "?m = (ok, s1)" by fastforce
  have s1: "effects s s1" and g: "get_conn s1 = get_conn s"
    using rtranclp_trans [OF metrics_effects(2) modify_effects, of s fd EPOLLRDHUP "worker_id s"]
      get_conn_simps(20) [of fd EPOLLRDHUP "set_metrics (request_started (worker_id s)) s"] m by simp_all
  have id: "worker_id s1 = worker_id s" using m by (auto simp: loop_modify_def set_metrics_def split_beta)
  let ?sub = "submit (request_task s1 fd c) (thread_pool (srv s1))"
  have "effects s1 (close_client fd (put_conn fd ?c s1))" using g c by (simp add: put_close close_effects)
  moreover have "effects s1 (start_task fd c s1)" if "fst ?sub" using that g c cp by (intro effectsI dispatch) simp_all
  moreover have "effects s1 (snd (flush_client fd (set_metrics (request_completed 503 0 (worker_id s))
    (queue_response fd (c\<lparr>request_in_flight := False\<rparr>) overloaded_text
      (s1\<lparr>outstanding_tasks := sub64 (add64 (outstanding_tasks s1) 1) 1\<rparr>)))))" using g c by (intro overload_effects) simp
  moreover have "snd (dispatch_request fd c s) = (if \<not> ok then close_client fd (put_conn fd ?c s1)
    else if fst ?sub then start_task fd c s1
    else snd (flush_client fd (set_metrics (request_completed 503 0 (worker_id s))
      (queue_response fd (c\<lparr>request_in_flight := False\<rparr>) overloaded_text
        (s1\<lparr>outstanding_tasks := sub64 (add64 (outstanding_tasks s1) 1) 1\<rparr>)))))"
    using id by (simp add: dispatch_request_def loop_modify_put m Let_def split_beta)
      (simp add: request_task_def submit_def start_task_def set_pool_def put_conn_def overloaded_text_def queue_response_def
        set_metrics_def conn_put_def)
  ultimately show ?thesis using s1 by (auto intro: rtranclp_trans)
qed

lemma feed_completes: "fst (feed p b) = Complete \<longleftrightarrow> complete (snd (feed p b))"
proof (cases "complete p \<or> parse_error p \<noteq> [] \<or> length (buffer p) > add64 (max_header_bytes p) (max_body_bytes p) \<or>
    length b > sub64 (add64 (max_header_bytes p) (max_body_bytes p)) (length (buffer p))")
  case True
  then show ?thesis by (auto simp: feed_def fail_def Let_def)
next
  case False
  obtain st q where q: "parse_buffer (p\<lparr>buffer := buffer p @ b\<rparr>) = (st, q)" by fastforce
  then show ?thesis using parse_buffer_grow [OF _ _ q, of "[]"] False by (simp add: feed_def Let_def split: if_splits)
qed

lemma handle_bytes_effects: "effects s (snd (handle_bytes fd bytes s))"
proof (cases "get_conn s fd")
  case (Some c)
  define d where "d = c\<lparr>parser := snd (feed (parser c) (inbound c @ bytes)), inbound := []\<rparr>"
  let ?t = "take_bytes fd c bytes s"
  have t: "effects s ?t" and d: "get_conn ?t fd = Some d" using Some by (auto simp: d_def intro!: effectsI receive)
  have "effects ?t (snd (dispatch_request fd d ?t))" if "fst (feed (parser c) (inbound c @ bytes)) = Complete"
    using d feed_completes that by (intro dispatch_effects) (simp_all add: d_def)
  moreover have "snd (handle_bytes fd bytes s) = (case fst (feed (parser c) (inbound c @ bytes)) of
      Error \<Rightarrow> snd (reject_request fd d ?t) | Complete \<Rightarrow> snd (dispatch_request fd d ?t)
    | Incomplete \<Rightarrow> if error (parser d) \<noteq> [] then close_client fd ?t else ?t)"
    using Some by (simp add: handle_bytes_def take_bytes_def d_def Let_def split_beta split: parse_status.split)
  ultimately show ?thesis using t reject_effects [OF d] close_effects [of ?t fd] d
    by (auto intro: rtranclp_trans split: parse_status.split)
qed (simp add: handle_bytes_def)

lemma handle_bytes_more: "get_conn s fd \<noteq> None \<Longrightarrow> handle_bytes fd bytes s = (Read_more, t) \<Longrightarrow> get_conn t fd \<noteq> None"
  by (auto simp: handle_bytes_def reject_request_def dispatch_request_def Let_def split_beta split: option.splits parse_status.splits if_splits)

lemma read_loop_effects: "get_conn s fd \<noteq> None \<Longrightarrow> effects s (snd (read_loop rs fd s))"
proof (induction rs arbitrary: s)
  case Nil
  then show ?case by (auto intro: tick_effects)
next
  case (Cons r rs)
  let ?s = "s\<lparr>net := (net s)\<lparr>recvs := rs\<rparr>\<rparr>"
  have s: "effects s ?s" by (rule tick_effects) simp
  show ?case
  proof (cases r)
    case (Recv_errno e)
    have "effects ?s (close_client fd ?s)" using Cons.prems by (intro close_effects) simp
    then show ?thesis using Cons s Recv_errno by (auto intro: rtranclp_trans)
  next
    case (Received bytes)
    obtain nx t where nx: "handle_bytes fd (take 1024 bytes) ?s = (nx, t)" by fastforce
    then have st: "effects s t" using handle_bytes_effects [of ?s fd "take 1024 bytes"] s by (auto intro: rtranclp_trans)
    have "effects t (snd (read_loop rs fd t))" if "nx = Read_more"
      using Cons.IH [of t] handle_bytes_more [of ?s fd "take 1024 bytes" t] nx that Cons.prems by simp
    moreover have "effects ?s (put_conn fd (c\<lparr>peer_closed := True\<rparr>) ?s)" if "get_conn s fd = Some c" for c
      using that by (intro effectsI mark) simp
    ultimately show ?thesis using s st nx Received
      by (cases nx) (auto simp: Let_def intro: rtranclp_trans split: option.split)
  qed
qed

lemma handle_client_effects: "effects s (handle_client fd s)"
proof (cases "get_conn s fd = None")
  case False
  then have "effects s (snd (read_loop (recvs (net s)) fd s))" by (rule read_loop_effects)
  then show ?thesis
    using False flush_effects [of "snd (read_loop (recvs (net s)) fd s)" fd]
    by (auto simp: handle_client_def split_beta Let_def intro: rtranclp_trans split: option.split)
qed (simp add: handle_client_def)

section \<open>Completions and shutdown\<close>

text \<open>The completion queue is not read by what \<open>deliver\<close> does to the connections.\<close>

lemma completions_frame:
  "put_conn fd c (s\<lparr>completions := ks\<rparr>) = (put_conn fd c s)\<lparr>completions := ks\<rparr>"
  "set_metrics f (s\<lparr>completions := ks\<rparr>) = (set_metrics f s)\<lparr>completions := ks\<rparr>"
  "queue_response fd c text (s\<lparr>completions := ks\<rparr>) = (queue_response fd c text s)\<lparr>completions := ks\<rparr>"
  "transmit fd n c (s\<lparr>completions := ks\<rparr>) = apsnd (\<lambda>s. s\<lparr>completions := ks\<rparr>) (transmit fd n c s)"
  "loop_modify fd ev (s\<lparr>completions := ks\<rparr>) = apsnd (\<lambda>s. s\<lparr>completions := ks\<rparr>) (loop_modify fd ev s)"
  "close_client fd (s\<lparr>completions := ks\<rparr>) = (close_client fd s)\<lparr>completions := ks\<rparr>"
  by (simp_all add: put_conn_def set_metrics_def queue_response_def transmit_def loop_modify_def close_client_def
      close_fd_def loop_remove_def get_conn_def Let_def split_beta)

lemma send_loop_completions:
  "send_loop rs fd c (s\<lparr>completions := ks\<rparr>) = apsnd (apsnd (\<lambda>s. s\<lparr>completions := ks\<rparr>)) (send_loop rs fd c s)"
proof (induction rs arbitrary: c s)
  case (Cons r rs)
  then show ?case by (cases r) (simp_all add: completions_frame Let_def split_beta)
qed (simp add: transmit_def put_conn_def Let_def)

lemma flush_completions: "flush_client fd (s\<lparr>completions := ks\<rparr>) = apsnd (\<lambda>s. s\<lparr>completions := ks\<rparr>) (flush_client fd s)"
  by (simp add: flush_client_def send_loop_completions completions_frame Let_def split_beta split: option.split flush_end.split)

lemma deliver_completions: "deliver k (s\<lparr>completions := ks\<rparr>) = (deliver k s)\<lparr>completions := ks\<rparr>"
  by (simp add: deliver_def completions_frame flush_completions Let_def split: option.split)

lemma flush_keeps_completions [simp]: "completions (snd (flush_client fd s)) = completions s"
proof -
  have "completions (snd (flush_client fd (s\<lparr>completions := completions s\<rparr>))) = completions s"
    by (simp only: flush_completions snd_apsnd) simp
  then show ?thesis by simp
qed

lemma deliver_settled:
  assumes "completions s = k # ks" and "effects s t" and "completions t = completions s"
    and "\<And>c. get_conn t (compl_fd k) = Some c \<Longrightarrow> generation c = compl_generation k \<Longrightarrow> \<not> request_in_flight c"
  shows "effects s (t\<lparr>completions := ks, outstanding_tasks := sub64 (outstanding_tasks t) 1\<rparr>)"
  using assms(2) effectsI [OF settle [of t k ks]] assms(1,3,4) by (force intro: rtranclp_trans)

lemma deliver_effects:
  assumes q: "completions s = k # ks"
  shows "effects s ((deliver k s)\<lparr>completions := ks\<rparr>)"
proof -
  define s1 where "s1 = set_metrics (request_completed (compl_status k) (compl_elapsed k) (worker_id s)) s"
  have s1: "effects s s1" "completions s1 = completions s" "get_conn s1 = get_conn s"
    unfolding s1_def using metrics_effects(3) by (simp_all add: set_metrics_def get_conn_def fun_eq_iff)
  define d where "d c = c\<lparr>request_in_flight := False\<rparr>" for c :: connection
  define t where "t = (case get_conn s (compl_fd k) of None \<Rightarrow> s1
    | Some c \<Rightarrow> if generation c = compl_generation k \<and> request_in_flight c
        then if add64 (pending_bytes (d c)) (length (serialized_response k)) \<le> max_outbound_bytes
             then snd (flush_client (compl_fd k) (queue_response (compl_fd k) (d c) (serialized_response k) s1))
             else close_client (compl_fd k) s1
        else s1)"
  have "queue_response fd c msg (put_conn fd c s1) = queue_response fd c msg s1" for fd c msg
    by (simp add: queue_response_def) (simp add: put_conn_def)
  then have eq: "(deliver k s)\<lparr>completions := ks\<rparr> = t\<lparr>completions := ks, outstanding_tasks := sub64 (outstanding_tasks t) 1\<rparr>"
    using s1 by (simp add: deliver_def t_def s1_def [symmetric] d_def [symmetric] put_close Let_def split: option.split)
  have ans: "effects s1 (queue_response (compl_fd k) (d c) (serialized_response k) s1)"
    if "get_conn s (compl_fd k) = Some c" "generation c = compl_generation k" for c
    unfolding d_def using that s1 q by (intro effectsI answer) simp_all
  have cl: "effects s1 (close_client (compl_fd k) s1)" if "get_conn s (compl_fd k) \<noteq> None"
    using that s1 by (intro close_effects) simp
  have "effects s1 t"
    by (auto simp: t_def intro: ans cl rtranclp_trans [OF _ flush_effects] split: option.split)
  moreover have "completions t = completions s"
    using s1 by (auto simp: t_def queue_response_def put_conn_def close_client_def close_fd_def set_metrics_def loop_remove_def
        Let_def split: option.split)
  moreover have fl: "\<not> request_in_flight c'" if "get_conn (snd (flush_client fd (queue_response fd (d c) msg s1))) fd = Some c'" for c c' fd msg
    using flush_get [OF that] by (auto simp: flushed_def d_def)
  have "\<not> request_in_flight c" if "get_conn t (compl_fd k) = Some c" "generation c = compl_generation k" for c
    using that s1 fl by (auto simp: t_def split: option.splits if_splits)
  ultimately show ?thesis unfolding eq using s1(1) q by (intro deliver_settled) (auto intro: rtranclp_trans)
qed

lemma deliver_all_effects: "effects (s\<lparr>completions := ks\<rparr>) ((fold deliver ks s)\<lparr>completions := []\<rparr>)"
proof (induction ks arbitrary: s)
  case (Cons k ks)
  have "effects (s\<lparr>completions := k # ks\<rparr>) ((deliver k s)\<lparr>completions := ks\<rparr>)"
    using deliver_effects [of "s\<lparr>completions := k # ks\<rparr>" k ks] by (simp add: deliver_completions)
  with Cons show ?case by (auto intro: rtranclp_trans)
qed simp

lemma fold_deliver_completions: "fold deliver ks (s\<lparr>completions := x\<rparr>) = (fold deliver ks s)\<lparr>completions := x\<rparr>"
  by (induction ks arbitrary: s) (simp_all add: deliver_completions)

lemma process_completions_effects: "effects s (process_completions s)"
proof -
  define u where "u = set_metrics (completion_queue_size (worker_id s) 0 []) (s\<lparr>notifications := 0\<rparr>)"
  have "effects s (u\<lparr>completions := completions s\<rparr>)"
    by (rule tick_effects) (simp add: quiet_def u_def set_metrics_def metrics_ops)
  moreover have "set_metrics (completion_queue_size (worker_id s) 0 []) (s\<lparr>notifications := 0, completions := []\<rparr>) =
    u\<lparr>completions := []\<rparr>" by (simp add: u_def set_metrics_def)
  then have "process_completions s = (fold deliver (completions s) u)\<lparr>completions := []\<rparr>"
    by (simp add: process_completions_def Let_def fold_deliver_completions)
  ultimately show ?thesis using deliver_all_effects [where s = u and ks = "completions s"] by (simp add: rtranclp_trans)
qed

lemma drain_client_effects: "effects s (drain_client fd s)"
  by (auto simp: drain_client_def intro: flush_effects close_effects split: option.split)

lemma drain_all_effects: "effects s (fold drain_client fds s)"
  by (induction fds arbitrary: s) (auto intro: rtranclp_trans [OF drain_client_effects])

lemma begin_drain_eq:
  "begin_drain (listener_fd s) s = (if draining s then (listener_fd s, s)
     else (-1, fold drain_client (file_descriptors (conns s)) (stop_accepting s)))"
  by (simp add: begin_drain_def stop_accepting_def Let_def set_pool_def close_fd_def loop_remove_def)

lemma begin_drain_effects: "effects s (snd (begin_drain (listener_fd s) s))"
  by (auto simp: begin_drain_eq intro: rtranclp_trans [OF effectsI [OF stop] drain_all_effects])

section \<open>Events\<close>

lemma client_event_effects:
  assumes "get_conn s fd \<noteq> None"
  shows "effects s (client_event fd ev s)"
proof -
  define s1 where "s1 = (if has_event ev EPOLLIN then handle_client fd s else s)"
  define s2 where "s2 = (case get_conn s1 fd of Some c \<Rightarrow> if has_event ev EPOLLRDHUP then put_conn fd (c\<lparr>peer_closed := True\<rparr>) s1 else s1
    | None \<Rightarrow> s1)"
  define s3 where "s3 = (if has_event ev EPOLLOUT then snd (flush_client fd s2) else s2)"
  have s1: "effects s s1" by (simp add: s1_def handle_client_effects)
  also have s2: "effects s1 s2" by (auto simp: s2_def intro!: effectsI mark split: option.split)
  also have s3: "effects s2 s3" by (simp add: s3_def flush_effects)
  finally have "effects s s3" .
  moreover have "effects s3 (close_client fd s3)" if "get_conn s3 fd = Some c" for c using that by (intro close_effects) simp
  ultimately show ?thesis
    unfolding client_event_def Let_def s1_def [symmetric] s2_def [symmetric] s3_def [symmetric]
    using s1 close_effects [OF assms] by (auto intro: rtranclp_trans split: option.split)
qed

lemma handle_event_effects: "effects s (handle_event fd ev s)"
proof -
  obtain l t where t: "(if shutdown_requested (srv s) \<and> \<not> draining s then begin_drain (listener_fd s) s else (listener_fd s, s)) = (l, t)"
    by fastforce
  then have st: "effects s t" using begin_drain_effects [of s] by (auto split: if_splits)
  have "effects t (request_stop t)" by (rule tick_effects) (simp add: quiet_def request_stop_def)
  then have "effects t (handle_event fd ev s)"
    using t process_completions_effects [of t] accept_effects [of t] client_event_effects [of t fd ev]
    by (simp add: handle_event_def split: if_splits)
  then show ?thesis using st by (auto intro: rtranclp_trans)
qed

lemmas node_ops = put_conn_def set_metrics_def set_pool_def close_fd_def loop_remove_def queue_response_def transmit_def
  take_bytes_def start_task_def stop_accepting_def close_client_def Let_def split_beta

lemma effect_keeps:
  "effect s s' \<Longrightarrow> worker_id s' = worker_id s \<and> completion_fd s' = completion_fd s \<and> epoll_fd (loop s') = epoll_fd (loop s) \<and>
    (draining s \<longrightarrow> draining s') \<and> (shutdown_requested (srv s) \<longrightarrow> shutdown_requested (srv s')) \<and> (\<exists>fs. fds_opened s' = fds_opened s @ fs) \<and> (\<exists>as. answers s' = answers s @ as) \<and>
    (\<exists>rs. received s' = received s @ rs)"
  by (induction rule: effect.induct) (auto simp: quiet_def node_ops)

lemma effects_keep:
  "effects s s' \<Longrightarrow> worker_id s' = worker_id s \<and> completion_fd s' = completion_fd s \<and> epoll_fd (loop s') = epoll_fd (loop s) \<and>
    (draining s \<longrightarrow> draining s') \<and> (shutdown_requested (srv s) \<longrightarrow> shutdown_requested (srv s')) \<and> (\<exists>fs. fds_opened s' = fds_opened s @ fs) \<and> (\<exists>as. answers s' = answers s @ as) \<and>
    (\<exists>rs. received s' = received s @ rs)"
proof (induction rule: rtranclp_induct)
  case (step t u)
  then show ?case using effect_keeps [OF step(2)] by auto
qed simp

lemma on_iteration_effects: "effects s (on_iteration s)"
proof -
  define s1 where "s1 = process_completions s"
  define s2 where "s2 = (if shutdown_requested (srv s1)
    then (let (listener, s) = begin_drain (listener_fd s1) s1 in s\<lparr>listener_fd := listener\<rparr>) else s1)"
  have s1: "effects s s1" by (simp add: s1_def process_completions_effects)
  let ?d = "fold drain_client (file_descriptors (conns s1)) (stop_accepting s1)"
  have "draining (stop_accepting s1)" by (simp add: node_ops)
  then have "draining ?d" using drain_all_effects effects_keep by blast
  then have "quiet ?d (?d\<lparr>listener_fd := l\<rparr>)" for l by (simp add: quiet_def)
  then have "effects s1 (snd (begin_drain (listener_fd s1) s1)\<lparr>listener_fd := fst (begin_drain (listener_fd s1) s1)\<rparr>)"
    using rtranclp_trans [OF begin_drain_effects tick_effects, of s1] by (cases "draining s1") (simp_all add: begin_drain_eq)
  then have "effects s1 s2" by (simp add: s2_def split_beta)
  then have "effects s s2" using s1 by (rule rtranclp_trans [rotated])
  moreover have "effects s2 (fold drain_client (file_descriptors (conns s2)) s2)" by (rule drain_all_effects)
  moreover have "on_iteration s = (if draining s2 then fold drain_client (file_descriptors (conns s2)) s2 else s2)"
    unfolding on_iteration_def s2_def s1_def Let_def by simp
  ultimately show ?thesis by auto
qed

end
