(* ===== verification/Tcp_Invariant.thy ===== *)
theory Tcp_Invariant
  imports Tcp_Effects "HOL-Library.Sublist"
begin

text \<open>
  Invariants of one epoll worker, proved for the effects of \<open>Tcp_Effects\<close>: the connection table
  and the byte streams (\<open>loop_inv\<close>), the descriptors (\<open>fd_inv\<close>), the counters of tasks and
  connections, and the requests in flight (\<open>waits\<close>). \<open>feasible\<close> bounds the run: fewer than
  \<open>2 ^ 64\<close> accepted descriptors and response bytes, so that generations and sizes do not wrap.
\<close>

section \<open>Traces by connection\<close>

definition chunks :: "nat \<Rightarrow> (nat \<times> string) list \<Rightarrow> string list" where
  "chunks g xs = map snd (filter (\<lambda>x. fst x = g) xs)"

definition stream :: "nat \<Rightarrow> (nat \<times> string) list \<Rightarrow> string" where
  "stream g xs = concat (chunks g xs)"

lemma chunks_simps [simp]: "chunks g [] = []" "chunks g (xs @ ys) = chunks g xs @ chunks g ys"
  "chunks g [(h, b)] = (if h = g then [b] else [])"
  by (simp_all add: chunks_def)

lemma stream_simps [simp]: "stream g [] = []" "stream g (xs @ ys) = stream g xs @ stream g ys"
  "stream g [(h, b)] = (if h = g then b else [])"
  by (simp_all add: stream_def)

lemma stream_total: "length (stream g xs) \<le> length (concat (map snd xs))"
  by (induction xs) (auto simp: stream_def chunks_def)

definition fresh_parser :: http_parser where
  "fresh_parser = new_parser (16 * 1024) (1 * 1024 * 1024)"

lemma feed_fresh [simp]: "feed fresh_parser [] = (Incomplete, fresh_parser)"
  by (simp add: fresh_parser_def feed_def new_parser_def parse_buffer_def add64_def)

lemma feed_all_snoc: "cs \<noteq> [] \<Longrightarrow> feed_all p (cs @ [b]) = feed (snd (feed_all p cs)) b"
  by (induction p cs rule: feed_all.induct) auto

lemma fresh_snoc: "feed_all fresh_parser (cs @ [b]) = feed (snd (feed_all fresh_parser cs)) b"
  by (cases "cs = []") (simp_all add: feed_all_snoc)

lemma feed_all_completes: "fst (feed_all p cs) = Complete \<longleftrightarrow> complete (snd (feed_all p cs))"
  by (induction p cs rule: feed_all.induct) (simp_all add: feed_completes)

section \<open>The connection table and the byte streams\<close>

definition conn_ok :: "'a node \<Rightarrow> int \<Rightarrow> connection \<Rightarrow> bool" where
  "conn_ok s fd c \<longleftrightarrow> conn_fd c = fd \<and> inbound c = [] \<and> outbound_offset c \<le> length (outbound c) \<and>
     (outbound c \<noteq> [] \<longrightarrow> peer_closed c) \<and> generation c < next_generation s \<and>
     stream (generation c) (answers s) = stream (generation c) (sent s) @ drop (outbound_offset c) (outbound c) \<and>
     outbound_offset c \<le> length (stream (generation c) (sent s)) \<and>
     parser c = snd (feed_all fresh_parser (chunks (generation c) (received s)))"

definition task_ok :: "'a node \<Rightarrow> task \<Rightarrow> bool" where
  "task_ok s t \<longleftrightarrow> task_generation t < next_generation s \<and>
     (\<exists>n \<le> length (chunks (task_generation t) (received s)).
        fst (feed_all fresh_parser (take n (chunks (task_generation t) (received s)))) = Complete \<and>
        request (snd (feed_all fresh_parser (take n (chunks (task_generation t) (received s))))) = task_request t)"

definition unused :: "'a node \<Rightarrow> nat \<Rightarrow> bool" where
  "unused s g \<longleftrightarrow> chunks g (answers s) = [] \<and> chunks g (sent s) = [] \<and> chunks g (received s) = []"

definition loop_inv :: "'a node \<Rightarrow> bool" where
  "loop_inv s \<longleftrightarrow> table_inv (conns s) \<and> (\<forall>fd c. get_conn s fd = Some c \<longrightarrow> conn_ok s fd c) \<and>
     (\<forall>fd fd' c c'. get_conn s fd = Some c \<longrightarrow> get_conn s fd' = Some c' \<longrightarrow> generation c = generation c' \<longrightarrow> fd = fd') \<and>
     (\<forall>g \<ge> next_generation s. unused s g) \<and> 1 \<le> next_generation s \<and> next_generation s \<le> length (fds_opened s) + 1 \<and>
     (\<forall>g. prefix (stream g (sent s)) (stream g (answers s))) \<and>
     (\<forall>t \<in> set (accepted (thread_pool (srv s))). task_worker t = worker_id s \<longrightarrow> task_ok s t)"

definition feasible :: "'a node \<Rightarrow> bool" where
  "feasible s \<longleftrightarrow> length (fds_opened s) < 2 ^ 64 - 1 \<and> length (concat (map snd (answers s))) < 2 ^ 64"

lemma feasible_back: "effect s s' \<Longrightarrow> feasible s' \<Longrightarrow> feasible s"
  using effect_keeps [of s s'] by (auto simp: feasible_def)

lemma feasible_backs: "effects s s' \<Longrightarrow> feasible s' \<Longrightarrow> feasible s"
  by (induction rule: rtranclp_induct) (auto intro: feasible_back)

lemma loop_inv_conn: "loop_inv s \<Longrightarrow> get_conn s fd = Some c \<Longrightarrow> conn_ok s fd c"
  by (simp add: loop_inv_def)

lemma outbound_fits:
  assumes "feasible s" "conn_ok s fd c"
  shows "length (outbound c) < 2 ^ 64"
proof -
  have "length (stream (generation c) (answers s)) = length (stream (generation c) (sent s)) + (length (outbound c) - outbound_offset c)"
    using assms(2) by (simp add: conn_ok_def)
  then have "length (outbound c) \<le> length (stream (generation c) (answers s))" using assms(2) by (auto simp: conn_ok_def)
  then show ?thesis using assms(1) stream_total [of "generation c" "answers s"] by (simp add: feasible_def)
qed

lemma task_ok_grow:
  assumes "task_ok s t" "next_generation s \<le> next_generation s'"
    and "\<exists>r. chunks (task_generation t) (received s') = chunks (task_generation t) (received s) @ r"
  shows "task_ok s' t"
proof -
  obtain r where r: "chunks (task_generation t) (received s') = chunks (task_generation t) (received s) @ r" using assms by blast
  obtain n where n: "n \<le> length (chunks (task_generation t) (received s))"
    "fst (feed_all fresh_parser (take n (chunks (task_generation t) (received s)))) = Complete"
    "request (snd (feed_all fresh_parser (take n (chunks (task_generation t) (received s))))) = task_request t"
    using assms(1) by (auto simp: task_ok_def)
  then have "take n (chunks (task_generation t) (received s')) = take n (chunks (task_generation t) (received s))"
    using r by simp
  then show ?thesis using assms(1,2) n r by (auto simp: task_ok_def intro!: exI [of _ n])
qed

text \<open>Changing one connection and the traces of its generation.\<close>

lemma loop_inv_put:
  assumes inv: "loop_inv s" and c: "get_conn s fd = Some c"
    and same: "conns s' = conn_put fd c' (conns s)" "next_generation s' = next_generation s" "fds_opened s' = fds_opened s"
      "worker_id s' = worker_id s" and gen: "generation c' = generation c"
    and others: "\<And>g. g \<noteq> generation c \<Longrightarrow> chunks g (answers s') = chunks g (answers s) \<and> chunks g (sent s') = chunks g (sent s)"
    and recd: "\<And>g. \<exists>r. chunks g (received s') = chunks g (received s) @ r \<and> (g \<noteq> generation c \<longrightarrow> r = [])"
    and ok: "conn_ok s' fd c'"
    and new: "\<And>t. t \<in> set (accepted (thread_pool (srv s'))) \<Longrightarrow> t \<in> set (accepted (thread_pool (srv s))) \<or> task_ok s' t"
  shows "loop_inv s'"
proof -
  have get: "get_conn s' = (get_conn s)(fd \<mapsto> c')" using same by (auto simp: get_conn_def table.get_put)
  have oth: "unused s' g = unused s g" "stream g (answers s') = stream g (answers s)" "stream g (sent s') = stream g (sent s)"
    "chunks g (received s') = chunks g (received s)" if "g \<noteq> generation c" for g
    using others [OF that] recd [of g] that by (auto simp: unused_def stream_def)
  have cok: "conn_ok s fd c" using inv c by (rule loop_inv_conn)
  have "conn_ok s' e d" if "get_conn s' e = Some d" for e d
  proof (cases "e = fd")
    case False
    then have d: "get_conn s e = Some d" using that get by simp
    then have "conn_ok s e d" "generation d \<noteq> generation c" using inv c False by (auto simp: loop_inv_def)
    then show ?thesis using oth by (simp add: conn_ok_def same)
  qed (use that get ok in simp)
  moreover have "e = e'" if "get_conn s' e = Some d" "get_conn s' e' = Some d'" "generation d = generation d'" for e e' d d'
    using inv c that gen unfolding loop_inv_def get by (metis fun_upd_apply option.inject)
  moreover have "unused s' g" if "g \<ge> next_generation s'" for g
    using inv cok that oth(1) [of g] same by (auto simp: loop_inv_def conn_ok_def)
  moreover have "prefix (stream g (sent s')) (stream g (answers s'))" for g
    using inv ok oth [of g] gen by (cases "g = generation c") (auto simp: loop_inv_def conn_ok_def)
  moreover have "task_ok s' t" if "t \<in> set (accepted (thread_pool (srv s')))" "task_worker t = worker_id s'" for t
    using new [OF that(1)] inv that(2) recd [of "task_generation t"] same
    by (auto simp: loop_inv_def intro: task_ok_grow [where s = s])
  ultimately show ?thesis using inv same by (simp add: loop_inv_def table.invar_put)
qed

lemma loop_inv_cong:
  assumes inv: "loop_inv s"
    and same: "conns s' = conns s" "next_generation s' = next_generation s" "worker_id s' = worker_id s"
      "answers s' = answers s" "sent s' = sent s" "received s' = received s"
      "accepted (thread_pool (srv s')) = accepted (thread_pool (srv s))" "\<exists>fs. fds_opened s' = fds_opened s @ fs"
  shows "loop_inv s'"
proof -
  have "get_conn s' = get_conn s" using same by (simp add: get_conn_def fun_eq_iff)
  then show ?thesis using inv same by (auto simp: loop_inv_def conn_ok_def task_ok_def unused_def)
qed

lemma loop_inv_close:
  assumes inv: "loop_inv s"
  shows "loop_inv (close_client fd s)"
proof -
  have fields: "next_generation (close_client fd s) = next_generation s" "answers (close_client fd s) = answers s"
    "sent (close_client fd s) = sent s" "received (close_client fd s) = received s" "fds_opened (close_client fd s) = fds_opened s"
    "worker_id (close_client fd s) = worker_id s" "thread_pool (srv (close_client fd s)) = thread_pool (srv s)"
    by (simp_all add: node_ops)
  have "table_inv (conns (close_client fd s))" using inv by (simp add: node_ops loop_inv_def table.invar_remove)
  then show ?thesis using inv
    by (auto simp: loop_inv_def conn_ok_def task_ok_def unused_def fields split: if_splits)
qed

lemma transmit_ok:
  assumes ok: "conn_ok s fd c" and fits: "length (outbound c) < 2 ^ 64" and n: "n \<le> pending_bytes c"
  shows "conn_ok (snd (transmit fd n c s)) fd (fst (transmit fd n c s))"
proof -
  have n': "n \<le> length (outbound c) - outbound_offset c" using n ok fits by (simp add: conn_ok_def pending_exact)
  then have "add64 (outbound_offset c) n = outbound_offset c + n" using ok fits by (intro add64_exact) (auto simp: conn_ok_def)
  moreover have "drop (outbound_offset c) (outbound c) = take n (drop (outbound_offset c) (outbound c)) @ drop (outbound_offset c + n) (outbound c)"
    by (metis append_take_drop_id drop_drop add.commute)
  ultimately show ?thesis using ok n' by (auto simp: conn_ok_def transmit_def put_conn_def Let_def)
qed

lemma admit_ok: "conn_fd (new_connection fd ip g) = fd" "inbound (new_connection fd ip g) = []" "outbound (new_connection fd ip g) = []"
  "outbound_offset (new_connection fd ip g) = 0" "generation (new_connection fd ip g) = g" "parser (new_connection fd ip g) = fresh_parser"
  "request_in_flight (new_connection fd ip g) = False"
  by (simp_all add: new_connection_def fresh_parser_def)

lemma loop_inv_admit:
  assumes inv: "loop_inv s" and free: "get_conn s fd = None" and few: "length (fds_opened s) + 1 < 2 ^ 64 - 1"
    and s': "conns s' = conn_add fd ip (next_generation s) (conns s)" "next_generation s' = add64 (next_generation s) 1"
      "fds_opened s' = fds_opened s @ [fd]" "worker_id s' = worker_id s" "answers s' = answers s" "sent s' = sent s"
      "received s' = received s" "thread_pool (srv s') = thread_pool (srv s)"
  shows "loop_inv s'"
proof -
  have ng: "next_generation s' = next_generation s + 1" using inv few s'(2) by (simp add: loop_inv_def add64_exact)
  have get: "get_conn s' = (get_conn s)(fd \<mapsto> new_connection fd ip (next_generation s))"
    using s' by (auto simp: get_conn_def conn_add_put table.get_put)
  have u: "unused s (next_generation s)" using inv by (simp add: loop_inv_def)
  have "conn_ok s' e d" if "get_conn s' e = Some d" for e d
  proof (cases "e = fd")
    case False
    then have "conn_ok s e d" using that inv get by (simp add: loop_inv_def)
    then show ?thesis using s' ng by (auto simp: conn_ok_def)
  qed (use that u ng get s' in \<open>auto simp: conn_ok_def admit_ok unused_def stream_def\<close>)
  moreover have "e = e'" if "get_conn s' e = Some d" "get_conn s' e' = Some d'" "generation d = generation d'" for e e' d d'
  proof -
    have "generation b \<noteq> next_generation s" if "get_conn s a = Some b" for a b
      using loop_inv_conn [OF inv that] by (simp add: conn_ok_def)
    moreover have "e = e'" if "get_conn s e = Some d" "get_conn s e' = Some d'" using inv that \<open>generation d = generation d'\<close>
      by (auto simp: loop_inv_def)
    ultimately show ?thesis using that by (auto simp: get admit_ok split: if_splits) blast+
  qed
  moreover have "task_ok s' t" if "t \<in> set (accepted (thread_pool (srv s')))" "task_worker t = worker_id s'" for t
    using inv that s' ng by (auto simp: loop_inv_def intro: task_ok_grow [where s = s])
  moreover have "table_inv (conns s')" using inv s' by (simp add: loop_inv_def conn_add_put table.invar_put)
  ultimately show ?thesis using inv s' ng by (auto simp: loop_inv_def unused_def)
qed

lemma dispatch_task_ok:
  assumes "conn_ok s fd c" "complete (parser c)"
  shows "task_ok s (request_task s fd c)"
proof -
  let ?cs = "chunks (generation c) (received s)"
  have "fst (feed_all fresh_parser (take (length ?cs) ?cs)) = Complete"
    "request (snd (feed_all fresh_parser (take (length ?cs) ?cs))) = request (parser c)"
    using assms feed_all_completes [of fresh_parser ?cs] by (simp_all add: conn_ok_def)
  then show ?thesis using assms(1) unfolding task_ok_def request_task_def by (auto simp: conn_ok_def intro!: exI [of _ "length ?cs"])
qed

lemmas node_simps = put_conn_def set_metrics_def set_pool_def queue_response_def transmit_def take_bytes_def start_task_def Let_def split_beta

theorem loop_inv_effect:
  assumes "effect s s'" and "feasible s'" and "loop_inv s"
  shows "loop_inv s'"
  using assms
proof (induction rule: effect.induct)
  case (tick s s')
  then show ?case by (intro loop_inv_cong [of s s']) (auto simp: quiet_def)
next
  case (mark s fd c)
  then show ?case using loop_inv_conn [OF mark(3,1)]
    by (intro loop_inv_put [OF mark(3,1), where c' = "c\<lparr>peer_closed := True\<rparr>"]) (auto simp: conn_ok_def node_simps)
next
  case (receive s fd c bytes)
  note ok = loop_inv_conn [OF receive(3,1)]
  let ?p = "snd (feed (parser c) (inbound c @ bytes))"
  have "?p = snd (feed_all fresh_parser (chunks (generation c) (received s) @ [bytes]))"
    using ok by (simp add: conn_ok_def fresh_snoc)
  then show ?case using ok
    by (intro loop_inv_put [OF receive(3,1), where c' = "c\<lparr>parser := ?p, inbound := []\<rparr>"]) (auto simp: conn_ok_def node_simps)
next
  case (refusal s fd c msg c')
  then show ?case using loop_inv_conn [OF refusal(5,1)]
    by (intro loop_inv_put [OF refusal(5,1), where c' = "c'\<lparr>outbound := outbound c' @ msg, peer_closed := True\<rparr>"])
      (auto simp: conn_ok_def node_simps)
next
  case (answer s k c)
  let ?c = "c\<lparr>request_in_flight := False\<rparr>"
  show ?case using answer loop_inv_conn [OF answer(5,1)]
    by (intro loop_inv_put [OF answer(5,1), where c' = "?c\<lparr>outbound := outbound ?c @ serialized_response k, peer_closed := True\<rparr>"])
      (auto simp: conn_ok_def node_simps)
next
  case (transmitted s fd c n)
  have f: "feasible s" using transmitted(3) by (simp add: feasible_def node_simps)
  note ok = loop_inv_conn [OF transmitted(4,1)]
  show ?case using transmit_ok [OF ok outbound_fits [OF f ok] transmitted(2)]
    by (intro loop_inv_put [OF transmitted(4,1), where c' = "fst (transmit fd n c s)"]) (auto simp: node_simps)
next
  case (clear s fd c)
  have f: "feasible s" using clear(3) by (simp add: feasible_def node_simps)
  note ok = loop_inv_conn [OF clear(4,1)]
  have "outbound_offset c = length (outbound c)" using clear(2) ok outbound_fits [OF f ok] by (simp add: fully_sent_def conn_ok_def)
  then show ?case using ok
    by (intro loop_inv_put [OF clear(4,1), where c' = "c\<lparr>outbound := [], outbound_offset := 0\<rparr>"]) (auto simp: conn_ok_def node_simps)
next
  case (close s fd)
  then show ?case by (intro loop_inv_close)
next
  case (refuse s fd)
  show ?case by (rule loop_inv_cong [OF refuse(3)]) simp_all
next
  case (admit s fd ev ip)
  have "get_conn s fd = None" using admit(1) by (auto simp: holds_fd_def)
  moreover have "length (fds_opened s) + 1 < 2 ^ 64 - 1" using admit(3) by (simp add: feasible_def set_metrics_def)
  ultimately show ?case by (rule loop_inv_admit [OF admit(4), of fd _ ip]) (simp_all add: set_metrics_def)
next
  case (dispatch s fd c)
  note ok = loop_inv_conn [OF dispatch(5,1)]
  have "task_ok (start_task fd c s) (request_task s fd c)"
    by (rule task_ok_grow [OF dispatch_task_ok [OF ok dispatch(2)]]) (simp_all add: node_simps)
  then show ?case using ok
    by (intro loop_inv_put [OF dispatch(5,1), where c' = "c\<lparr>request_in_flight := True\<rparr>"])
      (auto simp: conn_ok_def submit_def node_simps split: if_splits)
next
  case (settle s k ks)
  show ?case by (rule loop_inv_cong [OF settle(4)]) simp_all
next
  case (stop s)
  show ?case by (rule loop_inv_cong [OF stop(3)]) (simp_all add: node_ops begin_shutdown_def)
qed

lemma loop_inv_effects: "effects s s' \<Longrightarrow> feasible s' \<Longrightarrow> loop_inv s \<Longrightarrow> loop_inv s'"
  by (induction rule: rtranclp_induct) (auto intro: loop_inv_effect feasible_back)

section \<open>Shapes of effects\<close>

text \<open>Most effects change one connection, keep its generation and put no request in flight.\<close>

definition touches :: "'a node \<Rightarrow> 'a node \<Rightarrow> bool" where
  "touches s s' \<longleftrightarrow> (\<exists>fd c c'. get_conn s fd = Some c \<and> conns s' = conn_put fd c' (conns s) \<and> generation c' = generation c \<and>
     (request_in_flight c' \<longrightarrow> request_in_flight c)) \<and>
     completion_fd s' = completion_fd s \<and> listener_fd s' = listener_fd s \<and> draining s' = draining s \<and> loop s' = loop s \<and>
     fds_opened s' = fds_opened s \<and> fds_closed s' = fds_closed s \<and> outstanding_tasks s' = outstanding_tasks s \<and>
     completions s' = completions s \<and> worker_id s' = worker_id s \<and> srv s' = srv s"

lemma effect_shapes [consumes 1, case_names quiet touch close refuse admit dispatch settle stop]:
  assumes "effect s s'"
  obtains "quiet s s'" | "touches s s'"
  | fd where "get_conn s fd \<noteq> None" "s' = close_client fd s"
  | fd where "\<not> holds_fd s fd" "s' = s\<lparr>fds_opened := fds_opened s @ [fd], fds_closed := fds_closed s @ [fd], loop := forget_fd fd (loop s)\<rparr>"
  | fd ev ip where "\<not> holds_fd s fd" "fst (loop_add fd ev s)"
      "s' = set_metrics (connection_opened (worker_id s)) (s\<lparr>fds_opened := fds_opened s @ [fd], loop := snd (add_fd fd ev (loop s)),
        conns := conn_add fd ip (next_generation s) (conns s), next_generation := add64 (next_generation s) 1\<rparr>)"
  | fd c where "get_conn s fd = Some c" "fst (submit (request_task s fd c) (thread_pool (srv s)))" "s' = start_task fd c s"
  | k ks where "completions s = k # ks"
      "\<And>c. get_conn s (compl_fd k) = Some c \<Longrightarrow> generation c = compl_generation k \<Longrightarrow> \<not> request_in_flight c"
      "s' = s\<lparr>completions := ks, outstanding_tasks := sub64 (outstanding_tasks s) 1\<rparr>"
  | "\<not> draining s" "s' = stop_accepting s"
proof -
  have touch: "touches s s'" if "get_conn s fd = Some c" "s' = (put_conn fd c' s)\<lparr>answers := a, sent := b, received := d\<rparr>"
    "generation c' = generation c" "request_in_flight c' \<longrightarrow> request_in_flight c" for fd c c' a b d
    using that by (auto simp: touches_def put_conn_def)
  show thesis using assms
  proof cases
    case (mark fd c)
    then show ?thesis by (intro that(2) touch [where fd = fd and c = c and c' = "c\<lparr>peer_closed := True\<rparr>" and a = "answers s" and b = "sent s" and d = "received s"]) (auto simp: put_conn_def)
  next
    case (receive fd c bytes)
    then show ?thesis by (intro that(2) touch [where fd = fd and c = c and c' = "c\<lparr>parser := snd (feed (parser c) (inbound c @ bytes)), inbound := []\<rparr>" and a = "answers s" and b = "sent s"]) (auto simp: take_bytes_def put_conn_def)
  next
    case (refusal fd c msg c')
    then show ?thesis by (intro that(2) touch [where fd = fd and c = c and c' = "c'\<lparr>outbound := outbound c' @ msg, peer_closed := True\<rparr>" and b = "sent s" and d = "received s"]) (auto simp: queue_response_def put_conn_def)
  next
    case (answer k c)
    then show ?thesis by (intro that(2) touch [where fd = "compl_fd k" and c = c and c' = "c\<lparr>request_in_flight := False, outbound := outbound c @ serialized_response k, peer_closed := True\<rparr>" and b = "sent s" and d = "received s"]) (auto simp: queue_response_def put_conn_def)
  next
    case (transmitted fd c n)
    then show ?thesis by (intro that(2) touch [where fd = fd and c = c and c' = "fst (transmit fd n c s)" and a = "answers s" and d = "received s"]) (auto simp: transmit_def put_conn_def Let_def)
  next
    case (clear fd c)
    then show ?thesis by (intro that(2) touch [where fd = fd and c = c and c' = "c\<lparr>outbound := [], outbound_offset := 0\<rparr>" and a = "answers s" and b = "sent s" and d = "received s"]) (auto simp: put_conn_def)
  qed (use that in blast)+
qed

section \<open>Descriptors\<close>

definition fds :: "'a node \<Rightarrow> int list" where
  "fds s = file_descriptors (conns s)"

definition own_fds :: "'a node \<Rightarrow> int list" where
  "own_fds s = completion_fd s # (if draining s then [] else [listener_fd s])"

definition fd_inv :: "'a node \<Rightarrow> bool" where
  "fd_inv s \<longleftrightarrow> table_inv (conns s) \<and> distinct (fds s @ own_fds s) \<and> (draining s \<or> listener_fd s \<noteq> -1) \<and>
     dom (interest (loop s)) = set (fds s @ own_fds s) \<and>
     mset (fds_opened s) = mset (fds_closed s) + mset (fds s @ own_fds s) + {#epoll_fd (loop s)#}"

lemma fds_get: "set (fds s) = dom (get_conn s)"
  by (simp add: fds_def table.fds_dom get_conn_def [abs_def] fun_eq_iff)

lemma fds_put: "get_conn s fd = Some c \<Longrightarrow> file_descriptors (conn_put fd c' (conns s)) = fds s"
  using fds_get [of s] by (auto simp: fds_def file_descriptors_def conn_put_def update_keys)

lemma fd_inv_same:
  assumes "fd_inv s" and "fds s' = fds s" "own_fds s' = own_fds s" "draining s' \<or> listener_fd s' \<noteq> -1" "table_inv (conns s')"
    "dom (interest (loop s')) = dom (interest (loop s))" "epoll_fd (loop s') = epoll_fd (loop s)"
    "fds_opened s' = fds_opened s" "fds_closed s' = fds_closed s"
  shows "fd_inv s'"
  using assms by (simp add: fd_inv_def)

lemma touches_fds: "touches s s' \<Longrightarrow> fds s' = fds s"
  using fds_put by (auto simp: touches_def fds_def)

lemma fd_inv_close:
  assumes inv: "fd_inv s" and c: "get_conn s fd \<noteq> None"
  shows "fd_inv (close_client fd s)"
proof -
  let ?s = "close_client fd s"
  have mem: "fd \<in> set (fds s)" using c by (auto simp: fds_get)
  have fields: "own_fds ?s = own_fds s" "draining ?s = draining s" "listener_fd ?s = listener_fd s" "epoll_fd (loop ?s) = epoll_fd (loop s)"
    "fds_opened ?s = fds_opened s" "fds_closed ?s = fds_closed s @ [fd]" "dom (interest (loop ?s)) = dom (interest (loop s)) - {fd}"
    using interest_close [of fd "loop s"] by (auto simp: own_fds_def node_ops)
  have conns: "conns ?s = conn_remove fd (conns s)" using c by (simp add: close_client_def Let_def) (simp add: node_ops)
  then have fds: "fds ?s = removeAll fd (fds s)" by (simp add: fds_def file_descriptors_def conn_remove_def delete_keys)
  have d: "distinct (fds s)" using inv by (simp add: fd_inv_def)
  have "mset (removeAll fd (fds s)) = mset (fds s) - {#fd#}" using d by (simp add: distinct_remove1_removeAll [symmetric])
  moreover have "fd \<notin> set (own_fds s)" using inv mem by (auto simp: fd_inv_def)
  moreover have "table_inv (conns ?s)" using inv conns by (simp add: fd_inv_def table.invar_remove)
  ultimately show ?thesis using inv mem
    by (auto simp: fd_inv_def fields fds distinct_removeAll)
qed

lemma fd_inv_effect:
  assumes "effect s s'" and inv: "fd_inv s"
  shows "fd_inv s'"
  using assms(1)
proof (cases rule: effect_shapes)
  case quiet
  then show ?thesis using inv by (intro fd_inv_same [of s s']) (auto simp: quiet_def fds_def own_fds_def fd_inv_def)
next
  case touch
  then have "table_inv (conns s')" using inv by (auto simp: touches_def fd_inv_def table.invar_put)
  then show ?thesis using inv touch touches_fds [OF touch]
    by (intro fd_inv_same [OF inv]) (auto simp: touches_def own_fds_def fd_inv_def)
next
  case (close fd)
  then show ?thesis using inv by (simp add: fd_inv_close)
next
  case (refuse fd)
  then have "fd \<notin> dom (interest (loop s))" using inv by (auto simp: holds_fd_def fd_inv_def fds_get own_fds_def)
  then show ?thesis using refuse(2) inv by (auto simp: fd_inv_def fds_def own_fds_def forget_fd_def)
next
  case (admit fd ev ip)
  have new: "fd \<notin> set (fds s)" "fd \<noteq> completion_fd s" "fd \<noteq> listener_fd s" using admit(1) by (auto simp: holds_fd_def fds_get)
  then have "fds s' = fds s @ [fd]" by (simp add: admit(3) fds_def file_descriptors_def conn_add_def set_metrics_def update_keys)
  moreover have "own_fds s' = own_fds s" "interest (loop s') = (interest (loop s))(fd \<mapsto> ev)" "epoll_fd (loop s') = epoll_fd (loop s)"
    using admit(2) by (simp_all add: admit(3) own_fds_def set_metrics_def interest_add loop_add_def split_beta)
  moreover have "table_inv (conns s')" using inv by (simp add: admit(3) fd_inv_def set_metrics_def conn_add_put table.invar_put)
  ultimately show ?thesis using inv new unfolding fd_inv_def by (auto simp: admit(3) set_metrics_def own_fds_def)
next
  case (dispatch fd c)
  have "fds s' = fds s" using fds_put [OF dispatch(1)] by (simp add: dispatch(3) start_task_def fds_def set_pool_def put_conn_def)
  moreover have "table_inv (conns s')" using inv by (simp add: dispatch(3) node_simps fd_inv_def table.invar_put)
  ultimately show ?thesis using inv by (intro fd_inv_same [OF inv]) (simp_all add: dispatch(3) node_simps own_fds_def fd_inv_def)
next
  case (settle k ks)
  then have "draining s \<or> listener_fd s \<noteq> -1" "table_inv (conns s)" using inv by (simp_all add: fd_inv_def)
  then show ?thesis unfolding settle(3) by (intro fd_inv_same [OF inv]) (simp_all add: fds_def own_fds_def)
next
  case stop
  then show ?thesis using interest_close [of "listener_fd s" "loop s"] inv
    by (auto simp: fd_inv_def fds_def own_fds_def node_ops)
qed

lemma fd_inv_effects: "effects s s' \<Longrightarrow> fd_inv s \<Longrightarrow> fd_inv s'"
  by (induction rule: rtranclp_induct) (auto intro: fd_inv_effect)

section \<open>Counters\<close>

definition own_queued :: "'a node \<Rightarrow> nat" where
  "own_queued s = length (filter (\<lambda>t. task_worker t = worker_id s) (tasks (thread_pool (srv s))))"

text \<open>With \<open>r\<close> of this worker's tasks running on pool threads.\<close>

definition count_inv :: "nat \<Rightarrow> 'a node \<Rightarrow> bool" where
  "count_inv r s \<longleftrightarrow> outstanding_tasks s = (own_queued s + r + length (completions s)) mod 2 ^ 64"

text \<open>Connections of the gauge that are not in this worker's table.\<close>

definition gauge_rest :: "'a node \<Rightarrow> int" where
  "gauge_rest s = (int (open_connections (metrics (srv s))) - int (conn_count (conns s))) mod 2 ^ 64"

lemma conns_count: "table_inv (conns s) \<Longrightarrow> conn_count (conns s) = card (dom (get_conn s))"
  by (simp add: table.count_card get_conn_def [abs_def])

lemma sub64_mod: "sub64 (Suc n mod 2 ^ 64) 1 = n mod 2 ^ 64"
proof -
  have "int (sub64 (Suc n mod 2 ^ 64) 1) = int (n mod 2 ^ 64)" unfolding sub64_count by (simp add: zmod_int mod_simps)
  then show ?thesis by (simp only: of_nat_eq_iff)
qed

lemma count_inv_same:
  "count_inv r s \<Longrightarrow> outstanding_tasks s' = outstanding_tasks s \<Longrightarrow> completions s' = completions s \<Longrightarrow> worker_id s' = worker_id s \<Longrightarrow>
    tasks (thread_pool (srv s')) = tasks (thread_pool (srv s)) \<Longrightarrow> count_inv r s'"
  by (simp add: count_inv_def own_queued_def)

lemma count_inv_effect:
  assumes "effect s s'" and inv: "count_inv r s"
  shows "count_inv r s'"
  using assms(1)
proof (cases rule: effect_shapes)
  case quiet
  moreover have "outstanding_tasks s < 2 ^ 64" using inv by (simp add: count_inv_def)
  ultimately show ?thesis using inv by (simp add: quiet_def count_inv_def own_queued_def)
next
  case touch
  then show ?thesis by (intro count_inv_same [OF inv]) (auto simp: touches_def)
next
  case (dispatch fd c)
  then have "tasks (thread_pool (srv s')) = tasks (thread_pool (srv s)) @ [request_task s fd c]"
    by (simp add: start_task_def set_pool_def put_conn_def submit_def split: if_splits)
  moreover have "task_worker (request_task s fd c) = worker_id s" by (simp add: request_task_def)
  moreover have "outstanding_tasks s' = add64 (outstanding_tasks s) 1" "worker_id s' = worker_id s"
    "completions s' = completions s" by (simp_all add: dispatch(3) node_simps)
  ultimately show ?thesis using inv by (simp add: count_inv_def own_queued_def add64_def mod_simps)
next
  case (settle k ks)
  have "outstanding_tasks s = Suc (own_queued s + r + length ks) mod 2 ^ 64" using settle(1) inv by (simp add: count_inv_def)
  then have "sub64 (outstanding_tasks s) 1 = (own_queued s + r + length ks) mod 2 ^ 64" by (simp only: sub64_mod)
  then show ?thesis by (simp add: settle(3) count_inv_def own_queued_def)
next
  case (close fd)
  show ?thesis unfolding close(2) by (rule count_inv_same [OF inv]) (simp_all add: node_ops)
next
  case (refuse fd)
  show ?thesis unfolding refuse(2) by (rule count_inv_same [OF inv]) simp_all
next
  case (admit fd ev ip)
  show ?thesis unfolding admit(3) by (rule count_inv_same [OF inv]) (simp_all add: node_simps)
next
  case stop
  show ?thesis unfolding stop(2) by (rule count_inv_same [OF inv]) (simp_all add: node_ops begin_shutdown_def)
qed

lemma count_inv_effects: "effects s s' \<Longrightarrow> count_inv r s \<Longrightarrow> count_inv r s'"
  by (induction rule: rtranclp_induct) (auto intro: count_inv_effect)

text \<open>The gauge moves with the table.\<close>

lemma gauge_same:
  assumes "open_connections (metrics (srv s')) = open_connections (metrics (srv s))" and "fds s' = fds s"
  shows "gauge_rest s' = gauge_rest s"
proof -
  have "conn_count (conns s') = conn_count (conns s)"
    using assms(2) by (simp add: fds_def conn_count_def file_descriptors_def) (metis length_map)
  then show ?thesis using assms(1) by (simp add: gauge_rest_def)
qed

lemma gauge_effect:
  assumes "effect s s'" and inv: "table_inv (conns s)"
  shows "gauge_rest s' = gauge_rest s"
  using assms(1)
proof (cases rule: effect_shapes)
  case quiet
  then show ?thesis by (intro gauge_same) (auto simp: quiet_def fds_def)
next
  case touch
  then show ?thesis by (intro gauge_same touches_fds) (auto simp: touches_def)
next
  case (close fd)
  have "fd \<in> set (fds s)" using close(1) by (auto simp: fds_get)
  then have "conn_count (conns s) \<noteq> 0" using table.count_zero [OF inv] by (auto simp: fds_def)
  then obtain n where n: "conn_count (conns s) = Suc n" "conn_count (conn_remove fd (conns s)) = n"
    using table.count_remove [OF inv, of fd] close(1) by (cases "conn_count (conns s)") (auto simp: get_conn_def)
  have "conns s' = conn_remove fd (conns s)" "open_connections (metrics (srv s')) = sub64 (open_connections (metrics (srv s))) 1"
    using close by (auto simp: close_client_def Let_def) (simp_all add: node_ops connection_closed_def)
  then show ?thesis using n by (simp add: gauge_rest_def sub64_count [simplified] mod_diff_left_eq algebra_simps)
next
  case (admit fd ev ip)
  have "get_conn s fd = None" using admit(1) by (auto simp: holds_fd_def)
  then have "conn_count (conns s') = Suc (conn_count (conns s))"
    using table.count_put [OF inv] by (simp add: admit(3) set_metrics_def conn_add_put get_conn_def)
  moreover have "open_connections (metrics (srv s')) = add64 (open_connections (metrics (srv s))) 1"
    by (simp add: admit(3) set_metrics_def connection_opened_def Let_def)
  ultimately show ?thesis by (simp add: gauge_rest_def add64_def zmod_int mod_simps)
next
  case (refuse fd)
  show ?thesis unfolding refuse(2) by (rule gauge_same) (simp_all add: fds_def)
next
  case (dispatch fd c)
  have "fds s' = fds s" using fds_put [OF dispatch(1)] by (simp add: dispatch(3) start_task_def fds_def set_pool_def put_conn_def)
  then show ?thesis by (intro gauge_same) (simp_all add: dispatch(3) node_simps)
next
  case (settle k ks)
  show ?thesis unfolding settle(3) by (rule gauge_same) (simp_all add: fds_def)
next
  case stop
  show ?thesis unfolding stop(2) by (rule gauge_same) (simp_all add: fds_def node_ops)
qed

section \<open>Requests in flight\<close>

text \<open>The connections for which a response is on its way: with \<open>R\<close> those whose task runs on a
  pool thread.\<close>

definition due :: "'a node \<Rightarrow> (int \<times> nat) set" where
  "due s = (\<lambda>t. (task_fd t, task_generation t)) ` {t \<in> set (tasks (thread_pool (srv s))). task_worker t = worker_id s} \<union>
     (\<lambda>k. (compl_fd k, compl_generation k)) ` set (completions s)"

definition waits :: "(int \<times> nat) set \<Rightarrow> 'a node \<Rightarrow> bool" where
  "waits R s \<longleftrightarrow> (\<forall>fd c. get_conn s fd = Some c \<longrightarrow> request_in_flight c \<longrightarrow> (fd, generation c) \<in> due s \<union> R)"

lemma waits_mono:
  assumes "waits R s" "due s \<subseteq> due s'"
    and "\<And>fd c. get_conn s' fd = Some c \<Longrightarrow> request_in_flight c \<Longrightarrow>
      \<exists>b. get_conn s fd = Some b \<and> request_in_flight b \<and> generation b = generation c"
  shows "waits R s'"
  unfolding waits_def
proof (intro allI impI)
  fix fd c
  assume "get_conn s' fd = Some c" "request_in_flight c"
  then obtain b where "get_conn s fd = Some b" "request_in_flight b" "generation b = generation c" using assms(3) by blast
  then show "(fd, generation c) \<in> due s' \<union> R" using assms(1,2) unfolding waits_def by fastforce
qed

lemma waits_effect:
  assumes "effect s s'" and inv: "waits R s"
  shows "waits R s'"
  using assms(1)
proof (cases rule: effect_shapes)
  case quiet
  then have "due s' = due s" and "conns s' = conns s" by (simp_all add: quiet_def due_def)
  then have "due s' = due s" "get_conn s' = get_conn s" by (auto simp: get_conn_def)
  then show ?thesis using inv by (simp add: waits_def)
next
  case touch
  then have "due s' = due s" by (auto simp: touches_def due_def)
  moreover obtain fd c c' where c: "get_conn s fd = Some c" "conns s' = conn_put fd c' (conns s)" "generation c' = generation c"
    "request_in_flight c' \<longrightarrow> request_in_flight c" using touch by (auto simp: touches_def)
  moreover from c have "get_conn s' = (get_conn s)(fd \<mapsto> c')" by (auto simp: get_conn_def table.get_put)
  ultimately show ?thesis by (intro waits_mono [OF inv]) (auto split: if_splits)
next
  case (close fd)
  have "due s' = due s" by (simp add: close(2) due_def node_ops)
  then show ?thesis by (intro waits_mono [OF inv]) (auto simp: close(2) split: if_splits)
next
  case (admit fd ev ip)
  have g: "get_conn s' = (get_conn s)(fd \<mapsto> new_connection fd ip (next_generation s))"
    by (auto simp: admit(3) set_metrics_def get_conn_def conn_add_put table.get_put)
  have "due s' = due s" by (simp add: admit(3) due_def node_simps)
  then show ?thesis by (intro waits_mono [OF inv]) (auto simp: g admit_ok split: if_splits)
next
  case (dispatch fd c)
  have "tasks (thread_pool (srv s')) = tasks (thread_pool (srv s)) @ [request_task s fd c]"
    using dispatch by (simp add: start_task_def set_pool_def put_conn_def submit_def split: if_splits)
  moreover have "worker_id s' = worker_id s" "completions s' = completions s" by (simp_all add: dispatch(3) node_simps)
  moreover have "{t \<in> insert (request_task s fd c) A. task_worker t = worker_id s} =
    insert (request_task s fd c) {t \<in> A. task_worker t = worker_id s}" for A by (auto simp: request_task_def)
  ultimately have d: "due s' = insert (fd, generation c) (due s)" by (simp add: due_def) (simp add: request_task_def)
  have "get_conn s' = (get_conn s)(fd \<mapsto> c\<lparr>request_in_flight := True\<rparr>)" by (auto simp: dispatch(3) start_task_def)
  then show ?thesis using inv d by (auto simp: waits_def split: if_splits)
next
  case (settle k ks)
  have g: "get_conn s' = get_conn s" by (simp add: settle(3))
  have "due s \<subseteq> insert (compl_fd k, compl_generation k) (due s')" using settle(1) by (auto simp: settle(3) due_def)
  then show ?thesis using inv settle(2) unfolding waits_def g by blast
next
  case (refuse fd)
  have "due s' = due s" "get_conn s' = get_conn s" by (simp_all add: refuse(2) due_def get_conn_def fun_eq_iff)
  then show ?thesis using inv by (simp add: waits_def)
next
  case stop
  have "get_conn s' = get_conn s" by (auto simp: stop(2) stop_accepting_def Let_def)
  moreover have "due s' = due s" by (simp add: stop(2) due_def node_ops begin_shutdown_def)
  ultimately show ?thesis using inv by (simp add: waits_def)
qed

lemma waits_effects: "effects s s' \<Longrightarrow> waits R s \<Longrightarrow> waits R s'"
  by (induction rule: rtranclp_induct) (auto intro: waits_effect)

section \<open>Origin of responses\<close>

text \<open>\<open>R\<close> holds the generation and the text of every response that a task of this worker has
  computed.\<close>

definition origin :: "(nat \<times> string) set \<Rightarrow> 'a node \<Rightarrow> bool" where
  "origin R s \<longleftrightarrow>
     (\<forall>a \<in> set (answers s). snd a = bad_request_text \<or> snd a = overloaded_text \<or> a \<in> R) \<and>
     (\<forall>k \<in> set (completions s). (compl_generation k, serialized_response k) \<in> R)"

lemma origin_effect: "effect s s' \<Longrightarrow> origin R s \<Longrightarrow> origin R s'"
  by (induction rule: effect.induct) (auto simp: origin_def quiet_def node_ops)

lemma origin_effects: "effects s s' \<Longrightarrow> origin R s \<Longrightarrow> origin R s'"
  by (induction rule: rtranclp_induct) (auto intro: origin_effect)

section \<open>What an effect does to the shared state\<close>

definition submits :: "nat \<Rightarrow> task pool \<Rightarrow> task pool \<Rightarrow> bool" where
  "submits w p p' \<longleftrightarrow> workers p' = workers p \<and> started p' = started p \<and> finished p' = finished p \<and>
     (\<exists>ts. tasks p' = tasks p @ ts \<and> accepted p' = accepted p @ ts \<and> (\<forall>t \<in> set ts. task_worker t = w)) \<and>
     (pool_inv p \<longrightarrow> pool_inv p')"

lemma submits_refl [simp]: "submits w p p" by (simp add: submits_def)

lemma submits_trans: "submits w p q \<Longrightarrow> submits w q r \<Longrightarrow> submits w p r"
  by (fastforce simp: submits_def)

lemma effect_shared:
  assumes "effect s s'"
  shows "submits (worker_id s) (thread_pool (srv s)) (thread_pool (srv s'))"
  using assms
proof (cases rule: effect_shapes)
  case (dispatch fd c)
  then show ?thesis using submit_inv [of "thread_pool (srv s)" "request_task s fd c"]
    by (auto simp: node_simps submits_def submit_def request_task_def split: if_splits)
next
  case stop
  have "thread_pool (srv s') = begin_shutdown (thread_pool (srv s))" by (simp add: stop(2) node_ops)
  then show ?thesis using begin_shutdown_inv [of "thread_pool (srv s)"] by (simp add: submits_def begin_shutdown_def)
qed (auto simp: quiet_def touches_def node_ops)

lemma effects_shared: "effects s s' \<Longrightarrow> submits (worker_id s) (thread_pool (srv s)) (thread_pool (srv s'))"
proof (induction rule: rtranclp_induct)
  case (step t u)
  from effect_shared [OF step(2)] effects_keep [OF step(1)] step(3) show ?case by (auto intro: submits_trans)
qed simp

lemma gauge_effects: "effects s s' \<Longrightarrow> fd_inv s \<Longrightarrow> gauge_rest s' = gauge_rest s"
proof (induction rule: rtranclp_induct)
  case (step t u)
  then have "table_inv (conns t)" using fd_inv_effects [of s t] by (simp add: fd_inv_def)
  with step gauge_effect [of t u] show ?case by simp
qed simp

section \<open>The application and the failure flag\<close>

text \<open>The event loop leaves the application state and the router to the tasks, and a failure it has
  recorded stays recorded.\<close>

lemma effects_app:
  "effects s s' \<Longrightarrow> app (srv s') = app (srv s) \<and> router (srv s') = router (srv s) \<and> (worker_failed (srv s) \<longrightarrow> worker_failed (srv s'))"
proof (induction rule: rtranclp_induct)
  case (step t u)
  have "app (srv u) = app (srv t) \<and> router (srv u) = router (srv t) \<and> (worker_failed (srv t) \<longrightarrow> worker_failed (srv u))"
    using step(2) by (cases rule: effect_shapes) (auto simp: quiet_def touches_def node_ops start_task_def)
  with step show ?case by auto
qed simp

section \<open>The callbacks of the event loop\<close>

text \<open>The worker's callbacks fulfil the contract of \<open>EpollLoop::run\<close> with the accounting of
  descriptors as the property that is kept.\<close>

interpretation fd_loop: event_handlers handle_event on_iteration should_stop fd_inv
  by unfold_locales (auto intro: fd_inv_effects [OF handle_event_effects] fd_inv_effects [OF on_iteration_effects])

interpretation app_loop: event_handlers handle_event on_iteration should_stop "\<lambda>s. app (srv s) = a \<and> router (srv s) = r"
  by unfold_locales (auto simp: effects_app [OF handle_event_effects] effects_app [OF on_iteration_effects])

text \<open>So \<open>worker_loop\<close> keeps it too, for any outcomes of \<open>epoll_wait\<close>, up to where it returns or still
  waits; and it returns from a completed loop only when it has drained.\<close>

lemma run_accounts:
  assumes "fd_inv s" and "\<And>w others t. (w, others) \<in> set ws \<Longrightarrow> fd_inv t \<Longrightarrow> fd_inv (others t)"
  shows "fd_inv (snd (run handle_event on_iteration should_stop (loop s) ws s))"
    and "fst (run handle_event on_iteration should_stop (loop s) ws s) = Some True \<Longrightarrow>
      should_stop (snd (run handle_event on_iteration should_stop (loop s) ws s))"
proof -
  have "fd_inv (snd (epoll_run handle_event on_iteration should_stop ws s))" by (rule fd_loop.inv_run) (use assms in blast)+
  then show "fd_inv (snd (run handle_event on_iteration should_stop (loop s) ws s))" using assms(1) by (simp add: run_def)
qed (auto simp: run_def dest: fd_loop.run_stopped split: if_splits)

end
