(* ===== verification/Tcp_System.thy ===== *)
theory Tcp_System
  imports Tcp_Invariant
begin

text \<open>
  The whole server: all epoll workers, the pool threads and the tasks, interleaved. A step is one
  callback of one epoll worker, one step of a pool thread, one of the two parts of a task, new
  outcomes for a worker's system calls, or a signal. The workers may step in any order and be told
  of any events, which includes every order and every event the kernel can produce.
\<close>

section \<open>States and steps\<close>

text \<open>\<open>pushed\<close> are the pool threads whose task has pushed its completion and not yet returned;
  \<open>results\<close> records the tasks that were run with their serialised responses.\<close>

record 'a gateway =
  shared :: "'a server"
  loops :: "loop_state list"
  pushed :: "nat set"
  results :: "(task \<times> string) list"

definition enter :: "loop_state \<Rightarrow> 'a server \<Rightarrow> 'a node" where
  "enter l sv = loop_state.extend l (node.fields sv)"

definition node_at :: "'a gateway \<Rightarrow> nat \<Rightarrow> 'a node" where
  "node_at g i = enter (loops g ! i) (shared g)"

definition put_node :: "nat \<Rightarrow> 'a node \<Rightarrow> 'a gateway \<Rightarrow> 'a gateway" where
  "put_node i n g = g\<lparr>shared := srv n, loops := (loops g)[i := loop_state.truncate n]\<rparr>"

definition pool :: "'a gateway \<Rightarrow> task pool" where
  "pool g = thread_pool (shared g)"

definition put_pool :: "task pool \<Rightarrow> 'a gateway \<Rightarrow> 'a gateway" where
  "put_pool p g = g\<lparr>shared := (shared g)\<lparr>thread_pool := p\<rparr>\<rparr>"

definition run_task :: "int \<Rightarrow> int \<Rightarrow> real \<Rightarrow> nat option list \<Rightarrow> nat \<Rightarrow> task \<Rightarrow> 'a gateway \<Rightarrow> 'a gateway" where
  "run_task created now el seen j t g =
     (let (response, sv) = respond created now t (shared g);
          g = g\<lparr>shared := sv\<rparr>;
          g = put_node (task_worker t) (push_completion t response el seen (node_at g (task_worker t))) g
      in g\<lparr>pushed := insert j (pushed g), results := results g @ [(t, response_to_string response)]\<rparr>)"

definition end_task :: "nat \<Rightarrow> task \<Rightarrow> 'a gateway \<Rightarrow> 'a gateway" where
  "end_task j t g =
     (let g = g\<lparr>loops := (loops g)[task_worker t := notify_loop (loops g ! task_worker t)], pushed := pushed g - {j}\<rparr>
      in put_pool (task_end j t (pool g)) g)"

inductive sys_step :: "'a gateway \<Rightarrow> 'a gateway \<Rightarrow> bool" where
  callback: "i < length (loops g) \<Longrightarrow> sys_step g (put_node i (handle_event fd ev (node_at g i)) g)"
| iteration: "i < length (loops g) \<Longrightarrow> sys_step g (put_node i (on_iteration (node_at g i)) g)"
| network: "i < length (loops g) \<Longrightarrow>
    sys_step g (put_node i ((node_at g i)\<lparr>net := nt, loop := (loop (node_at g i))\<lparr>ctls := cs\<rparr>\<rparr>) g)"
| signalled: "sys_step g (g\<lparr>shared := handle_shutdown_signal (shared g)\<rparr>)"
| pool_thread: "pool_step (pool g) p \<Longrightarrow> accepted p = accepted (pool g) \<Longrightarrow> finished p = finished (pool g) \<Longrightarrow>
    sys_step g (put_pool p g)"
| task_body: "j < length (workers (pool g)) \<Longrightarrow> workers (pool g) ! j = Running t \<Longrightarrow> j \<notin> pushed g \<Longrightarrow>
    sys_step g (run_task created now el seen j t g)"
| task_done: "j < length (workers (pool g)) \<Longrightarrow> workers (pool g) ! j = Running t \<Longrightarrow> j \<in> pushed g \<Longrightarrow>
    sys_step g (end_task j t g)"

text \<open>The start: every worker has set up its listener, its epoll instance and its eventfd, the pool
  and the metrics are new. That the kernel hands out distinct descriptors is assumed of it.\<close>

definition fresh_setup :: "setup_calls \<Rightarrow> bool" where
  "fresh_setup u \<longleftrightarrow> distinct [socket_result u, epoll_create_result u, eventfd_result u] \<and> epoll_create_result u \<noteq> -1"

definition set_up :: "'a server \<Rightarrow> nat \<Rightarrow> loop_state \<Rightarrow> bool" where
  "set_up sv i l \<longleftrightarrow> (\<exists>u cs port backlog nt n. fresh_setup u \<and>
     worker_setup u cs port backlog i (new_node nt sv) = (True, n) \<and> l = loop_state.truncate n)"

definition sys_start :: "nat \<Rightarrow> nat \<Rightarrow> 'a gateway \<Rightarrow> bool" where
  "sys_start threads cap g \<longleftrightarrow> pool g = new_pool threads cap \<and> open_connections (metrics (shared g)) = 0 \<and>
     pushed g = {} \<and> results g = [] \<and> (\<forall>i < length (loops g). set_up (shared g) i (loops g ! i))"

section \<open>The invariant\<close>

text \<open>The pool threads that have still to push the completion of a task of worker \<open>i\<close>.\<close>

definition active :: "'a gateway \<Rightarrow> nat \<Rightarrow> nat set" where
  "active g i = {j. j < length (workers (pool g)) \<and> j \<notin> pushed g \<and> (\<exists>t. workers (pool g) ! j = Running t \<and> task_worker t = i)}"

definition active_pairs :: "'a gateway \<Rightarrow> nat \<Rightarrow> (int \<times> nat) set" where
  "active_pairs g i = {(task_fd t, task_generation t) | t. task_worker t = i \<and>
     (\<exists>j. j < length (workers (pool g)) \<and> j \<notin> pushed g \<and> workers (pool g) ! j = Running t)}"

definition responses :: "'a gateway \<Rightarrow> nat \<Rightarrow> (nat \<times> string) set" where
  "responses g i = {(task_generation t, x) | t x. (t, x) \<in> set (results g) \<and> task_worker t = i}"

definition worker_inv :: "'a gateway \<Rightarrow> nat \<Rightarrow> bool" where
  "worker_inv g i \<longleftrightarrow> (let n = node_at g i in worker_id n = i \<and> fd_inv n \<and> (feasible n \<longrightarrow> loop_inv n) \<and>
     count_inv (card (active g i)) n \<and> waits (active_pairs g i) n \<and> origin (responses g i) n)"

definition total_connections :: "'a gateway \<Rightarrow> nat" where
  "total_connections g = sum_list (map (\<lambda>l. conn_count (conns l)) (loops g))"

definition sys_inv :: "'a gateway \<Rightarrow> bool" where
  "sys_inv g \<longleftrightarrow> (\<forall>i < length (loops g). worker_inv g i) \<and>
     (int (open_connections (metrics (shared g))) - int (total_connections g)) mod 2 ^ 64 = 0 \<and>
     pool_inv (pool g) \<and> (\<forall>t \<in> set (accepted (pool g)). task_worker t < length (loops g)) \<and>
     (\<forall>r \<in> set (results g). fst r \<in> set (started (pool g))) \<and>
     (\<forall>j \<in> pushed g. j < length (workers (pool g)) \<and> (\<exists>t. workers (pool g) ! j = Running t))"

lemma enter_simps [simp]:
  "srv (enter l sv) = sv" "loop_state.truncate (enter l sv) = l"
  "completion_fd (enter l sv) = completion_fd l" "completions (enter l sv) = completions l"
  "outstanding_tasks (enter l sv) = outstanding_tasks l" "next_generation (enter l sv) = next_generation l"
  "worker_id (enter l sv) = worker_id l" "draining (enter l sv) = draining l" "listener_fd (enter l sv) = listener_fd l"
  "loop (enter l sv) = loop l" "conns (enter l sv) = conns l" "fds_opened (enter l sv) = fds_opened l"
  "fds_closed (enter l sv) = fds_closed l" "received (enter l sv) = received l" "answers (enter l sv) = answers l"
  "sent (enter l sv) = sent l" "notifications (enter l sv) = notifications l" "net (enter l sv) = net l"
  by (simp_all add: enter_def loop_state.defs node.defs)

lemma enter_truncate [simp]: "enter (loop_state.truncate n) (srv n) = n"
  by (simp add: enter_def loop_state.defs node.defs)

lemma truncate_simps [simp]: "conns (loop_state.truncate n) = conns n"
  by (simp add: loop_state.defs)

lemma node_at_put [simp]:
  "i < length (loops g) \<Longrightarrow> node_at (put_node i n g) j = (if j = i then n else enter (loops g ! j) (srv n))"
  by (simp add: node_at_def put_node_def)

lemma put_node_simps [simp]: "length (loops (put_node i n g)) = length (loops g)" "pushed (put_node i n g) = pushed g"
  "results (put_node i n g) = results g" "pool (put_node i n g) = thread_pool (srv n)" "shared (put_node i n g) = srv n"
  by (simp_all add: put_node_def pool_def)

lemma pool_node_at: "thread_pool (srv (node_at g i)) = pool g"
  by (simp add: node_at_def pool_def)

section \<open>Steps keep the invariant\<close>

definition mine :: "nat \<Rightarrow> task list \<Rightarrow> task list" where
  "mine i ts = filter (\<lambda>t. task_worker t = i) ts"

lemma mine_append [simp]: "mine i (xs @ ys) = mine i xs @ mine i ys" "mine i [] = []" by (simp_all add: mine_def)

text \<open>A worker that does not step sees of the shared state only its own tasks.\<close>

lemma enter_frame:
  assumes "mine (worker_id l) (accepted (thread_pool sv')) = mine (worker_id l) (accepted (thread_pool sv))"
  shows "fd_inv (enter l sv') = fd_inv (enter l sv)" "feasible (enter l sv') = feasible (enter l sv)"
    "loop_inv (enter l sv') = loop_inv (enter l sv)" "origin Q (enter l sv') = origin Q (enter l sv)"
proof -
  have get: "get_conn (enter l sv') = get_conn (enter l sv)" by (simp add: get_conn_def fun_eq_iff)
  have acc: "t \<in> set (accepted (thread_pool sv')) \<and> task_worker t = worker_id l \<longleftrightarrow>
      t \<in> set (accepted (thread_pool sv)) \<and> task_worker t = worker_id l" for t
    using arg_cong [OF assms, of set] by (auto simp: mine_def)
  have ta: "(\<forall>t \<in> set (accepted (thread_pool sv')). task_worker t = worker_id l \<longrightarrow> P t) \<longleftrightarrow>
      (\<forall>t \<in> set (accepted (thread_pool sv)). task_worker t = worker_id l \<longrightarrow> P t)" for P
    using acc by blast
  show "fd_inv (enter l sv') = fd_inv (enter l sv)" by (simp add: fd_inv_def fds_def own_fds_def)
  show "feasible (enter l sv') = feasible (enter l sv)" by (simp add: feasible_def)
  have t: "task_ok (enter l sv') t = task_ok (enter l sv) t" for t by (simp add: task_ok_def)
  show "loop_inv (enter l sv') = loop_inv (enter l sv)"
    unfolding loop_inv_def get conn_ok_def unused_def t by (simp add: ta)
  show "origin Q (enter l sv') = origin Q (enter l sv)" by (simp add: origin_def)
qed

lemma enter_tasks:
  assumes "mine (worker_id l) (tasks (thread_pool sv')) = mine (worker_id l) (tasks (thread_pool sv))"
  shows "count_inv r (enter l sv') = count_inv r (enter l sv)" "waits R (enter l sv') = waits R (enter l sv)"
proof -
  have get: "get_conn (enter l sv') = get_conn (enter l sv)" by (simp add: get_conn_def fun_eq_iff)
  show "count_inv r (enter l sv') = count_inv r (enter l sv)" using assms by (simp add: count_inv_def own_queued_def mine_def)
  have "{t \<in> set (tasks (thread_pool sv')). task_worker t = worker_id l} = {t \<in> set (tasks (thread_pool sv)). task_worker t = worker_id l}"
    using arg_cong [OF assms, of set] by (auto simp: mine_def)
  then have "due (enter l sv') = due (enter l sv)" by (simp add: due_def)
  then show "waits R (enter l sv') = waits R (enter l sv)" by (simp add: waits_def get)
qed

lemma int_sum_update: "i < length xs \<Longrightarrow> int (sum_list (xs[i := y])) = int (sum_list xs) - int (xs ! i) + int y"
proof (induction xs arbitrary: i)
  case (Cons x xs)
  then show ?case by (cases i) auto
qed simp

lemma total_update:
  assumes "i < length (loops g)" and "loops g' = (loops g)[i := l]"
  shows "int (total_connections g') = int (total_connections g) - int (conn_count (conns (loops g ! i))) + int (conn_count (conns l))"
  using assms int_sum_update [of i "map (\<lambda>l. conn_count (conns l)) (loops g)"] by (simp add: total_connections_def map_update)

lemma loop_step_inv:
  assumes i: "i < length (loops g)" and inv: "sys_inv g" and eff: "effects (node_at g i) n"
  shows "sys_inv (put_node i n g)"
proof -
  let ?g = "put_node i n g"
  note sh = effects_shared [OF eff, unfolded pool_node_at]
  then obtain ts where ts: "tasks (pool ?g) = tasks (pool g) @ ts" "accepted (pool ?g) = accepted (pool g) @ ts"
    "\<forall>t \<in> set ts. task_worker t = worker_id (node_at g i)" by (auto simp: submits_def)
  have wi: "worker_inv g i" using inv i by (simp add: sys_inv_def)
  then have id: "worker_id (node_at g i) = i" by (simp add: worker_inv_def Let_def)
  have act: "active ?g k = active g k" "active_pairs ?g k = active_pairs g k" "responses ?g k = responses g k" for k
    using sh by (simp_all add: active_def active_pairs_def responses_def submits_def)
  have "worker_inv ?g k" if k: "k < length (loops g)" for k
  proof (cases "k = i")
    case True
    have "feasible n \<Longrightarrow> loop_inv n" using wi feasible_backs [OF eff] loop_inv_effects [OF eff] by (simp add: worker_inv_def Let_def)
    then show ?thesis
      using wi True i act effects_keep [OF eff] fd_inv_effects [OF eff] count_inv_effects [OF eff] waits_effects [OF eff] origin_effects [OF eff]
      by (simp add: worker_inv_def Let_def)
  next
    case False
    have "worker_inv g k" using inv k by (simp add: sys_inv_def)
    then have kid: "worker_id (loops g ! k) = k" by (simp add: worker_inv_def Let_def node_at_def)
    have "mine k ts = []" using ts(3) id False by (auto simp: mine_def filter_empty_conv)
    then have "mine k (accepted (thread_pool (srv n))) = mine k (accepted (thread_pool (shared g)))"
      "mine k (tasks (thread_pool (srv n))) = mine k (tasks (thread_pool (shared g)))" using ts by (simp_all add: pool_def)
    then have fr: "mine (worker_id (loops g ! k)) (accepted (thread_pool (srv n))) = mine (worker_id (loops g ! k)) (accepted (thread_pool (shared g)))"
      "mine (worker_id (loops g ! k)) (tasks (thread_pool (srv n))) = mine (worker_id (loops g ! k)) (tasks (thread_pool (shared g)))"
      by (simp_all add: kid)
    show ?thesis using \<open>worker_inv g k\<close> False i enter_frame [OF fr(1)] enter_tasks [OF fr(2)] by (simp add: worker_inv_def Let_def act node_at_def [of g k])
  qed
  moreover have "(int (open_connections (metrics (srv n))) - int (total_connections ?g)) mod 2 ^ 64 = 0"
  proof -
    have "gauge_rest n = gauge_rest (node_at g i)" using gauge_effects [OF eff] wi by (simp add: worker_inv_def Let_def)
    then have "(int (open_connections (metrics (srv n))) - int (conn_count (conns n))) mod 2 ^ 64 =
      (int (open_connections (metrics (shared g))) - int (conn_count (conns (loops g ! i)))) mod 2 ^ 64"
      by (simp add: gauge_rest_def node_at_def)
    then have "(int (open_connections (metrics (srv n))) - int (conn_count (conns n)) + (int (conn_count (conns (loops g ! i))) - int (total_connections g))) mod 2 ^ 64 =
      (int (open_connections (metrics (shared g))) - int (conn_count (conns (loops g ! i))) + (int (conn_count (conns (loops g ! i))) - int (total_connections g))) mod 2 ^ 64"
      by (rule mod_add_cong) simp
    note m = this
    have tot: "int (total_connections ?g) = int (total_connections g) - int (conn_count (conns (loops g ! i))) + int (conn_count (conns n))"
      using total_update [OF i, of ?g "loop_state.truncate n"] by (simp add: put_node_def)
    show ?thesis unfolding tot using m inv by (simp add: sys_inv_def algebra_simps)
  qed
  moreover have "\<forall>t \<in> set (accepted (pool ?g)). task_worker t < length (loops g)" using ts id i inv by (auto simp: sys_inv_def)
  ultimately show ?thesis using inv sh by (simp add: sys_inv_def submits_def)
qed

text \<open>Steps of the pool threads.\<close>

definition pool_moves :: "task pool \<Rightarrow> task pool \<Rightarrow> bool" where
  "pool_moves p q \<longleftrightarrow> pool_inv q \<and> accepted q = accepted p \<and> length (workers q) = length (workers p) \<and>
     ((\<exists>j t. j < length (workers p) \<and> (\<forall>u. workers p ! j \<noteq> Running u) \<and> tasks p = t # tasks q \<and> started q = started p @ [t] \<and>
        workers q = (workers p)[j := Running t]) \<or>
      (tasks q = tasks p \<and> started q = started p \<and>
        (\<forall>j t. j < length (workers p) \<longrightarrow> (workers q ! j = Running t \<longleftrightarrow> workers p ! j = Running t))))"

lemma wake_Running [simp]: "wake w = Running t \<longleftrightarrow> w = Running t"
  by (simp add: wake_def)

lemma pool_moves_step:
  assumes "pool_step p q" and acc: "accepted q = accepted p" "finished q = finished p" and inv: "pool_inv p"
  shows "pool_moves p q"
proof -
  have "pool_inv q" using pool.inv_step [OF inv assms(1)] .
  from assms(1) consider "worker_step p q" | "client_step p q" by (auto simp: pool_step_def)
  then show ?thesis
  proof cases
    case 1
    then show ?thesis using \<open>pool_inv q\<close> acc
      by (cases rule: worker_step.cases; cases "tasks p")
        (auto simp: pool_moves_def worker_check_def task_end_def worker_release_def notify_one_def notify_all_def nth_list_update)
  next
    case 2
    then show ?thesis using \<open>pool_inv q\<close> acc
      by (cases rule: client_step.cases) (auto simp: pool_moves_def submit_def begin_shutdown_def nth_list_update split: if_splits)
  qed
qed

lemma worker_inv_shift:
  assumes inv: "worker_inv g i" and l': "loops g' ! i = (loops g ! i)\<lparr>completions := ks, notifications := m\<rparr>"
    and acc: "mine i (accepted (pool g')) = mine i (accepted (pool g))"
    and cnt: "length (mine i (tasks (pool g'))) + card (active g' i) + length ks =
      length (mine i (tasks (pool g))) + card (active g i) + length (completions (loops g ! i))"
    and due: "due (node_at g i) \<union> active_pairs g i \<subseteq> due (node_at g' i) \<union> active_pairs g' i"
    and org: "responses g i \<subseteq> responses g' i"
      "\<And>k. k \<in> set ks \<Longrightarrow> k \<in> set (completions (loops g ! i)) \<or> (compl_generation k, serialized_response k) \<in> responses g' i"
  shows "worker_inv g' i"
proof -
  let ?l = "loops g ! i" and ?l' = "loops g' ! i"
  note w = inv [unfolded worker_inv_def Let_def]
  have id: "worker_id ?l = i" using w by (simp add: node_at_def)
  have fr: "mine (worker_id ?l) (accepted (thread_pool (shared g'))) = mine (worker_id ?l) (accepted (thread_pool (shared g)))"
    using acc id by (simp add: pool_def)
  note fr = enter_frame [OF this]
  have "loop_inv (enter ?l' (shared g'))" if "loop_inv (enter ?l (shared g'))"
    by (rule loop_inv_cong [OF that]) (simp_all add: l')
  moreover have "fd_inv (enter ?l' (shared g')) = fd_inv (enter ?l (shared g'))" "feasible (enter ?l' (shared g')) = feasible (enter ?l (shared g'))"
    by (simp_all add: fd_inv_def fds_def own_fds_def feasible_def l')
  moreover have "count_inv (card (active g' i)) (node_at g' i)"
    using w cnt id by (simp add: count_inv_def own_queued_def node_at_def l' mine_def pool_def)
  moreover have "waits (active_pairs g' i) (node_at g' i)"
  proof -
    have "get_conn (node_at g' i) = get_conn (node_at g i)" by (simp add: node_at_def get_conn_def fun_eq_iff l')
    then show ?thesis using w due unfolding waits_def by (metis (no_types, lifting) subsetD)
  qed
  moreover have "origin (responses g' i) (node_at g' i)" using w org by (auto simp: origin_def node_at_def l')
  ultimately show ?thesis using w fr by (simp add: worker_inv_def Let_def node_at_def l')
qed

lemma finite_active [simp]: "finite (active g i)" by (simp add: active_def)

lemma sys_inv_frame:
  assumes "sys_inv g" and "length (loops g') = length (loops g)" "\<And>i. i < length (loops g) \<Longrightarrow> worker_inv g' i"
    and "open_connections (metrics (shared g')) = open_connections (metrics (shared g))" "total_connections g' = total_connections g"
    and "pool_inv (pool g')" "accepted (pool g') = accepted (pool g)" 
    and "\<forall>r \<in> set (results g'). fst r \<in> set (started (pool g'))"
    and "\<forall>j \<in> pushed g'. j < length (workers (pool g')) \<and> (\<exists>t. workers (pool g') ! j = Running t)"
  shows "sys_inv g'"
  using assms by (simp add: sys_inv_def)

lemma put_pool_simps [simp]: "pool (put_pool q g) = q" "loops (put_pool q g) = loops g" "pushed (put_pool q g) = pushed g"
  "results (put_pool q g) = results g" "metrics (shared (put_pool q g)) = metrics (shared g)"
  by (simp_all add: put_pool_def pool_def)

lemma due_node: "due (node_at g i) = (\<lambda>t. (task_fd t, task_generation t)) ` set (mine (worker_id (loops g ! i)) (tasks (pool g))) \<union>
  (\<lambda>k. (compl_fd k, compl_generation k)) ` set (completions (loops g ! i))"
  by (auto simp: due_def node_at_def mine_def pool_def)

lemma same_loop: "l\<lparr>completions := completions l, notifications := notifications l\<rparr> = l" for l :: loop_state
  by simp

lemma worker_inv_id: "worker_inv g i \<Longrightarrow> worker_id (loops g ! i) = i"
  by (simp add: worker_inv_def node_at_def Let_def)

text \<open>A pool thread takes a task: it is no longer queued, it is active.\<close>

lemma pool_take_inv:
  assumes w: "worker_inv g i" and j: "j < length (workers (pool g))" "\<forall>u. workers (pool g) ! j \<noteq> Running u" "j \<notin> pushed g"
    and t: "tasks (pool g) = t # tasks q" "accepted q = accepted (pool g)" "workers q = (workers (pool g))[j := Running t]"
  shows "worker_inv (put_pool q g) i"
proof -
  let ?g = "put_pool q g"
  have act: "active ?g i = (if task_worker t = i then insert j (active g i) else active g i)" "j \<notin> active g i"
    using j by (auto simp: active_def t(3) nth_list_update)
  have prs: "active_pairs g i \<subseteq> active_pairs ?g i"
    using j by (auto simp: active_pairs_def t(3) nth_list_update)
  have new: "(task_fd t, task_generation t) \<in> active_pairs ?g i" if "task_worker t = i"
    using j that by (auto simp: active_pairs_def t(3) intro!: exI [of _ t] exI [of _ j])
  have m: "mine i (tasks (pool g)) = (if task_worker t = i then t # mine i (tasks q) else mine i (tasks q))"
    by (simp add: t(1) mine_def)
  have id: "worker_id (loops g ! i) = i" by (rule worker_inv_id [OF w])
  show ?thesis
  proof (rule worker_inv_shift [OF w, where ks = "completions (loops g ! i)" and m = "notifications (loops g ! i)"])
    show "due (node_at g i) \<union> active_pairs g i \<subseteq> due (node_at ?g i) \<union> active_pairs ?g i"
      using prs new m id by (auto simp: due_node split: if_splits)
  qed (use act m t(2) in \<open>simp_all add: responses_def\<close>)
qed

lemma pool_thread_inv:
  assumes inv: "sys_inv g" and mv: "pool_moves (pool g) q"
  shows "sys_inv (put_pool q g)"
proof -
  let ?g = "put_pool q g"
  have psh: "\<And>j. j \<in> pushed g \<Longrightarrow> j < length (workers (pool g)) \<and> (\<exists>t. workers (pool g) ! j = Running t)"
    and st: "\<forall>r \<in> set (results g). fst r \<in> set (started (pool g))" using inv by (auto simp: sys_inv_def)
  have q: "pool_inv q" "accepted q = accepted (pool g)" "length (workers q) = length (workers (pool g))"
    using mv by (simp_all add: pool_moves_def)
  from mv consider
    (take) j t where "j < length (workers (pool g))" "\<forall>u. workers (pool g) ! j \<noteq> Running u" "tasks (pool g) = t # tasks q"
      "started q = started (pool g) @ [t]" "workers q = (workers (pool g))[j := Running t]"
  | (same) "tasks q = tasks (pool g)" "started q = started (pool g)"
      "\<forall>j t. j < length (workers (pool g)) \<longrightarrow> (workers q ! j = Running t \<longleftrightarrow> workers (pool g) ! j = Running t)"
    unfolding pool_moves_def by blast
  then show ?thesis
  proof cases
    case take
    then have "j \<notin> pushed g" using psh by blast
    then have "worker_inv ?g i" if "i < length (loops g)" for i
      using inv that take q by (intro pool_take_inv [of g i j t q]) (simp_all add: sys_inv_def)
    moreover have "\<exists>u. workers q ! k = Running u" if "k \<in> pushed g" for k
      using psh [OF that] take by (auto simp: nth_list_update)
    ultimately show ?thesis using psh st take q by (intro sys_inv_frame [OF inv]) (auto simp: total_connections_def)
  next
    case same
    have act: "active ?g i = active g i" "active_pairs ?g i = active_pairs g i" for i
      using same(3) q(3) by (auto simp: active_def active_pairs_def)
    have "worker_inv ?g i" if "i < length (loops g)" for i
    proof -
      have w: "worker_inv g i" using inv that by (simp add: sys_inv_def)
      show ?thesis
        by (rule worker_inv_shift [OF w, where ks = "completions (loops g ! i)" and m = "notifications (loops g ! i)"])
          (simp_all add: act same q responses_def due_node)
    qed
    then show ?thesis using psh st same q by (intro sys_inv_frame [OF inv]) (auto simp: total_connections_def)
  qed
qed

text \<open>A task runs: it is no longer active, its completion is queued.\<close>

lemma respond_keeps: "metrics (snd (respond created now t sv)) = metrics sv" "thread_pool (snd (respond created now t sv)) = thread_pool sv"
  by (simp_all add: respond_def Let_def split_beta split: sum.split)

definition completion_of :: "task \<Rightarrow> http_response \<Rightarrow> real \<Rightarrow> completion" where
  "completion_of t response el = \<lparr>compl_fd = task_fd t, compl_generation = task_generation t,
     serialized_response = response_to_string response, compl_status = status_code response, compl_elapsed = el\<rparr>"

lemma push_fields:
  "loop_state.truncate (push_completion t r el seen (enter l sv)) = l\<lparr>completions := completions l @ [completion_of t r el]\<rparr>"
  "thread_pool (srv (push_completion t r el seen (enter l sv))) = thread_pool sv"
  "open_connections (metrics (srv (push_completion t r el seen (enter l sv)))) = open_connections (metrics sv)"
  by (simp_all add: push_completion_def set_metrics_def enter_def loop_state.defs node.defs completion_of_def completion_queue_size_def)

lemma run_task_fields:
  fixes g :: "'a gateway"
  assumes "i = task_worker t" "i < length (loops g)"
  shows "\<exists>k. loops (run_task created now el seen j t g) = (loops g)[i := (loops g ! i)\<lparr>completions := completions (loops g ! i) @ [k]\<rparr>] \<and>
      compl_fd k = task_fd t \<and> compl_generation k = task_generation t \<and>
      results (run_task created now el seen j t g) = results g @ [(t, serialized_response k)]"
    "pool (run_task created now el seen j t g) = pool g" "pushed (run_task created now el seen j t g) = insert j (pushed g)"
    "open_connections (metrics (shared (run_task created now el seen j t g))) = open_connections (metrics (shared g))"
proof -
  let ?r = "fst (respond created now t (shared g))"
  have "loops (run_task created now el seen j t g) = (loops g)[i := (loops g ! i)\<lparr>completions := completions (loops g ! i) @ [completion_of t ?r el]\<rparr>]"
    "results (run_task created now el seen j t g) = results g @ [(t, serialized_response (completion_of t ?r el))]"
    using assms by (simp_all add: run_task_def Let_def split_beta put_node_def node_at_def push_fields completion_of_def)
  then show "\<exists>k. loops (run_task created now el seen j t g) = (loops g)[i := (loops g ! i)\<lparr>completions := completions (loops g ! i) @ [k]\<rparr>] \<and>
      compl_fd k = task_fd t \<and> compl_generation k = task_generation t \<and>
      results (run_task created now el seen j t g) = results g @ [(t, serialized_response k)]"
    by (intro exI [of _ "completion_of t ?r el"]) (simp add: completion_of_def)
qed (simp_all add: run_task_def Let_def split_beta put_node_def node_at_def push_fields respond_keeps pool_def)

lemma task_body_inv:
  assumes inv: "sys_inv g" and j: "j < length (workers (pool g))" "workers (pool g) ! j = Running t" "j \<notin> pushed g"
  shows "sys_inv (run_task created now el seen j t g)"
proof -
  let ?g = "run_task created now el seen j t g" and ?i = "task_worker t"
  have "t \<in> set (running (workers (pool g)))" using j(1,2) by (force simp: running_def in_set_conv_nth)
  moreover have "mset (started (pool g)) = mset (finished (pool g)) + mset (running (workers (pool g)))"
    "accepted (pool g) = started (pool g) @ tasks (pool g)" using inv by (auto simp: sys_inv_def pool_inv_def)
  ultimately have t: "t \<in> set (started (pool g))" "t \<in> set (accepted (pool g))"
    by (auto simp flip: set_mset_mset)
  then have i: "?i < length (loops g)" using inv by (auto simp: sys_inv_def)
  obtain k where k: "loops ?g = (loops g)[?i := (loops g ! ?i)\<lparr>completions := completions (loops g ! ?i) @ [k]\<rparr>]"
    "compl_fd k = task_fd t" "compl_generation k = task_generation t" "results ?g = results g @ [(t, serialized_response k)]"
    using run_task_fields(1) [OF refl i] by blast
  note f = run_task_fields(2-4) [OF refl i]
  have act: "active ?g m = active g m - {j}" for m by (auto simp: active_def f)
  have jact: "j \<in> active g m \<longleftrightarrow> m = ?i" for m using j by (auto simp: active_def)
  have prs: "active_pairs g m \<subseteq> (if m = ?i then insert (task_fd t, task_generation t) (active_pairs ?g m) else active_pairs ?g m)" for m
  proof
    fix x
    assume "x \<in> active_pairs g m"
    then obtain u l where u: "x = (task_fd u, task_generation u)" "task_worker u = m" "l < length (workers (pool g))" "l \<notin> pushed g"
      "workers (pool g) ! l = Running u" by (auto simp: active_pairs_def)
    have "x \<in> active_pairs ?g m" if "l \<noteq> j" using u that by (auto simp: active_pairs_def f)
    moreover have "u = t" if "l = j" using that u j by simp
    ultimately show "x \<in> (if m = ?i then insert (task_fd t, task_generation t) (active_pairs ?g m) else active_pairs ?g m)"
      using u by (cases "l = j") auto
  qed
  have "worker_inv ?g m" if m: "m < length (loops g)" for m
  proof -
    have w: "worker_inv g m" using inv m by (simp add: sys_inv_def)
    note id = worker_inv_id [OF w]
    show ?thesis
    proof (cases "m = ?i")
      case True
      have "card (active g m) = Suc (card (active ?g m))" using jact [of m] True card_Suc_Diff1 [of "active g m" j] by (simp add: act)
      then show ?thesis using i True k f prs [of m] id
        by (intro worker_inv_shift [OF w, where ks = "completions (loops g ! m) @ [k]" and m = "notifications (loops g ! m)"])
          (auto simp: responses_def due_node)
    next
      case False
      have "active ?g m = active g m" using jact [of m] False by (simp add: act)
      then show ?thesis using False k f prs [of m] id
        by (intro worker_inv_shift [OF w, where ks = "completions (loops g ! m)" and m = "notifications (loops g ! m)"])
          (auto simp: responses_def due_node)
    qed
  qed
  moreover have "total_connections ?g = total_connections g"
    using total_update [OF i k(1)] by simp
  ultimately show ?thesis using inv t j k f by (intro sys_inv_frame [OF inv]) (auto simp: sys_inv_def)
qed

lemma task_done_inv:
  assumes inv: "sys_inv g" and j: "j < length (workers (pool g))" "workers (pool g) ! j = Running t" "j \<in> pushed g"
  shows "sys_inv (end_task j t g)"
proof -
  let ?g = "end_task j t g" and ?i = "task_worker t"
  have f: "loops ?g = (loops g)[?i := notify_loop (loops g ! ?i)]" "pushed ?g = pushed g - {j}" "results ?g = results g"
    "pool ?g = task_end j t (pool g)" "metrics (shared ?g) = metrics (shared g)"
    by (simp_all add: end_task_def put_pool_def pool_def Let_def)
  have act: "active ?g m = active g m" for m using j by (auto simp: active_def f task_end_def nth_list_update split: if_splits)
  have prs: "active_pairs g m \<subseteq> active_pairs ?g m" for m
    using j by (auto simp: active_pairs_def f task_end_def nth_list_update)
  have "worker_inv ?g m" if m: "m < length (loops g)" for m
  proof -
    have w: "worker_inv g m" using inv m by (simp add: sys_inv_def)
    have l: "loops ?g ! m = (loops g ! m)\<lparr>completions := completions (loops g ! m), notifications := notifications (loops ?g ! m)\<rparr>"
      using m by (cases "m = ?i") (simp_all add: f notify_loop_def)
    have "worker_id (loops ?g ! m) = worker_id (loops g ! m)" "completions (loops ?g ! m) = completions (loops g ! m)"
      by (subst l, simp)+
    then have "due (node_at ?g m) = due (node_at g m)" by (simp add: due_node) (simp add: f(4) task_end_def)
    then show ?thesis using prs [of m]
      by (intro worker_inv_shift [OF w l]) (auto simp: act f(3,4) task_end_def responses_def)
  qed
  moreover have "conns (loops ?g ! k) = conns (loops g ! k)" if "k < length (loops g)" for k
    using that by (cases "?i = k") (simp_all add: f notify_loop_def)
  then have "map (\<lambda>l. conn_count (conns l)) (loops ?g) = map (\<lambda>l. conn_count (conns l)) (loops g)"
    by (intro nth_equalityI) (simp_all add: f(1))
  then have "total_connections ?g = total_connections g" by (simp add: total_connections_def)
  moreover have "pool_inv (pool ?g)" using task_end_inv [of "pool g" j t] inv j by (simp add: f sys_inv_def)
  ultimately show ?thesis using inv f
    by (intro sys_inv_frame [OF inv]) (auto simp: sys_inv_def task_end_def nth_list_update)
qed

lemma signalled_inv:
  assumes inv: "sys_inv g"
  shows "sys_inv (g\<lparr>shared := handle_shutdown_signal (shared g)\<rparr>)" (is "sys_inv ?g")
proof -
  have p: "pool ?g = pool g" by (simp add: pool_def handle_shutdown_signal_def)
  have "worker_inv ?g i" if "i < length (loops g)" for i
  proof -
    have w: "worker_inv g i" using inv that by (simp add: sys_inv_def)
    show ?thesis
      by (rule worker_inv_shift [OF w, where ks = "completions (loops g ! i)" and m = "notifications (loops g ! i)"])
        (simp_all add: p active_def active_pairs_def responses_def due_node)
  qed
  then show ?thesis using inv p by (intro sys_inv_frame [OF inv]) (simp_all add: sys_inv_def total_connections_def handle_shutdown_signal_def)
qed

lemma network_effects: "effects n (n\<lparr>net := nt, loop := (loop n)\<lparr>ctls := cs\<rparr>\<rparr>)"
  by (rule tick_effects) (simp add: quiet_def)

lemma sys_inv_step: "sys_step g g' \<Longrightarrow> sys_inv g \<Longrightarrow> sys_inv g'"
proof (induction rule: sys_step.induct)
  case (pool_thread g p)
  then have "pool_inv (pool g)" by (simp add: sys_inv_def)
  then show ?case using pool_thread by (intro pool_thread_inv pool_moves_step)
qed (auto intro: loop_step_inv handle_event_effects on_iteration_effects network_effects signalled_inv task_body_inv task_done_inv)

lemma create_listener_ok:
  assumes "create_reuseport_listener u port backlog s = (fd, s')" and "fd \<noteq> -1"
  shows "fd = socket_result u \<and> (\<exists>m. s' = s\<lparr>fds_opened := fds_opened s @ [fd], net := m\<rparr>)"
proof -
  obtain m where m: "snd (set_nonblocking (socket_result u) (s\<lparr>fds_opened := fds_opened s @ [socket_result u]\<rparr>)) =
      s\<lparr>fds_opened := fds_opened s @ [socket_result u], net := m\<rparr>" using nonblocking_net by blast
  show ?thesis using assms m
    by (auto simp: create_reuseport_listener_def Let_def split_beta split: if_splits intro: exI [of _ m])
qed

definition set_up_spec :: "nat \<Rightarrow> loop_state \<Rightarrow> bool" where
  "set_up_spec i l \<longleftrightarrow> worker_id l = i \<and> completions l = [] \<and> outstanding_tasks l = 0 \<and> next_generation l = 1 \<and> conns l = [] \<and>
    answers l = [] \<and> sent l = [] \<and> received l = [] \<and> \<not> draining l \<and> listener_fd l \<noteq> -1 \<and> fds_closed l = [] \<and>
    completion_fd l \<noteq> listener_fd l \<and> dom (interest (loop l)) = {completion_fd l, listener_fd l} \<and>
    mset (fds_opened l) = {#completion_fd l, listener_fd l, epoll_fd (loop l)#}"

lemma set_up_loop:
  assumes "set_up sv i l"
  shows "set_up_spec i l"
proof -
  from assms obtain u cs port backlog nt n where u: "fresh_setup u"
    and w: "worker_setup u cs port backlog i (new_node nt sv) = (True, n)" and l: "l = loop_state.truncate n"
    by (auto simp: set_up_def)
  let ?s = "new_node nt sv"
  obtain fd s1 where c: "create_reuseport_listener u port backlog ?s = (fd, s1)" by fastforce
  then have fd: "fd \<noteq> -1" using w by (auto simp: worker_setup_def split: if_splits)
  from create_listener_ok [OF c fd] obtain m where m: "fd = socket_result u" "s1 = ?s\<lparr>fds_opened := [fd], net := m\<rparr>"
    by (auto simp: new_node_def)
  let ?e = "eventfd_result u" and ?p = "new_epoll (epoll_create_result u) cs"
  let ?l1 = "snd (add_fd ?e EPOLLIN ?p)" let ?l2 = "snd (add_fd fd EPOLLIN ?l1)"
  let ?s2 = "?s\<lparr>net := m, listener_fd := fd, worker_id := i, completion_fd := ?e, fds_opened := [fd, epoll_create_result u, ?e]\<rparr>"
  have e: "?e \<noteq> -1" using w fd c by (auto simp: worker_setup_def split: if_splits)
  have ok: "fst (add_fd ?e EPOLLIN ?p)" "fst (add_fd fd EPOLLIN ?l1)" "n = ?s2\<lparr>loop := ?l2\<rparr>"
    using w fd e u by (auto simp: worker_setup_def c m Let_def split_beta loop_add_def fresh_setup_def split: if_splits)
  have "interest ?l2 = [?e \<mapsto> EPOLLIN, fd \<mapsto> EPOLLIN]" using ok by (simp add: interest_add new_epoll_def)
  moreover have "epoll_fd ?l2 = epoll_create_result u" by (simp add: new_epoll_def)
  ultimately show ?thesis using u fd m(1)
    by (simp add: set_up_spec_def l ok(3) new_node_def loop_state.defs fresh_setup_def insert_commute add_mset_commute)
qed

lemma sys_inv_start:
  assumes "sys_start threads cap g"
  shows "sys_inv g"
proof -
  have l: "set_up_spec i (loops g ! i)" if "i < length (loops g)" for i using assms that set_up_loop [of "shared g" i] by (simp add: sys_start_def)
  have p: "pool g = new_pool threads cap" "open_connections (metrics (shared g)) = 0" "pushed g = {}" "results g = []"
    using assms by (simp_all add: sys_start_def)
  have act: "active g i = {}" "active_pairs g i = {}" for i by (auto simp: active_def active_pairs_def p new_pool_def)
  have "worker_inv g i" if "i < length (loops g)" for i
  proof -
    have get: "get_conn (node_at g i) fd = None" for fd using l [OF that] by (simp add: get_conn_def node_at_def set_up_spec_def conn_get_def)
    have pl: "thread_pool (shared g) = new_pool threads cap" using p by (simp add: pool_def)
    have "loop_inv (node_at g i)" using l [OF that]
      by (auto simp: loop_inv_def get [unfolded node_at_def] pl unused_def node_at_def set_up_spec_def table_inv_def new_pool_def)
    moreover have "fd_inv (node_at g i)" using l [OF that]
      by (auto simp: fd_inv_def fds_def own_fds_def node_at_def set_up_spec_def table_inv_def file_descriptors_def)
    ultimately show ?thesis using l [OF that]
      by (simp add: worker_inv_def waits_def get Let_def) (simp add: count_inv_def own_queued_def origin_def node_at_def act pl new_pool_def set_up_spec_def)
  qed
  moreover have "total_connections g = 0"
    using l by (auto simp: total_connections_def conn_count_def set_up_spec_def in_set_conv_nth)
  ultimately show ?thesis using p by (simp add: sys_inv_def new_pool_inv) (simp add: new_pool_def)
qed

interpretation gateway_sys: transition_system "sys_start threads cap" sys_step sys_inv
  by unfold_locales (auto intro: sys_inv_start sys_inv_step)

end
