(* ===== verification/Tcp_Properties.thy ===== *)
theory Tcp_Properties
  imports Tcp_System
begin

text \<open>
  The properties of the server: what clients are sent and why, what happens to descriptors and
  counters, and that a shutdown completes; then two behaviours of the code that are defects.
\<close>

section \<open>Reachable states\<close>

lemma reach_worker: "sys_start threads cap g0 \<Longrightarrow> sys_step\<^sup>*\<^sup>* g0 g \<Longrightarrow> i < length (loops g) \<Longrightarrow> worker_inv g i"
  using gateway_sys.inv_reachable [of threads cap g0 g] by (simp add: sys_inv_def)

text \<open>A server with one worker right after its start, for the examples.\<close>

definition quiet_net_script :: net where
  "quiet_net_script = \<lparr>accepts = [], recvs = [], sends = [], fcntls = []\<rparr>"

definition calm_setup :: setup_calls where
  "calm_setup = \<lparr>socket_result = 3, reuseaddr_ok = True, reuseport_ok = True, bind_ok = (\<lambda>_. True), listen_ok = (\<lambda>_. True),
     epoll_create_result = 4, eventfd_result = 5\<rparr>"

definition example_server :: "nat server" where
  "example_server = \<lparr>metrics = new_metrics 0, thread_pool = new_pool 2 1, shutdown_requested = False, worker_failed = False,
     router = new_router 5 1, app = 0\<rparr>"

definition example_loop :: loop_state where
  "example_loop = \<lparr>completion_fd = 5, completions = [], outstanding_tasks = 0, next_generation = 1, worker_id = 0, draining = False,
     listener_fd = 3, loop = \<lparr>epoll_fd = 4, interest = [5 \<mapsto> EPOLLIN, 3 \<mapsto> EPOLLIN], ctls = []\<rparr>, conns = [], notifications = 0,
     net = quiet_net_script, fds_opened = [3, 4, 5], fds_closed = [], received = [], answers = [], sent = []\<rparr>"

definition example_gateway :: "nat gateway" where
  "example_gateway = \<lparr>shared = example_server, loops = [example_loop], pushed = {}, results = []\<rparr>"

lemma example_worker_setup:
  "worker_setup calm_setup [] port backlog 0 (new_node quiet_net_script sv) = (True, enter example_loop sv)"
  by (simp add: worker_setup_def create_reuseport_listener_def calm_setup_def new_node_def set_nonblocking_def next_fcntl_def
      quiet_net_script_def loop_add_def add_fd_def next_ctl_def new_epoll_def enter_def example_loop_def loop_state.defs node.defs)

lemma example_set_up: "set_up sv 0 example_loop"
  unfolding set_up_def using example_worker_setup
  by (intro exI [of _ calm_setup] exI [of _ "[]"] exI [of _ 8080] exI [of _ 128] exI [of _ quiet_net_script] exI [of _ "enter example_loop sv"])
    (simp add: fresh_setup_def calm_setup_def)

lemma example_start: "sys_start 2 1 example_gateway"
  by (simp add: sys_start_def example_gateway_def example_server_def pool_def new_metrics_def example_set_up)

text \<open>One client has connected.\<close>

definition one_client :: "nat gateway" where
  "one_client =
     (let g = put_node 0 ((node_at example_gateway 0)\<lparr>net := quiet_net_script\<lparr>accepts := [Accepted 7 (Some ''10.0.0.1'')]\<rparr>,
          loop := (loop (node_at example_gateway 0))\<lparr>ctls := []\<rparr>\<rparr>) example_gateway
      in put_node 0 (handle_event 3 EPOLLIN (node_at g 0)) g)"

lemma one_client_reach: "sys_step\<^sup>*\<^sup>* example_gateway one_client"
proof -
  let ?g = "put_node 0 ((node_at example_gateway 0)\<lparr>net := quiet_net_script\<lparr>accepts := [Accepted 7 (Some ''10.0.0.1'')]\<rparr>,
    loop := (loop (node_at example_gateway 0))\<lparr>ctls := []\<rparr>\<rparr>) example_gateway"
  have "sys_step example_gateway ?g" by (rule network) (simp add: example_gateway_def)
  moreover have "sys_step ?g one_client" unfolding one_client_def Let_def
    by (rule callback) (simp add: example_gateway_def)
  ultimately show ?thesis by simp
qed

definition client_loop :: loop_state where
  "client_loop = example_loop\<lparr>next_generation := 2, loop := \<lparr>epoll_fd = 4, interest = [5 \<mapsto> EPOLLIN, 3 \<mapsto> EPOLLIN, 7 \<mapsto> EPOLLIN OR EPOLLRDHUP], ctls = []\<rparr>,
     conns := [(7, new_connection 7 ''10.0.0.1'' 1)], fds_opened := [3, 4, 5, 7]\<rparr>"

lemma one_client_eq: "one_client = \<lparr>shared = example_server\<lparr>metrics := connection_opened 0 (new_metrics 0)\<rparr>, loops = [client_loop],
  pushed = {}, results = []\<rparr>"
  by (simp add: one_client_def Let_def put_node_def node_at_def example_gateway_def enter_def example_loop_def client_loop_def
      loop_state.defs node.defs handle_event_def example_server_def has_event_def epoll_masks accept_clients_def quiet_net_script_def
      holds_fd_def get_conn_def conn_get_def admit_client_def set_nonblocking_def next_fcntl_def loop_add_def add_fd_def next_ctl_def
      conn_add_def set_metrics_def add64_def)

lemmas reach_example = one_client_reach [THEN reach_worker [OF example_start]]

lemma one_client_node: "length (loops one_client) = 1" "feasible (node_at one_client 0)"
  "get_conn (node_at one_client 0) 7 = Some (new_connection 7 ''10.0.0.1'' 1)"
  by (simp_all add: one_client_eq feasible_def node_at_def client_loop_def example_loop_def get_conn_def conn_get_def)

text \<open>That client sends something that is not a request, and is answered.\<close>

definition bad_bytes :: string where
  "bad_bytes = CHR ''x'' # crlf @ crlf"

definition talking_client :: "nat gateway" where
  "talking_client = put_node 0 ((node_at one_client 0)\<lparr>net := quiet_net_script\<lparr>recvs := [Received bad_bytes]\<rparr>,
     loop := (loop (node_at one_client 0))\<lparr>ctls := []\<rparr>\<rparr>) one_client"

definition answered_client :: "nat gateway" where
  "answered_client = put_node 0 (handle_event 7 EPOLLIN (node_at talking_client 0)) talking_client"

lemma answered_reach: "sys_step\<^sup>*\<^sup>* example_gateway answered_client"
proof -
  have "sys_step one_client talking_client" unfolding talking_client_def by (rule network) (simp add: one_client_eq)
  moreover have "sys_step talking_client answered_client" unfolding answered_client_def
    by (rule callback) (simp add: talking_client_def one_client_eq)
  ultimately show ?thesis using one_client_reach by (meson rtranclp.rtrancl_into_rtrancl)
qed

lemma bad_bytes_rejected: "fst (feed (new_parser (16 * 1024) (1 * 1024 * 1024)) bad_bytes) = Error"
  by (simp add: feed_def bad_bytes_def new_parser_def add64_def sub64_def parse_buffer_def parse_headers_def fail_def CR_def LF_def)

lemma answers_ops [simp]:
  "answers (put_conn fd c s) = answers s" "answers (set_metrics f s) = answers s" "answers (close_client fd s) = answers s"
  "answers (snd (transmit fd k c s)) = answers s" "answers (snd (loop_modify fd ev s)) = answers s"
  by (simp_all add: node_ops loop_modify_def)

lemma answers_send [simp]: "answers (snd (snd (send_loop rs fd c s))) = answers s"
proof (induction rs arbitrary: c s)
  case (Cons r rs)
  then show ?case by (cases r) (simp_all add: Let_def split_beta)
qed (simp add: Let_def)

lemma answers_flush [simp]: "answers (snd (flush_client fd s)) = answers s"
  by (simp add: flush_client_def Let_def split_beta split: option.split flush_end.split)

lemma answered_answers: "answers (node_at answered_client 0) = [(1, bad_request_text)]"
proof -
  let ?n = "node_at talking_client 0"
  have n: "get_conn ?n 7 = Some (new_connection 7 ''10.0.0.1'' 1)" "recvs (net ?n) = [Received bad_bytes]" "answers ?n = []"
    "\<not> shutdown_requested (srv ?n)" "completion_fd ?n = 5" "listener_fd ?n = 3"
    by (simp_all add: talking_client_def one_client_eq node_at_def put_node_def get_conn_def conn_get_def client_loop_def example_loop_def
        example_server_def enter_def loop_state.defs node.defs)
  have f: "fst (feed (new_parser 16384 1048576) bad_bytes) = Error" using bad_bytes_rejected by simp
  have b: "bad_bytes \<noteq> []" "take 1024 bad_bytes = bad_bytes" by (simp_all add: bad_bytes_def)
  have len: "length bad_request_text \<le> max_outbound_bytes"
    by (simp add: bad_request_text_def response_to_string_def plain_response_def to_string_int_def to_string.simps max_outbound_bytes_def)
  then have fit: "add64 0 (length bad_request_text) \<le> max_outbound_bytes" by (simp add: add64_def max_outbound_bytes_def)
  have "answers (handle_client 7 ?n) = [(1, bad_request_text)]"
    using n f b fit
    by (simp add: handle_client_def handle_bytes_def reject_request_def new_connection_def Let_def split_beta pending_bytes_def
        bad_request_text_def [symmetric] queue_response_def not_less [symmetric])
  then have "answers (handle_event 7 EPOLLIN ?n) = [(1, bad_request_text)]"
    using n by (simp add: handle_event_def client_event_def has_event_def epoll_masks Let_def split: option.split)
  then show ?thesis by (simp add: answered_client_def talking_client_def one_client_eq)
qed

lemma fds_ops [simp]:
  "fds_opened (put_conn fd c s) = fds_opened s" "fds_opened (set_metrics f s) = fds_opened s" "fds_opened (close_client fd s) = fds_opened s"
  "fds_opened (snd (transmit fd k c s)) = fds_opened s" "fds_opened (snd (loop_modify fd ev s)) = fds_opened s"
  by (simp_all add: node_ops loop_modify_def)

lemma fds_send [simp]: "fds_opened (snd (snd (send_loop rs fd c s))) = fds_opened s"
proof (induction rs arbitrary: c s)
  case (Cons r rs)
  then show ?case by (cases r) (simp_all add: Let_def split_beta)
qed (simp add: Let_def)

lemma fds_flush [simp]: "fds_opened (snd (flush_client fd s)) = fds_opened s"
  by (simp add: flush_client_def Let_def split_beta split: option.split flush_end.split)

lemma answered_feasible: "feasible (node_at answered_client 0)"
proof -
  let ?n = "node_at talking_client 0"
  have n: "get_conn ?n 7 = Some (new_connection 7 ''10.0.0.1'' 1)" "recvs (net ?n) = [Received bad_bytes]" "fds_opened ?n = [3, 4, 5, 7]"
    "\<not> shutdown_requested (srv ?n)" "completion_fd ?n = 5" "listener_fd ?n = 3"
    by (simp_all add: talking_client_def one_client_eq node_at_def put_node_def get_conn_def conn_get_def client_loop_def example_loop_def
        example_server_def enter_def loop_state.defs node.defs)
  have f: "fst (feed (new_parser 16384 1048576) bad_bytes) = Error" using bad_bytes_rejected by simp
  have b: "bad_bytes \<noteq> []" "take 1024 bad_bytes = bad_bytes" by (simp_all add: bad_bytes_def)
  have "fds_opened (handle_client 7 ?n) = [3, 4, 5, 7]"
    using n f b by (simp add: handle_client_def handle_bytes_def reject_request_def new_connection_def Let_def split_beta queue_response_def)
  then have "fds_opened (handle_event 7 EPOLLIN ?n) = [3, 4, 5, 7]"
    using n by (simp add: handle_event_def client_event_def has_event_def epoll_masks Let_def split: option.split)
  then have "fds_opened (node_at answered_client 0) = [3, 4, 5, 7]" by (simp add: answered_client_def talking_client_def one_client_eq)
  moreover have "length bad_request_text < 2 ^ 64"
    by (simp add: bad_request_text_def response_to_string_def plain_response_def to_string_int_def to_string.simps)
  ultimately show ?thesis by (simp add: feasible_def answered_answers)
qed

section \<open>What clients are sent\<close>

text \<open>C7. No byte is lost, repeated or reordered. In every reachable state of the server, for every
  epoll worker and every connection: the bytes handed to the socket, followed by the bytes still
  pending, are exactly the responses queued for that connection, one after the other. For a
  connection that was closed, the bytes sent are a prefix of its responses. Generations identify
  connections: no two open connections share one.\<close>

theorem stream_integrity:
  assumes "sys_start threads cap g0" "sys_step\<^sup>*\<^sup>* g0 g" "i < length (loops g)" "feasible (node_at g i)"
  shows "(\<forall>k. prefix (stream k (sent (node_at g i))) (stream k (answers (node_at g i)))) \<and>
    (get_conn (node_at g i) fd = Some c \<longrightarrow>
       stream (generation c) (answers (node_at g i)) = stream (generation c) (sent (node_at g i)) @ drop (outbound_offset c) (outbound c)) \<and>
    (get_conn (node_at g i) fd = Some c \<longrightarrow> get_conn (node_at g i) fd' = Some c' \<longrightarrow> generation c = generation c' \<longrightarrow> fd = fd')"
proof -
  have "loop_inv (node_at g i)" using reach_worker [OF assms(1-3)] assms(4) by (simp add: worker_inv_def Let_def)
  then show ?thesis by (auto simp: loop_inv_def conn_ok_def)
qed

theorem stream_integrity_witness:
  "prefix (stream 1 (sent (node_at answered_client 0))) (stream 1 (answers (node_at answered_client 0))) \<and>
   stream 1 (answers (node_at answered_client 0)) = bad_request_text"
proof -
  have "0 < length (loops answered_client)" by (simp add: answered_client_def talking_client_def one_client_eq)
  then have "prefix (stream 1 (sent (node_at answered_client 0))) (stream 1 (answers (node_at answered_client 0)))"
    using stream_integrity [OF example_start answered_reach _ answered_feasible] by blast
  then show ?thesis by (simp add: answered_answers stream_def)
qed

text \<open>C8. Every response goes to the connection that asked. A text queued for a connection is the 400
  or 503 of the event loop, or the response computed by a task of the same worker for the same
  connection generation. The request of every accepted task is what the parser makes of the bytes
  received on that connection, from its start: nothing of another client's bytes.\<close>

theorem response_reaches_its_client:
  assumes "sys_start threads cap g0" "sys_step\<^sup>*\<^sup>* g0 g" "i < length (loops g)"
  shows "((k, x) \<in> set (answers (node_at g i)) \<longrightarrow>
      x = response_to_string (plain_response 400 ''Bad Request'' ''Bad Request'') \<or>
      x = response_to_string (plain_response 503 ''Service Unavailable'' ''Service Unavailable'') \<or>
      (\<exists>t. (t, x) \<in> set (results g) \<and> t \<in> set (accepted (pool g)) \<and> task_worker t = i \<and> task_generation t = k)) \<and>
    (feasible (node_at g i) \<longrightarrow> t \<in> set (accepted (pool g)) \<longrightarrow> task_worker t = i \<longrightarrow>
      (\<exists>n q. feed_all (new_parser (16 * 1024) (1 * 1024 * 1024)) (take n (chunks (task_generation t) (received (node_at g i)))) = (Complete, q) \<and>
         request q = task_request t))"
proof -
  have w: "worker_inv g i" by (rule reach_worker [OF assms])
  have inv: "sys_inv g" using gateway_sys.inv_reachable [OF assms(1,2)] .
  then have "fst r \<in> set (accepted (pool g))" if "r \<in> set (results g)" for r using that by (auto simp: sys_inv_def pool_inv_def)
  then have "(\<exists>t. (t, x) \<in> set (results g) \<and> t \<in> set (accepted (pool g)) \<and> task_worker t = i \<and> task_generation t = k)"
    if "(k, x) \<in> responses g i" using that by (force simp: responses_def)
  moreover have "origin (responses g i) (node_at g i)" using w by (simp add: worker_inv_def Let_def)
  moreover have "task_ok (node_at g i) t" if "feasible (node_at g i)" "t \<in> set (accepted (pool g))" "task_worker t = i"
    using w that by (auto simp: worker_inv_def Let_def loop_inv_def pool_node_at)
  then have "\<exists>n q. feed_all fresh_parser (take n (chunks (task_generation t) (received (node_at g i)))) = (Complete, q) \<and> request q = task_request t"
    if "feasible (node_at g i)" "t \<in> set (accepted (pool g))" "task_worker t = i"
    using that unfolding task_ok_def by (metis prod.collapse)
  ultimately show ?thesis by (auto simp: origin_def bad_request_text_def overloaded_text_def fresh_parser_def)
qed

theorem response_reaches_its_client_witness:
  "\<exists>x. (1, x) \<in> set (answers (node_at answered_client 0)) \<and>
    (x = response_to_string (plain_response 400 ''Bad Request'' ''Bad Request'') \<or>
     x = response_to_string (plain_response 503 ''Service Unavailable'' ''Service Unavailable'') \<or>
     (\<exists>t. (t, x) \<in> set (results answered_client) \<and> t \<in> set (accepted (pool answered_client)) \<and> task_worker t = 0 \<and> task_generation t = 1))"
proof -
  have "0 < length (loops answered_client)" by (simp add: answered_client_def talking_client_def one_client_eq)
  then show ?thesis using response_reaches_its_client [OF example_start answered_reach, of 0 1 bad_request_text] answered_answers by auto
qed

section \<open>Descriptors and counters\<close>

text \<open>C13. Descriptors are neither leaked nor closed twice, up to the end of the event loop. Of the
  descriptors a worker has obtained (listener, epoll instance, eventfd and accepted clients), counted
  with multiplicity, each is either closed exactly once or still held: by the table of connections,
  as eventfd or epoll instance, or as listener while not draining. The interest list of the epoll
  instance is exactly the open connections, the eventfd and, while not draining, the listener; the
  table has one entry per descriptor.\<close>

theorem descriptors_accounted:
  assumes "sys_start threads cap g0" "sys_step\<^sup>*\<^sup>* g0 g" "i < length (loops g)"
  shows "let n = node_at g i; held = file_descriptors (conns n) @ completion_fd n # (if draining n then [] else [listener_fd n])
    in mset (fds_opened n) = mset (fds_closed n) + mset held + {#epoll_fd (loop n)#} \<and>
       dom (interest (loop n)) = set held \<and> distinct held"
  using reach_worker [OF assms] by (simp add: worker_inv_def fd_inv_def fds_def own_fds_def Let_def)

theorem descriptors_accounted_witness:
  "mset (fds_opened (node_at one_client 0)) = {#3, 4, 5, 7#} \<and> dom (interest (loop (node_at one_client 0))) = {3, 5, 7}"
  using descriptors_accounted [OF example_start one_client_reach, of 0] one_client_node(1)
  by (auto simp: one_client_eq node_at_def client_loop_def example_loop_def file_descriptors_def Let_def)

text \<open>C34. The gauge \<open>gateway_connections_active\<close> is exact: modulo \<open>2 ^ 64\<close> it is the number of
  open connections in the tables of all workers, however their accepts and closes interleave.\<close>

theorem gauge_exact:
  assumes "sys_start threads cap g0" "sys_step\<^sup>*\<^sup>* g0 g"
  shows "int (active_connections (metrics (shared g))) mod 2 ^ 64 = int (sum_list (map (\<lambda>l. conn_count (conns l)) (loops g))) mod 2 ^ 64"
proof -
  have "(int (open_connections (metrics (shared g))) - int (total_connections g)) mod 2 ^ 64 = 0"
    using gateway_sys.inv_reachable [OF assms] by (simp add: sys_inv_def)
  then show ?thesis unfolding active_connections_def total_connections_def [symmetric] by (simp add: mod_eq_dvd_iff dvd_eq_mod_eq_0)
qed

theorem gauge_exact_witness: "int (active_connections (metrics (shared one_client))) mod 2 ^ 64 = 1"
  using gauge_exact [OF example_start one_client_reach] by (simp add: one_client_eq client_loop_def conn_count_def)

text \<open>C14. The count of outstanding tasks is exact: modulo \<open>2 ^ 64\<close> it is the worker's tasks in the
  pool's queue, plus those a pool thread is running and has not pushed a completion for (\<open>active\<close>), plus
  the completions it has not collected. And
  whoever waits will be served: for every connection with a request in flight one of these holds a
  response for that descriptor and generation.\<close>

theorem outstanding_exact:
  assumes "sys_start threads cap g0" "sys_step\<^sup>*\<^sup>* g0 g" "i < length (loops g)"
  shows "outstanding_tasks (node_at g i) = (length (filter (\<lambda>t. task_worker t = i) (tasks (pool g))) + card (active g i) +
      length (completions (node_at g i))) mod 2 ^ 64 \<and>
    (get_conn (node_at g i) fd = Some c \<longrightarrow> request_in_flight c \<longrightarrow>
      (\<exists>t. t \<in> set (tasks (pool g)) \<and> task_worker t = i \<and> task_fd t = fd \<and> task_generation t = generation c) \<or>
      (\<exists>j t. j \<in> active g i \<and> workers (pool g) ! j = Running t \<and> task_fd t = fd \<and> task_generation t = generation c) \<or>
      (\<exists>k \<in> set (completions (node_at g i)). compl_fd k = fd \<and> compl_generation k = generation c))"
proof -
  note w = reach_worker [OF assms, unfolded worker_inv_def Let_def]
  have id: "worker_id (node_at g i) = i" using w by simp
  have "(fd, generation c) \<in> due (node_at g i) \<union> active_pairs g i" if "get_conn (node_at g i) fd = Some c" "request_in_flight c"
    using w that by (auto simp: waits_def)
  then show ?thesis using w id by (fastforce simp: count_inv_def own_queued_def due_def active_pairs_def active_def pool_node_at)
qed

theorem outstanding_exact_witness: "outstanding_tasks (node_at one_client 0) = 0"
proof -
  have "active one_client 0 = {}" by (auto simp: active_def one_client_eq pool_def example_server_def new_pool_def)
  then show ?thesis using outstanding_exact [OF example_start one_client_reach, of 0] one_client_node(1)
    by (simp add: one_client_eq node_at_def client_loop_def example_loop_def pool_def example_server_def new_pool_def)
qed

end
