(* ===== verification/Tcp_Shutdown.thy ===== *)
theory Tcp_Shutdown
  imports Tcp_Properties
begin

text \<open>
  Shutdown of an epoll worker: one iteration finishes a drained worker, a worker that stops leaves
  nothing behind, and defects of the code around it.
\<close>

section \<open>One iteration of a drained worker\<close>

lemma net_ops [simp]:
  "net (put_conn fd c s) = net s" "net (set_metrics f s) = net s" "net (queue_response fd c msg s) = net s"
  "net (close_client fd s) = net s" "net (snd (transmit fd n c s)) = net s" "net (snd (loop_modify fd ev s)) = net s"
  by (simp_all add: node_ops loop_modify_def)

text \<open>With no outcome scripted, \<open>send\<close> takes everything.\<close>

lemma flush_all:
  assumes "sends (net s) = []" "get_conn s fd = Some c" "peer_closed c"
  shows "get_conn (snd (flush_client fd s)) = (get_conn s)(fd := None)" "sends (net (snd (flush_client fd s))) = []"
  using assms by (simp_all add: flush_client_def Let_def split_beta transmit_def fun_eq_iff)

lemma flush_net: "sends (net s) = [] \<Longrightarrow> sends (net (snd (flush_client fd s))) = []"
  by (simp add: flush_client_def Let_def split_beta split: option.split)

definition idle :: "'a node \<Rightarrow> bool" where
  "idle s \<longleftrightarrow> sends (net s) = [] \<and> (\<forall>fd c. get_conn s fd = Some c \<longrightarrow> \<not> request_in_flight c \<and> (pending_bytes c \<noteq> 0 \<longrightarrow> peer_closed c))"

lemma drain_idle:
  assumes "idle s"
  shows "get_conn (drain_client fd s) = (get_conn s)(fd := None)" "idle (drain_client fd s)"
proof -
  show g: "get_conn (drain_client fd s) = (get_conn s)(fd := None)"
    using assms flush_all(1) [of s fd] by (auto simp: idle_def drain_client_def fun_eq_iff split: option.split)
  have "sends (net (drain_client fd s)) = []"
    using assms flush_net [of s fd] by (simp add: idle_def drain_client_def split: option.split)
  then show "idle (drain_client fd s)" using assms by (simp add: idle_def g)
qed

lemma drain_all_idle: "idle s \<Longrightarrow> get_conn (fold drain_client fs s) = (\<lambda>fd. if fd \<in> set fs then None else get_conn s fd)"
proof (induction fs arbitrary: s)
  case (Cons f fs)
  then show ?case using drain_idle [of s f] by (auto simp: fun_eq_iff)
qed simp

lemma drained_empty:
  assumes "idle s" "table_inv (conns (fold drain_client (file_descriptors (conns s)) s))"
  shows "conn_count (conns (fold drain_client (file_descriptors (conns s)) s)) = 0"
proof -
  have "get_conn (fold drain_client (file_descriptors (conns s)) s) fd = None" for fd
    using drain_all_idle [OF assms(1), of "file_descriptors (conns s)"] fds_get [of s] by (auto simp: fds_def)
  then have "dom (get_conn (fold drain_client (file_descriptors (conns s)) s)) = {}" by auto
  then show ?thesis using conns_count [OF assms(2)] by simp
qed

lemma deliver_net: "sends (net s) = [] \<Longrightarrow> sends (net (deliver k s)) = []"
  by (simp add: deliver_def Let_def flush_net split: option.split)

lemma deliver_all_net: "sends (net s) = [] \<Longrightarrow> sends (net (fold deliver ks s)) = []"
  by (induction ks arbitrary: s) (simp_all add: deliver_net)

lemma process_completions_empty:
  "completions (process_completions s) = []" "sends (net s) = [] \<Longrightarrow> sends (net (process_completions s)) = []"
proof -
  let ?u = "set_metrics (completion_queue_size (worker_id s) 0 []) (s\<lparr>notifications := 0, completions := []\<rparr>)"
  have e: "process_completions s = fold deliver (completions s) ?u" by (simp add: process_completions_def Let_def)
  have "?u = ?u\<lparr>completions := []\<rparr>" by (simp add: set_metrics_def)
  then have "fold deliver (completions s) ?u = (fold deliver (completions s) ?u)\<lparr>completions := []\<rparr>"
    by (metis fold_deliver_completions)
  then show "completions (process_completions s) = []" unfolding e by (metis loop_state.select_convs(2) loop_state.surjective loop_state.update_convs(2))
  show "sends (net s) = [] \<Longrightarrow> sends (net (process_completions s)) = []" unfolding e by (simp add: deliver_all_net)
qed

text \<open>A part of the state that the small operations on a connection leave alone is left alone by
  flushing, draining and the delivery of completions.\<close>

locale node_frame =
  fixes view :: "'a node \<Rightarrow> 'b"
  assumes view_put: "view (put_conn fd c s) = view s"
    and view_metrics: "view (set_metrics f s) = view s"
    and view_queue: "view (queue_response fd c msg s) = view s"
    and view_close: "view (close_client fd s) = view s"
    and view_transmit: "view (snd (transmit fd k c s)) = view s"
    and view_modify: "view (snd (loop_modify fd ev s)) = view s"
    and view_net: "view (s\<lparr>net := nt\<rparr>) = view s"
    and view_outstanding: "view (s\<lparr>outstanding_tasks := k\<rparr>) = view s"
    and view_collect: "view (s\<lparr>notifications := k, completions := ks\<rparr>) = view s"
begin

lemmas view_ops = view_put view_metrics view_queue view_close view_transmit view_modify view_net view_outstanding view_collect

lemma view_send: "view (snd (snd (send_loop rs fd c s))) = view s"
proof (induction rs arbitrary: c s)
  case (Cons r rs)
  then show ?case by (cases r) (simp_all add: view_ops Let_def split_beta)
qed (simp add: view_ops Let_def)

lemma view_flush: "view (snd (flush_client fd s)) = view s"
  using view_send [of "sends (net s)" fd _ s]
  by (simp add: flush_client_def view_ops Let_def split_beta split: option.split flush_end.split)

lemma view_drain: "view (fold drain_client fs s) = view s"
  by (induction fs arbitrary: s) (simp_all add: drain_client_def view_ops view_flush split: option.split)

lemma view_deliver: "view (fold deliver ks s) = view s"
  by (induction ks arbitrary: s) (simp_all add: deliver_def view_ops view_flush Let_def split: option.split)

lemma view_completions: "view (process_completions s) = view s"
  by (simp add: process_completions_def view_deliver view_ops Let_def)

end

interpretation pool_view: node_frame "\<lambda>n. thread_pool (srv n)"
  by unfold_locales (simp_all add: node_ops loop_modify_def)

interpretation listener_view: node_frame listener_fd
  by unfold_locales (simp_all add: node_ops loop_modify_def)

interpretation draining_view: node_frame draining
  by unfold_locales (simp_all add: node_ops loop_modify_def)

lemmas view_simps [simp] = pool_view.view_drain pool_view.view_completions listener_view.view_drain draining_view.view_completions

lemma effects_completions: "effects s s' \<Longrightarrow> set (completions s') \<subseteq> set (completions s)"
proof (induction rule: rtranclp_induct)
  case (step t u)
  have "set (completions u) \<subseteq> set (completions t)"
    using step(2) by (cases rule: effect_shapes) (auto simp: quiet_def touches_def node_ops)
  with step show ?case by blast
qed simp

text \<open>The state of the iteration behind \<open>process_completions\<close> and \<open>begin_drain\<close>.\<close>

definition after_drain :: "'a node \<Rightarrow> 'a node" where
  "after_drain s = (if draining s then s else (fold drain_client (file_descriptors (conns s)) (stop_accepting s))\<lparr>listener_fd := -1\<rparr>)"

lemma on_iteration_drained:
  assumes "draining (process_completions s) \<or> shutdown_requested (srv (process_completions s))"
  shows "on_iteration s = fold drain_client (file_descriptors (conns (after_drain (process_completions s)))) (after_drain (process_completions s))"
proof -
  let ?s = "process_completions s"
  have d: "draining (after_drain ?s)"
    using effects_keep [OF drain_all_effects, of "file_descriptors (conns ?s)" "stop_accepting ?s"]
    by (simp add: after_drain_def) (simp add: node_ops)
  show ?thesis
  proof (cases "draining ?s")
    case True
    then show ?thesis by (simp add: on_iteration_def Let_def begin_drain_eq after_drain_def)
  next
    case False
    then show ?thesis using assms d by (simp add: on_iteration_def Let_def begin_drain_eq after_drain_def)
  qed
qed

lemma idle_stop: "idle s \<Longrightarrow> idle (stop_accepting s)"
proof -
  have "get_conn (stop_accepting s) = get_conn s" "net (stop_accepting s) = net s"
    by (simp_all add: stop_accepting_def Let_def) (simp_all add: node_ops)
  then show "idle s \<Longrightarrow> idle (stop_accepting s)" by (simp add: idle_def)
qed

lemma idle_drain: "idle s \<Longrightarrow> idle (fold drain_client fs s)"
  by (induction fs arbitrary: s) (simp_all add: drain_idle)

lemma idle_after_drain: "idle s \<Longrightarrow> idle (after_drain s)"
  using idle_drain [OF idle_stop, of s] by (simp add: after_drain_def idle_def)

lemma iteration_stops:
  assumes fd: "fd_inv n" and li: "feasible n \<longrightarrow> loop_inv n" and cnt: "count_inv 0 n" and wt: "waits {} n" and own: "own_queued n = 0"
    and stop: "draining n \<or> shutdown_requested (srv n)" and sends: "sends (net n) = []" and feas: "feasible (on_iteration n)"
  shows "should_stop (on_iteration n)"
proof -
  let ?s = "process_completions n" and ?f = "on_iteration n"
  have e1: "effects n ?s" by (rule process_completions_effects)
  have ef: "effects n ?f" by (rule on_iteration_effects)
  have d1: "draining ?s \<or> shutdown_requested (srv ?s)" using stop effects_keep [OF e1] by blast
  note f = on_iteration_drained [OF d1]
  have "draining (stop_accepting ?s)" by (simp add: node_ops)
  then have dd: "draining (fold drain_client fs (stop_accepting ?s))" for fs using effects_keep [OF drain_all_effects] by blast
  have ea: "effects ?s (after_drain ?s)"
  proof (cases "draining ?s")
    case False
    let ?d = "fold drain_client (file_descriptors (conns ?s)) (stop_accepting ?s)"
    have "effects ?s ?d" using False by (intro rtranclp_trans [OF effectsI [OF effect.stop] drain_all_effects])
    moreover have "effects ?d (?d\<lparr>listener_fd := -1\<rparr>)" using dd by (intro tick_effects) (simp add: quiet_def)
    ultimately show ?thesis using False by (simp add: after_drain_def)
  qed (simp add: after_drain_def)
  then have e2: "effects ?s ?f" unfolding f by (rule rtranclp_trans [OF _ drain_all_effects])
  have "loop_inv ?s" using li feasible_backs [OF ef feas] feasible_backs [OF e2 feas] loop_inv_effects [OF e1] by blast
  moreover have "due ?s = {}" using own process_completions_empty(1) [of n] effects_keep [OF e1]
    by (auto simp: due_def own_queued_def filter_empty_conv)
  ultimately have "\<not> request_in_flight c \<and> (pending_bytes c \<noteq> 0 \<longrightarrow> peer_closed c)" if "get_conn ?s fd = Some c" for fd c
    using waits_effects [OF e1 wt] loop_inv_conn [of ?s fd c] that
    by (cases "outbound c = []") (auto simp: waits_def conn_ok_def pending_bytes_def)
  then have "idle ?s" using process_completions_empty(2) [OF sends] by (simp add: idle_def)
  then have "idle (after_drain ?s)" by (rule idle_after_drain)
  moreover have "table_inv (conns ?f)" using fd_inv_effects [OF ef fd] by (simp add: fd_inv_def)
  ultimately have "conn_count (conns ?f) = 0" using drained_empty [of "after_drain ?s"] f by simp
  moreover have "outstanding_tasks ?f = 0"
  proof -
    have "tasks (thread_pool (srv ?f)) = tasks (thread_pool (srv n))"
      unfolding f by (simp add: after_drain_def) (simp add: node_ops begin_shutdown_def)
    then have "own_queued ?f = 0" using own effects_keep [OF ef] by (simp add: own_queued_def)
    moreover have "completions ?f = []" using effects_completions [OF e2] process_completions_empty(1) [of n] by simp
    ultimately show ?thesis using count_inv_effects [OF ef cnt] by (simp add: count_inv_def)
  qed
  moreover have "draining ?f"
  proof -
    have "draining (after_drain ?s)" using dd by (simp add: after_drain_def)
    then show ?thesis unfolding f using effects_keep [OF drain_all_effects] by blast
  qed
  ultimately show ?thesis by (simp add: should_stop_def)
qed

section \<open>Shutdown completes and is clean\<close>

definition stopping_gateway :: "nat gateway" where
  "stopping_gateway = one_client\<lparr>shared := (shared one_client)\<lparr>shutdown_requested := True\<rparr>\<rparr>"

lemma stopping_reach: "sys_step\<^sup>*\<^sup>* example_gateway stopping_gateway"
  using rtranclp.rtrancl_into_rtrancl [OF one_client_reach sys_step.signalled] by (simp add: stopping_gateway_def handle_shutdown_signal_def)

text \<open>The worker of that server after one iteration: the client is closed, the listener too.\<close>

definition stopped_loop :: loop_state where
  "stopped_loop = client_loop\<lparr>draining := True, listener_fd := -1, conns := [], fds_closed := [3, 7],
     loop := \<lparr>epoll_fd = 4, interest = [5 \<mapsto> EPOLLIN], ctls = []\<rparr>\<rparr>"

definition stopped_server :: "nat server" where
  "stopped_server = example_server\<lparr>metrics := connection_closed (completion_queue_size 0 0 [] (connection_opened 0 (new_metrics 0))),
     thread_pool := begin_shutdown (new_pool 2 1), shutdown_requested := True\<rparr>"

lemma stopping_iteration: "on_iteration (node_at stopping_gateway 0) = enter stopped_loop stopped_server"
  by (simp add: stopping_gateway_def one_client_eq on_iteration_def process_completions_def begin_drain_def node_at_def enter_def
      loop_state.defs node.defs client_loop_def example_loop_def example_server_def set_metrics_def set_pool_def close_fd_def loop_remove_def
      remove_fd_def next_ctl_def forget_fd_def file_descriptors_def drain_client_def get_conn_def conn_get_def new_connection_def
      pending_bytes_def close_client_def conn_remove_def stopped_loop_def stopped_server_def fun_upd_twist Let_def)

text \<open>C15. Shutdown completes. In a reachable state in which a shutdown was requested or the worker is
  already draining, once none of its tasks is queued or has still to push its completion, one
  iteration of the event loop with a network that takes what is sent makes the worker stop: all completions are collected,
  every response is flushed, every connection is closed and no task is outstanding.\<close>

theorem shutdown_completes:
  assumes "sys_start threads cap g0" "sys_step\<^sup>*\<^sup>* g0 g" "i < length (loops g)"
    and "draining (node_at g i) \<or> shutdown_requested (shared g)"
    and "filter (\<lambda>t. task_worker t = i) (tasks (pool g)) = []" "active g i = {}"
    and "sends (net (node_at g i)) = []" "feasible (on_iteration (node_at g i))"
  shows "should_stop (on_iteration (node_at g i))"
proof -
  note w = reach_worker [OF assms(1-3), unfolded worker_inv_def Let_def]
  have "active_pairs g i = {}" using assms(6) by (auto simp: active_pairs_def active_def)
  moreover have "own_queued (node_at g i) = 0" using w assms(5) by (simp add: own_queued_def pool_node_at)
  moreover have "srv (node_at g i) = shared g" by (simp add: node_at_def)
  ultimately show ?thesis using w assms(4,6,7,8) by (intro iteration_stops) auto
qed

theorem shutdown_completes_witness: "should_stop (on_iteration (node_at stopping_gateway 0))"
proof (rule shutdown_completes [OF example_start stopping_reach])
  show "feasible (on_iteration (node_at stopping_gateway 0))"
    by (simp add: stopping_iteration feasible_def stopped_loop_def client_loop_def example_loop_def)
qed (auto simp: stopping_gateway_def one_client_eq node_at_def client_loop_def example_loop_def example_server_def pool_def new_pool_def
    active_def quiet_net_script_def)

text \<open>C35. What a worker that stops leaves behind. When \<open>should_stop\<close> holds in a reachable state, none of
  the worker's tasks is queued, no completion is uncollected, no connection is open, and every pool
  thread that is still inside a task of this worker has pushed its completion: all that is left of
  the task is the write to the worker's eventfd. (That write is not waited for.) Leaving
  \<open>worker_loop\<close> then closes every descriptor the worker obtained; each is closed exactly once, except
  that the listener is closed a second time when its variable was not reset.\<close>

theorem stop_is_clean:
  assumes "sys_start threads cap g0" "sys_step\<^sup>*\<^sup>* g0 g" "i < length (loops g)" and stop: "should_stop (node_at g i)"
    and few: "length (filter (\<lambda>t. task_worker t = i) (tasks (pool g))) + card (active g i) + length (completions (node_at g i)) < 2 ^ 64"
    and ep: "epoll_fd (loop (node_at g i)) \<noteq> -1"
  shows "filter (\<lambda>t. task_worker t = i) (tasks (pool g)) = [] \<and> completions (node_at g i) = [] \<and>
    get_conn (node_at g i) = Map.empty \<and>
    (\<forall>j t. j < length (workers (pool g)) \<longrightarrow> workers (pool g) ! j = Running t \<longrightarrow> task_worker t = i \<longrightarrow> j \<in> pushed g) \<and>
    mset (fds_closed (worker_exit True (node_at g i))) = mset (fds_opened (node_at g i)) +
      (if listener_fd (node_at g i) = -1 then {#} else {#listener_fd (node_at g i)#})"
proof -
  note w = reach_worker [OF assms(1-3), unfolded worker_inv_def Let_def]
  have o: "outstanding_tasks (node_at g i) = 0" "draining (node_at g i)" "conn_count (conns (node_at g i)) = 0"
    using stop by (simp_all add: should_stop_def)
  have "length (filter (\<lambda>t. task_worker t = i) (tasks (pool g))) + card (active g i) + length (completions (node_at g i)) = 0"
  proof -
    have id: "worker_id (node_at g i) = i" using w by simp
    have "0 = (length (filter (\<lambda>t. task_worker t = i) (tasks (pool g))) + card (active g i) + length (completions (node_at g i))) mod 2 ^ 64"
      using w o(1) unfolding count_inv_def own_queued_def pool_node_at id by simp
    then show ?thesis using few by (simp only: mod_less)
  qed
  then have none: "filter (\<lambda>t. task_worker t = i) (tasks (pool g)) = []" "active g i = {}" "completions (node_at g i) = []" by simp_all
  have "\<forall>j t. j < length (workers (pool g)) \<longrightarrow> workers (pool g) ! j = Running t \<longrightarrow> task_worker t = i \<longrightarrow> j \<in> pushed g"
    using none(2) by (auto simp: active_def)
  moreover have fds: "fds (node_at g i) = []" using o(3) by (simp add: fds_def file_descriptors_def conn_count_def)
  then have "dom (get_conn (node_at g i)) = {}" using fds_get [of "node_at g i"] by simp
  then have "get_conn (node_at g i) = Map.empty" by (simp only: dom_eq_empty_conv)
  moreover have "mset (fds_opened (node_at g i)) = mset (fds_closed (node_at g i)) + {#completion_fd (node_at g i), epoll_fd (loop (node_at g i))#}"
    using w fds o(2) by (simp add: fd_inv_def own_fds_def)
  ultimately show ?thesis using none(1,3) ep by (auto simp: worker_exit_def destroy_loop_def Let_def) (simp_all add: close_fd_def forget_fd_def)
qed

definition stopped_gateway :: "nat gateway" where
  "stopped_gateway = put_node 0 (on_iteration (node_at stopping_gateway 0)) stopping_gateway"

lemma stopped_reach: "sys_step\<^sup>*\<^sup>* example_gateway stopped_gateway"
  using rtranclp.rtrancl_into_rtrancl [OF stopping_reach sys_step.iteration [of 0]]
  by (simp add: stopped_gateway_def stopping_gateway_def one_client_eq)

lemma stopped_node: "node_at stopped_gateway 0 = enter stopped_loop stopped_server"
  by (simp add: stopped_gateway_def stopping_iteration) (simp add: stopping_gateway_def one_client_eq)

theorem stop_is_clean_witness: "mset (fds_closed (worker_exit True (node_at stopped_gateway 0))) = {#3, 4, 5, 7#}"
proof -
  have "should_stop (node_at stopped_gateway 0)"
    by (simp add: stopped_node should_stop_def stopped_loop_def client_loop_def example_loop_def conn_count_def)
  moreover have "pool stopped_gateway = begin_shutdown (new_pool 2 1)" "0 < length (loops stopped_gateway)"
    by (simp_all add: stopped_gateway_def stopping_iteration stopped_server_def) (simp add: stopping_gateway_def one_client_eq)
  moreover have "active stopped_gateway 0 = {}" using calculation(2) by (auto simp: active_def begin_shutdown_def new_pool_def)
  ultimately show ?thesis
    using stop_is_clean [OF example_start stopped_reach, of 0]
    by (simp add: stopped_node stopped_loop_def client_loop_def example_loop_def begin_shutdown_def new_pool_def)
qed

section \<open>Defects\<close>

lemma effects_closed: "effects s s' \<Longrightarrow> set (fds_closed s) \<subseteq> set (fds_closed s')"
proof (induction rule: rtranclp_induct)
  case (step t u)
  have "set (fds_closed t) \<subseteq> set (fds_closed u)"
    using step(2) by (cases rule: effect_shapes) (auto simp: quiet_def touches_def node_ops)
  with step show ?case by blast
qed simp

lemma drain_get: "dom (get_conn (fold drain_client fs s)) \<subseteq> dom (get_conn s)"
proof (induction fs arbitrary: s)
  case (Cons f fs)
  have "dom (get_conn (drain_client f s)) \<subseteq> dom (get_conn s)"
    by (auto simp: drain_client_def dest: flush_get split: option.splits if_splits)
  with Cons [of "drain_client f s"] show ?case by auto
qed simp

text \<open>C36. The listener is closed twice. When a worker learns of a shutdown inside \<open>handle_event\<close>,
  \<open>begin_drain\<close> closes the listener and resets a copy of the descriptor: the variable of
  \<open>worker_loop\<close> keeps it, and when the worker exits the same number is closed again, whatever it
  denotes by then. When the worker learns of it in \<open>on_iteration\<close>, the variable is reset.\<close>

theorem listener_closed_twice:
  assumes "shutdown_requested (srv n)" "\<not> draining n" "listener_fd n \<noteq> -1" "get_conn n (listener_fd n) = None"
    and "listener_fd n \<noteq> completion_fd n"
  shows "listener_fd (handle_event (listener_fd n) ev n) = listener_fd n \<and>
    2 \<le> count (mset (fds_closed (worker_exit True (handle_event (listener_fd n) ev n)))) (listener_fd n) \<and>
    listener_fd (on_iteration n) = -1"
proof -
  let ?l = "listener_fd n" and ?d = "fold drain_client (file_descriptors (conns n)) (stop_accepting n)"
  have bd: "begin_drain ?l n = (-1, ?d)" using assms(2) by (simp add: begin_drain_eq)
  have e: "effects (stop_accepting n) ?d" by (rule drain_all_effects)
  have st: "listener_fd (stop_accepting n) = ?l" "completion_fd (stop_accepting n) = completion_fd n" "?l \<in> set (fds_closed (stop_accepting n))"
    "get_conn (stop_accepting n) = get_conn n"
    using assms(3) by (simp_all add: stop_accepting_def Let_def) (simp_all add: node_ops)
  have "get_conn ?d ?l = None" using drain_get [of "file_descriptors (conns n)" "stop_accepting n"] st assms(4) by auto
  then have h: "handle_event ?l ev n = ?d" using assms bd effects_keep [OF e] st by (simp add: handle_event_def)
  have l: "listener_fd ?d = ?l" using st by simp
  have "?l \<in> set (fds_closed ?d)" using st effects_closed [OF e] by auto
  then have "0 < count (mset (fds_closed ?d)) ?l" by simp
  then have "2 \<le> count (mset (fds_closed (worker_exit True ?d))) ?l"
    using assms(3) l by (simp add: worker_exit_def destroy_loop_def Let_def close_fd_def del: count_mset)
  moreover have "listener_fd (on_iteration n) = -1"
    using on_iteration_drained [of n] effects_keep [OF process_completions_effects [of n]] assms by (simp add: after_drain_def)
  ultimately show ?thesis using h l by simp
qed

theorem listener_closed_twice_witness:
  "2 \<le> count (mset (fds_closed (worker_exit True (handle_event 3 EPOLLIN (node_at stopping_gateway 0))))) 3"
proof -
  let ?n = "node_at stopping_gateway 0"
  have n: "listener_fd ?n = 3" "\<not> draining ?n" "completion_fd ?n = 5" "shutdown_requested (srv ?n)" "get_conn ?n 3 = None"
    by (simp_all add: stopping_gateway_def one_client_eq node_at_def client_loop_def example_loop_def get_conn_def conn_get_def)
  then show ?thesis using listener_closed_twice [of ?n EPOLLIN] by simp
qed

lemma deliver_blocked:
  assumes c: "get_conn s (compl_fd k) = Some c" "request_in_flight c" "generation c = compl_generation k" "outbound c = []" "outbound_offset c = 0"
    and r: "serialized_response k \<noteq> []" "length (serialized_response k) \<le> max_outbound_bytes"
    and io: "sends (net s) = [Send_errno EAGAIN]" "ctls (loop s) = []" "epoll_fd (loop s) \<noteq> -1" "interest (loop s) (compl_fd k) \<noteq> None"
  shows "get_conn (deliver k s) (compl_fd k) = Some (c\<lparr>request_in_flight := False, outbound := serialized_response k, peer_closed := True\<rparr>) \<and>
    interest (loop (deliver k s)) (compl_fd k) = Some (EPOLLIN OR EPOLLOUT OR EPOLLRDHUP) \<and> ctls (loop (deliver k s)) = [] \<and>
    epoll_fd (loop (deliver k s)) = epoll_fd (loop s) \<and> worker_id (deliver k s) = worker_id s"
proof -
  have "pending_bytes (c\<lparr>request_in_flight := False, outbound := serialized_response k, peer_closed := True\<rparr>) = length (serialized_response k)"
    using c r by (subst pending_exact) (simp_all add: max_outbound_bytes_def)
  moreover have "pending_bytes (c\<lparr>request_in_flight := False\<rparr>) = 0" using c by (simp add: pending_bytes_def)
  moreover have "add64 0 (length (serialized_response k)) = length (serialized_response k)"
    using r by (intro trans [OF add64_exact]) (simp_all add: max_outbound_bytes_def)
  ultimately show ?thesis using c r io
    by (simp add: deliver_def flush_client_def Let_def split_beta EAGAIN_def EINTR_def)
      (simp add: loop_modify_def modify_fd_def next_ctl_def queue_response_def put_conn_def set_metrics_def split_beta)
qed

lemma handle_client_replays:
  assumes c: "get_conn s fd = Some c" "complete (parser c)" and bytes: "bytes \<noteq> []" "recvs (net s) = [Received bytes]"
    and io: "ctls (loop s) = []" "epoll_fd (loop s) \<noteq> -1" "interest (loop s) fd \<noteq> None"
    and room: "\<not> stopping (thread_pool (srv s))" "length (tasks (thread_pool (srv s))) < queue_capacity (thread_pool (srv s))"
  shows "accepted (thread_pool (srv (handle_client fd s))) = accepted (thread_pool (srv s)) @ [request_task s fd c]"
proof -
  have fd: "feed (parser c) b = (Complete, parser c)" for b using c(2) by (simp add: feed_def)
  have "take 1024 bytes \<noteq> []" using bytes by simp
  then show ?thesis using c bytes io room fd
    by (simp add: handle_client_def handle_bytes_def dispatch_request_def loop_modify_put Let_def split_beta)
      (simp add: loop_modify_def modify_fd_def next_ctl_def put_conn_def set_metrics_def set_pool_def submit_def request_task_def get_conn_def
        table.get_put split_beta)
qed

text \<open>C37. An answered request can be executed again. Suppose the response to a request is delivered
  while the socket's buffer is full. The connection is then watched for input again, and its parser
  still holds the completed request: if the client sends any further byte, the same request is
  submitted to the pool a second time (a second \<open>append\<close> for \<open>POST /publish\<close>).\<close>

theorem answered_request_replayed:
  assumes c: "get_conn s (compl_fd k) = Some c" "complete (parser c)" "request_in_flight c" "generation c = compl_generation k"
      "outbound c = []" "outbound_offset c = 0"
    and r: "serialized_response k \<noteq> []" "length (serialized_response k) \<le> max_outbound_bytes"
    and io: "sends (net s) = [Send_errno EAGAIN]" "ctls (loop s) = []" "epoll_fd (loop s) \<noteq> -1" "interest (loop s) (compl_fd k) \<noteq> None"
    and room: "\<not> stopping (thread_pool (srv s))" "length (tasks (thread_pool (srv s))) < queue_capacity (thread_pool (srv s))"
    and bytes: "bytes \<noteq> []"
  shows "interest (loop (deliver k s)) (compl_fd k) = Some (EPOLLIN OR EPOLLOUT OR EPOLLRDHUP) \<and>
    accepted (thread_pool (srv (handle_client (compl_fd k) ((deliver k s)\<lparr>net := (net s)\<lparr>recvs := [Received bytes]\<rparr>\<rparr>)))) =
      accepted (thread_pool (srv s)) @
        [\<lparr>task_worker = worker_id s, task_fd = compl_fd k, task_generation = generation c, task_request = request (parser c), task_ip = client_ip c\<rparr>]"
proof -
  note d = deliver_blocked [OF c(1,3-6) r io]
  have "thread_pool (srv (deliver k s)) = thread_pool (srv s)" using pool_view.view_deliver [of "[k]" s] by simp
  then show ?thesis
    using d c(2) io room bytes
      handle_client_replays [of "(deliver k s)\<lparr>net := (net s)\<lparr>recvs := [Received bytes]\<rparr>\<rparr>" "compl_fd k"
        "c\<lparr>request_in_flight := False, outbound := serialized_response k, peer_closed := True\<rparr>" bytes]
    by (simp add: request_task_def)
qed

definition slow_client :: "nat node" where
  "slow_client = enter (client_loop\<lparr>net := quiet_net_script\<lparr>sends := [Send_errno EAGAIN]\<rparr>,
     conns := [(7, (new_connection 7 ''10.0.0.1'' 1)\<lparr>request_in_flight := True,
       parser := (new_parser (16 * 1024) (1 * 1024 * 1024))\<lparr>complete := True\<rparr>\<rparr>)]\<rparr>) example_server"

theorem answered_request_replayed_witness:
  "length (accepted (thread_pool (srv (handle_client 7
     ((deliver \<lparr>compl_fd = 7, compl_generation = 1, serialized_response = ''HTTP/1.1 201'', compl_status = 201, compl_elapsed = 0\<rparr> slow_client)
        \<lparr>net := (net slow_client)\<lparr>recvs := [Received ''x'']\<rparr>\<rparr>))))) = 1"
proof -
  let ?k = "\<lparr>compl_fd = 7, compl_generation = 1, serialized_response = ''HTTP/1.1 201'', compl_status = 201, compl_elapsed = 0\<rparr>"
  have s: "get_conn slow_client 7 = Some ((new_connection 7 ''10.0.0.1'' 1)\<lparr>request_in_flight := True,
       parser := (new_parser (16 * 1024) (1 * 1024 * 1024))\<lparr>complete := True\<rparr>\<rparr>)"
    "sends (net slow_client) = [Send_errno EAGAIN]" "ctls (loop slow_client) = []" "epoll_fd (loop slow_client) = 4"
    "interest (loop slow_client) 7 \<noteq> None" "thread_pool (srv slow_client) = new_pool 2 1"
    by (simp_all add: slow_client_def client_loop_def example_loop_def example_server_def get_conn_def conn_get_def)
  show ?thesis using answered_request_replayed [of slow_client ?k _ "''x''"] s
    by (simp add: new_connection_def max_outbound_bytes_def new_pool_def)
qed

text \<open>A response above the limit of the outbound buffer is never sent, however fast the client reads:
  the connection is closed without an answer.\<close>

lemma oversized_response_dropped:
  assumes "get_conn s (compl_fd k) = Some c" "generation c = compl_generation k" "request_in_flight c"
    and "outbound c = []" "outbound_offset c = 0"
    and "max_outbound_bytes < length (serialized_response k)" "length (serialized_response k) < 2 ^ 64"
  shows "get_conn (deliver k s) (compl_fd k) = None \<and> answers (deliver k s) = answers s \<and> sent (deliver k s) = sent s"
proof -
  have "pending_bytes (c\<lparr>request_in_flight := False\<rparr>) = 0" using assms by (simp add: pending_bytes_def)
  moreover have "add64 0 (length (serialized_response k)) = length (serialized_response k)"
    using assms(7) by (intro trans [OF add64_exact]) simp_all
  ultimately show ?thesis using assms
    by (simp add: deliver_def Let_def) (simp add: node_ops)
qed

end
