(* ===== verification/Config.thy ===== *)
theory Config
  imports Prelude
begin

text \<open>
  \<open>src/src/core/config.cpp\<close> and \<open>config.h\<close>: the configuration from defaults, an optional
  file and the command line. The file system is a map from paths to contents. Number extraction
  is that of \<open>std::istringstream\<close> in the C locale as libstdc++ implements it: leading white
  space, an optional sign, decimal digits; a value outside the type fails; a minus sign in front
  of an unsigned number negates it modulo \<open>2 ^ w\<close>. A \<open>double\<close> is a real number or not
  finite; the rounding of decimal fractions is not modelled.
\<close>

section \<open>Data\<close>

datatype double = Finite real | Not_finite

record config =
  port :: int
  backlog :: int
  cfg_epoll_worker_count :: nat
  thread_pool_size :: nat
  task_queue_capacity :: nat
  log_path :: string
  rate_limit_capacity :: double
  rate_limit_refill_rate :: double
  storage_directory :: string
  storage_segment_size :: nat
  recent_message_capacity :: nat

definition default_config :: config where
  "default_config = \<lparr>port = 8080, backlog = 128, cfg_epoll_worker_count = 0, thread_pool_size = 4,
     task_queue_capacity = 1024, log_path = [], rate_limit_capacity = Finite 10,
     rate_limit_refill_rate = Finite 5, storage_directory = ''data/log'',
     storage_segment_size = 64 * 1024 * 1024, recent_message_capacity = 1024\<rparr>"

section \<open>Text\<close>

definition is_blank4 :: "char \<Rightarrow> bool" where
  "is_blank4 c \<longleftrightarrow> c \<in> {CHR '' '', CHR 0x09, CHR 0x0D, CHR 0x0A}"

definition cfg_trim :: "string \<Rightarrow> string" where
  "cfg_trim v = rev (dropWhile is_blank4 (rev (dropWhile is_blank4 v)))"

text \<open>\<open>std::isspace\<close> in the C locale.\<close>

definition is_space :: "char \<Rightarrow> bool" where
  "is_space c \<longleftrightarrow> is_blank4 c \<or> c = CHR 0x0B \<or> c = CHR 0x0C"

text \<open>An optional sign.\<close>

definition split_sign :: "string \<Rightarrow> bool \<times> string" where
  "split_sign s = (case s of
       c # cs \<Rightarrow> if c = CHR ''-'' then (True, cs) else if c = CHR ''+'' then (False, cs) else (False, s)
     | [] \<Rightarrow> (False, []))"

definition extract_int :: "nat \<Rightarrow> string \<Rightarrow> (int \<times> string) option" where
  "extract_int w s =
     (let (neg, t) = split_sign (dropWhile is_space s); ds = takeWhile is_digit t;
          v = (if neg then - int (digits_value 0 ds) else int (digits_value 0 ds)) in
      if ds = [] \<or> v < - (2 ^ (w - 1)) \<or> v \<ge> 2 ^ (w - 1) then None else Some (v, dropWhile is_digit t))"

definition extract_unsigned :: "nat \<Rightarrow> string \<Rightarrow> (nat \<times> string) option" where
  "extract_unsigned w s =
     (let (neg, t) = split_sign (dropWhile is_space s); ds = takeWhile is_digit t; v = digits_value 0 ds in
      if ds = [] \<or> v \<ge> 2 ^ w then None
      else Some (if neg then (2 ^ w - v) mod 2 ^ w else v, dropWhile is_digit t))"

text \<open>A decimal floating-point literal: digits with an optional point, an optional exponent. An
  exponent mark without digits fails, as does a value beyond the largest \<open>double\<close>.\<close>

definition extract_double :: "string \<Rightarrow> (double \<times> string) option" where
  "extract_double s =
     (let (neg, t) = split_sign (dropWhile is_space s);
          ds = takeWhile is_digit t; t1 = dropWhile is_digit t;
          (fs, t2) = (case t1 of c # cs \<Rightarrow> if c = CHR ''.'' then (takeWhile is_digit cs, dropWhile is_digit cs) else ([], t1)
                      | [] \<Rightarrow> ([], t1));
          mant = real (digits_value 0 (ds @ fs)) / 10 ^ length fs;
          m = (if neg then - mant else mant) in
      if ds @ fs = [] then None else
      case t2 of
        c # cs \<Rightarrow>
          if c = CHR ''e'' \<or> c = CHR ''E'' then
            (let (eneg, t3) = split_sign cs; es = takeWhile is_digit t3; e = digits_value 0 es;
                 v = (if eneg then m / 10 ^ e else m * 10 ^ e) in
             if es = [] \<or> \<bar>v\<bar> \<ge> 2 ^ 1024 then None else Some (Finite v, dropWhile is_digit t3))
          else if \<bar>m\<bar> \<ge> 2 ^ 1024 then None else Some (Finite m, t2)
      | [] \<Rightarrow> if \<bar>m\<bar> \<ge> 2 ^ 1024 then None else Some (Finite m, t2))"

definition parse_number :: "(string \<Rightarrow> ('n \<times> string) option) \<Rightarrow> string \<Rightarrow> string \<Rightarrow> exn + 'n" where
  "parse_number extract v key =
     (case extract v of
        Some (parsed, rest) \<Rightarrow>
          if dropWhile is_space rest \<noteq> []
          then Inl (Runtime_error (''Invalid value for '' @ key @ '': '' @ v)) else Inr parsed
      | None \<Rightarrow> Inl (Runtime_error (''Invalid value for '' @ key @ '': '' @ v)))"

section \<open>Setting keys\<close>

definition apply_key :: "config \<Rightarrow> string \<Rightarrow> string \<Rightarrow> exn + config" where
  "apply_key c key v =
     (let num = (\<lambda>extract upd. case parse_number extract v key of Inl e \<Rightarrow> Inl e | Inr n \<Rightarrow> Inr (upd n));
          dbl = (\<lambda>upd. case parse_number extract_double v key of Inl e \<Rightarrow> Inl e | Inr d \<Rightarrow> Inr (upd d)) in
      if key = ''port'' then
        (case parse_number (extract_int 32) v key of Inl e \<Rightarrow> Inl e | Inr n \<Rightarrow> Inr (c\<lparr>port := n\<rparr>))
      else if key = ''backlog'' then
        (case parse_number (extract_int 32) v key of Inl e \<Rightarrow> Inl e | Inr n \<Rightarrow> Inr (c\<lparr>backlog := n\<rparr>))
      else if key = ''epoll_worker_count'' then num (extract_unsigned 32) (\<lambda>n. c\<lparr>cfg_epoll_worker_count := n\<rparr>)
      else if key = ''thread_pool_size'' then num (extract_unsigned 32) (\<lambda>n. c\<lparr>thread_pool_size := n\<rparr>)
      else if key = ''task_queue_capacity'' then num (extract_unsigned 64) (\<lambda>n. c\<lparr>task_queue_capacity := n\<rparr>)
      else if key = ''log_path'' then Inr (c\<lparr>log_path := v\<rparr>)
      else if key = ''rate_limit_capacity'' then dbl (\<lambda>d. c\<lparr>rate_limit_capacity := d\<rparr>)
      else if key = ''rate_limit_refill_rate'' then dbl (\<lambda>d. c\<lparr>rate_limit_refill_rate := d\<rparr>)
      else if key = ''storage_directory'' then Inr (c\<lparr>storage_directory := v\<rparr>)
      else if key = ''storage_segment_size'' then num (extract_unsigned 64) (\<lambda>n. c\<lparr>storage_segment_size := n\<rparr>)
      else if key = ''recent_message_capacity'' then num (extract_unsigned 64) (\<lambda>n. c\<lparr>recent_message_capacity := n\<rparr>)
      else Inl (Runtime_error (''Unknown configuration key: '' @ key)))"

definition options :: "(string \<times> string) list" where
  "options = [(''--port'', ''port''), (''--backlog'', ''backlog''), (''--epoll-workers'', ''epoll_worker_count''),
     (''--pool-threads'', ''thread_pool_size''), (''--queue-capacity'', ''task_queue_capacity''),
     (''--log-path'', ''log_path''), (''--rate-limit-capacity'', ''rate_limit_capacity''),
     (''--rate-limit-refill-rate'', ''rate_limit_refill_rate''), (''--storage-directory'', ''storage_directory''),
     (''--storage-segment-size'', ''storage_segment_size''), (''--recent-capacity'', ''recent_message_capacity'')]"

definition out_of_double_range :: "double \<Rightarrow> real \<Rightarrow> bool" where
  "out_of_double_range d low = (case d of Not_finite \<Rightarrow> True | Finite r \<Rightarrow> r < low)"

definition validate :: "config \<Rightarrow> exn + unit" where
  "validate c =
     (if port c < 1 \<or> port c > 65535 then Inl (Runtime_error ''port must be between 1 and 65535'')
      else if backlog c < 1 then Inl (Runtime_error ''backlog must be positive'')
      else if cfg_epoll_worker_count c > 256 then Inl (Runtime_error ''epoll_worker_count must be at most 256'')
      else if thread_pool_size c < 1 \<or> thread_pool_size c > 256
      then Inl (Runtime_error ''thread_pool_size must be between 1 and 256'')
      else if task_queue_capacity c < 1 \<or> task_queue_capacity c > 1048576
      then Inl (Runtime_error ''task_queue_capacity must be between 1 and 1048576'')
      else if out_of_double_range (rate_limit_capacity c) 1
      then Inl (Runtime_error ''rate_limit_capacity must be finite and at least 1'')
      else if out_of_double_range (rate_limit_refill_rate c) 0
      then Inl (Runtime_error ''rate_limit_refill_rate must be finite and non-negative'')
      else if storage_directory c = [] then Inl (Runtime_error ''storage_directory must not be empty'')
      else if storage_segment_size c < 73 \<or> storage_segment_size c > 1024 * 1024 * 1024
      then Inl (Runtime_error ''storage_segment_size must be between 73 bytes and 1 GiB'')
      else if recent_message_capacity c = 0 \<or> recent_message_capacity c > 1048576
      then Inl (Runtime_error ''recent_message_capacity must be between 1 and 1048576'')
      else Inr ())"

section \<open>The file\<close>

text \<open>The lines \<open>std::getline\<close> delivers.\<close>

function getlines :: "string \<Rightarrow> string list" where
  "getlines s = (if s = [] then []
     else takeWhile (\<lambda>c. c \<noteq> CHR 0x0A) s # getlines (drop 1 (dropWhile (\<lambda>c. c \<noteq> CHR 0x0A) s)))"
  by auto
termination
proof (relation "measure length")
  fix s :: string assume "s \<noteq> []"
  then show "(drop 1 (dropWhile (\<lambda>c. c \<noteq> CHR 0x0A) s), s) \<in> measure length"
    using length_dropWhile_le [of "\<lambda>c. c \<noteq> CHR 0x0A" s] by (cases s) (auto simp: diff_less_Suc)
qed simp

declare getlines.simps [simp del]

fun load_lines :: "string \<Rightarrow> string list \<Rightarrow> nat \<Rightarrow> config \<Rightarrow> exn + config" where
  "load_lines pth [] line_number c = Inr c"
| "load_lines pth (raw # ls) line_number c =
     (let line_number = line_number + 1;
          line = cfg_trim (case find_char (CHR ''#'') raw of None \<Rightarrow> raw | Some i \<Rightarrow> take i raw) in
      if line = [] then load_lines pth ls line_number c else
      case find_char (CHR ''='') line of
        None \<Rightarrow> Inl (Runtime_error (''Expected key=value at '' @ pth @ '':'' @ to_string line_number))
      | Some sep \<Rightarrow>
          (let key = cfg_trim (take sep line); v = cfg_trim (drop (sep + 1) line) in
           if key = [] \<or> v = [] then Inl (Runtime_error (''Empty key or value at '' @ pth @ '':'' @ to_string line_number))
           else case apply_key c key v of Inl e \<Rightarrow> Inl e | Inr c' \<Rightarrow> load_lines pth ls line_number c'))"

definition load_file :: "(string \<rightharpoonup> string) \<Rightarrow> string \<Rightarrow> exn + config" where
  "load_file files pth = (case files pth of
       None \<Rightarrow> Inl (Runtime_error (''Unable to open config file: '' @ pth))
     | Some content \<Rightarrow> (case load_lines pth (getlines content) 0 default_config of
           Inl e \<Rightarrow> Inl e
         | Inr c \<Rightarrow> (case validate c of Inl e \<Rightarrow> Inl e | Inr _ \<Rightarrow> Inr c)))"

section \<open>The command line\<close>

text \<open>The two passes over the arguments (without the program name).\<close>

fun find_config :: "string list \<Rightarrow> string \<Rightarrow> exn + string" where
  "find_config [] config_path = Inr config_path"
| "find_config (arg # args) config_path =
     (if arg = ''--config'' then
        (case args of [] \<Rightarrow> Inl (Runtime_error ''--config requires a path'')
         | pth # rest \<Rightarrow> find_config rest pth)
      else find_config args config_path)"

fun apply_args :: "string list \<Rightarrow> config \<Rightarrow> exn + config" where
  "apply_args [] c = Inr c"
| "apply_args (arg # args) c =
     (if arg = ''--config'' then (case args of [] \<Rightarrow> Inr c | _ # rest \<Rightarrow> apply_args rest c)
      else case map_of options arg of
          None \<Rightarrow> Inl (Runtime_error (''Unknown argument: '' @ arg))
        | Some key \<Rightarrow> (case args of
              [] \<Rightarrow> Inl (Runtime_error (arg @ '' requires a value''))
            | v # rest \<Rightarrow> (case apply_key c key v of Inl e \<Rightarrow> Inl e | Inr c' \<Rightarrow> apply_args rest c')))"

definition from_args :: "(string \<rightharpoonup> string) \<Rightarrow> string list \<Rightarrow> exn + config" where
  "from_args files args =
     (case find_config args [] of Inl e \<Rightarrow> Inl e | Inr config_path \<Rightarrow>
      case (if config_path = [] then Inr default_config else load_file files config_path) of
        Inl e \<Rightarrow> Inl e
      | Inr c \<Rightarrow> (case apply_args args c of Inl e \<Rightarrow> Inl e
          | Inr c' \<Rightarrow> (case validate c' of Inl e \<Rightarrow> Inl e | Inr _ \<Rightarrow> Inr c')))"

section \<open>Validity\<close>

definition valid_config :: "config \<Rightarrow> bool" where
  "valid_config c \<longleftrightarrow> 1 \<le> port c \<and> port c \<le> 65535 \<and> 1 \<le> backlog c \<and> cfg_epoll_worker_count c \<le> 256 \<and>
     1 \<le> thread_pool_size c \<and> thread_pool_size c \<le> 256 \<and>
     1 \<le> task_queue_capacity c \<and> task_queue_capacity c \<le> 1048576 \<and>
     (\<exists>cap. rate_limit_capacity c = Finite cap \<and> 1 \<le> cap) \<and>
     (\<exists>rate. rate_limit_refill_rate c = Finite rate \<and> 0 \<le> rate) \<and>
     storage_directory c \<noteq> [] \<and> 73 \<le> storage_segment_size c \<and> storage_segment_size c \<le> 2 ^ 30 \<and>
     1 \<le> recent_message_capacity c \<and> recent_message_capacity c \<le> 1048576"

lemma in_double_range: "\<not> out_of_double_range d low \<longleftrightarrow> (\<exists>r. d = Finite r \<and> low \<le> r)"
  by (cases d) (auto simp: out_of_double_range_def)

lemma validate_iff: "validate c = Inr u \<longleftrightarrow> valid_config c"
  unfolding validate_def valid_config_def in_double_range [symmetric]
  by (auto split: if_splits)

lemma from_args_valid: "from_args files args = Inr c \<Longrightarrow> valid_config c"
  by (auto simp: from_args_def validate_iff split: sum.splits if_splits)

section \<open>Options as pairs\<close>

definition args_of :: "(string \<times> string) list \<Rightarrow> string list" where
  "args_of ps = concat (map (\<lambda>p. [fst p, snd p]) ps)"

definition is_config :: "string \<times> string \<Rightarrow> bool" where
  "is_config p \<longleftrightarrow> fst p = ''--config''"

definition known_option :: "string \<times> string \<Rightarrow> bool" where
  "known_option p \<longleftrightarrow> is_config p \<or> fst p \<in> fst ` set options \<and> snd p \<noteq> ''--config''"

definition config_path_of :: "(string \<times> string) list \<Rightarrow> string \<Rightarrow> string" where
  "config_path_of ps p0 = last (p0 # map snd (filter is_config ps))"

fun apply_pairs :: "(string \<times> string) list \<Rightarrow> config \<Rightarrow> exn + config" where
  "apply_pairs [] c = Inr c"
| "apply_pairs (p # ps) c = (case apply_key c (the (map_of options (fst p))) (snd p) of
     Inl e \<Rightarrow> Inl e | Inr c' \<Rightarrow> apply_pairs ps c')"

lemma args_of_simps [simp]: "args_of [] = []" "args_of (p # ps) = fst p # snd p # args_of ps"
  by (simp_all add: args_of_def)

lemma find_config_pairs: "list_all known_option ps \<Longrightarrow> find_config (args_of ps) p0 = Inr (config_path_of ps p0)"
  by (induction ps arbitrary: p0) (auto simp: known_option_def is_config_def config_path_of_def)

lemma config_no_option: "map_of options ''--config'' = None"
  by (simp add: options_def)

lemma apply_args_pairs:
  "list_all known_option ps \<Longrightarrow> apply_args (args_of ps) c = apply_pairs (filter (\<lambda>p. \<not> is_config p) ps) c"
proof (induction ps arbitrary: c)
  case (Cons p ps)
  show ?case
  proof (cases "is_config p")
    case True
    then show ?thesis using Cons by (simp add: is_config_def)
  next
    case False
    then have "fst p \<in> fst ` set options" using Cons.prems by (simp add: known_option_def)
    then obtain key where key: "map_of options (fst p) = Some key"
      by (metis map_of_eq_None_iff not_None_eq)
    have rest: "apply_args (args_of ps) c' = apply_pairs (filter (\<lambda>p. \<not> is_config p) ps) c'" for c'
      using Cons by simp
    show ?thesis using False key by (simp add: is_config_def rest split: sum.split)
  qed
qed simp

lemma from_args_pairs:
  assumes "list_all known_option ps"
  shows "from_args files (args_of ps) =
    (case (if config_path_of ps [] = [] then Inr default_config else load_file files (config_path_of ps [])) of
       Inl e \<Rightarrow> Inl e
     | Inr c \<Rightarrow> (case apply_pairs (filter (\<lambda>p. \<not> is_config p) ps) c of Inl e \<Rightarrow> Inl e
         | Inr c' \<Rightarrow> (case validate c' of Inl e \<Rightarrow> Inl e | Inr _ \<Rightarrow> Inr c')))"
  unfolding from_args_def find_config_pairs [OF assms] apply_args_pairs [OF assms] by simp

text \<open>The value of the last option of a name, and a setting that is decided by it.\<close>

definition last_value :: "string \<Rightarrow> (string \<times> string) list \<Rightarrow> string option" where
  "last_value opt ps = (case filter (\<lambda>p. fst p = opt) ps of [] \<Rightarrow> None | qs \<Rightarrow> Some (snd (last qs)))"

definition chosen :: "string \<Rightarrow> (string \<Rightarrow> exn + 'x) \<Rightarrow> (string \<times> string) list \<Rightarrow> 'x \<Rightarrow> 'x \<Rightarrow> bool" where
  "chosen opt read ps x0 x \<longleftrightarrow> (case last_value opt ps of None \<Rightarrow> x = x0 | Some v \<Rightarrow> read v = Inr x)"

definition settled :: "(string \<times> string) list \<Rightarrow> config \<Rightarrow> config \<Rightarrow> bool" where
  "settled ps c0 c \<longleftrightarrow>
     chosen ''--port'' (\<lambda>v. parse_number (extract_int 32) v ''port'') ps (port c0) (port c) \<and>
     chosen ''--backlog'' (\<lambda>v. parse_number (extract_int 32) v ''backlog'') ps (backlog c0) (backlog c) \<and>
     chosen ''--epoll-workers'' (\<lambda>v. parse_number (extract_unsigned 32) v ''epoll_worker_count'') ps
       (cfg_epoll_worker_count c0) (cfg_epoll_worker_count c) \<and>
     chosen ''--pool-threads'' (\<lambda>v. parse_number (extract_unsigned 32) v ''thread_pool_size'') ps (thread_pool_size c0) (thread_pool_size c) \<and>
     chosen ''--queue-capacity'' (\<lambda>v. parse_number (extract_unsigned 64) v ''task_queue_capacity'') ps
       (task_queue_capacity c0) (task_queue_capacity c) \<and>
     chosen ''--log-path'' Inr ps (log_path c0) (log_path c) \<and>
     chosen ''--rate-limit-capacity'' (\<lambda>v. parse_number extract_double v ''rate_limit_capacity'') ps
       (rate_limit_capacity c0) (rate_limit_capacity c) \<and>
     chosen ''--rate-limit-refill-rate'' (\<lambda>v. parse_number extract_double v ''rate_limit_refill_rate'') ps
       (rate_limit_refill_rate c0) (rate_limit_refill_rate c) \<and>
     chosen ''--storage-directory'' Inr ps (storage_directory c0) (storage_directory c) \<and>
     chosen ''--storage-segment-size'' (\<lambda>v. parse_number (extract_unsigned 64) v ''storage_segment_size'') ps
       (storage_segment_size c0) (storage_segment_size c) \<and>
     chosen ''--recent-capacity'' (\<lambda>v. parse_number (extract_unsigned 64) v ''recent_message_capacity'') ps
       (recent_message_capacity c0) (recent_message_capacity c)"

lemma last_value_Cons: "last_value opt (p # ps) =
    (case last_value opt ps of Some v \<Rightarrow> Some v | None \<Rightarrow> if fst p = opt then Some (snd p) else None)"
  by (cases "filter (\<lambda>p. fst p = opt) ps") (simp_all add: last_value_def)

lemma chosen_filter: "opt \<noteq> ''--config'' \<Longrightarrow> chosen opt read (filter (\<lambda>p. \<not> is_config p) ps) x0 x \<longleftrightarrow> chosen opt read ps x0 x"
proof -
  assume "opt \<noteq> ''--config''"
  then have "filter (\<lambda>p. fst p = opt) (filter (\<lambda>p. \<not> is_config p) ps) = filter (\<lambda>p. fst p = opt) ps"
    by (induction ps) (auto simp: is_config_def)
  then show ?thesis by (simp add: chosen_def last_value_def)
qed

text \<open>A setting that one key decides is decided by the last option for that key.\<close>

lemma chosen_pairs:
  assumes key: "\<And>c k v c'. apply_key c k v = Inr c' \<Longrightarrow> (if k = key then read v = Inr (get c') else get c' = get c)"
    and opt: "\<And>x. map_of options x = Some key \<longleftrightarrow> x = opt"
  shows "apply_pairs ps c0 = Inr c \<Longrightarrow> list_all (\<lambda>p. fst p \<in> fst ` set options) ps \<Longrightarrow> chosen opt read ps (get c0) (get c)"
proof (induction ps arbitrary: c0)
  case (Cons p ps)
  have "fst p \<in> fst ` set options" using Cons.prems(2) by simp
  then obtain k where k: "map_of options (fst p) = Some k" by (metis map_of_eq_None_iff not_None_eq)
  obtain c1 where c1: "apply_key c0 k (snd p) = Inr c1" "apply_pairs ps c1 = Inr c" using Cons.prems(1) k by (auto split: sum.splits)
  have "k = key \<longleftrightarrow> fst p = opt" using opt [of "fst p"] k by simp
  then show ?case using Cons.IH [OF c1(2)] Cons.prems(2) key [OF c1(1)]
    by (auto simp: chosen_def last_value_Cons split: option.splits if_splits)
qed (simp add: chosen_def last_value_def)

lemma settled_pairs:
  assumes "apply_pairs ps c0 = Inr c" and "list_all (\<lambda>p. fst p \<in> fst ` set options) ps"
  shows "settled ps c0 c"
  unfolding settled_def
proof (intro conjI, goal_cases)
  case 1
  show ?case by (rule chosen_pairs [where key = "''port''", OF _ _ assms]) (auto simp: apply_key_def options_def Let_def split: if_splits sum.splits)
next
  case 2
  show ?case by (rule chosen_pairs [where key = "''backlog''", OF _ _ assms]) (auto simp: apply_key_def options_def Let_def split: if_splits sum.splits)
next
  case 3
  show ?case by (rule chosen_pairs [where key = "''epoll_worker_count''", OF _ _ assms]) (auto simp: apply_key_def options_def Let_def split: if_splits sum.splits)
next
  case 4
  show ?case by (rule chosen_pairs [where key = "''thread_pool_size''", OF _ _ assms]) (auto simp: apply_key_def options_def Let_def split: if_splits sum.splits)
next
  case 5
  show ?case by (rule chosen_pairs [where key = "''task_queue_capacity''", OF _ _ assms]) (auto simp: apply_key_def options_def Let_def split: if_splits sum.splits)
next
  case 6
  show ?case by (rule chosen_pairs [where key = "''log_path''", OF _ _ assms]) (auto simp: apply_key_def options_def Let_def split: if_splits sum.splits)
next
  case 7
  show ?case by (rule chosen_pairs [where key = "''rate_limit_capacity''", OF _ _ assms]) (auto simp: apply_key_def options_def Let_def split: if_splits sum.splits)
next
  case 8
  show ?case by (rule chosen_pairs [where key = "''rate_limit_refill_rate''", OF _ _ assms]) (auto simp: apply_key_def options_def Let_def split: if_splits sum.splits)
next
  case 9
  show ?case by (rule chosen_pairs [where key = "''storage_directory''", OF _ _ assms]) (auto simp: apply_key_def options_def Let_def split: if_splits sum.splits)
next
  case 10
  show ?case by (rule chosen_pairs [where key = "''storage_segment_size''", OF _ _ assms]) (auto simp: apply_key_def options_def Let_def split: if_splits sum.splits)
next
  case 11
  show ?case by (rule chosen_pairs [where key = "''recent_message_capacity''", OF _ _ assms]) (auto simp: apply_key_def options_def Let_def split: if_splits sum.splits)
qed

section \<open>Files as key-value pairs\<close>

definition print_pairs :: "(string \<times> string) list \<Rightarrow> string" where
  "print_pairs ps = concat (map (\<lambda>p. fst p @ ''='' @ snd p @ [CHR 0x0A]) ps)"

definition plain_text :: "string \<Rightarrow> bool" where
  "plain_text s \<longleftrightarrow> s \<noteq> [] \<and> \<not> is_blank4 (hd s) \<and> \<not> is_blank4 (last s) \<and> CHR ''#'' \<notin> set s \<and> CHR 0x0A \<notin> set s"

definition good_pair :: "string \<times> string \<Rightarrow> bool" where
  "good_pair p \<longleftrightarrow> plain_text (fst p) \<and> CHR ''='' \<notin> set (fst p) \<and> plain_text (snd p)"

fun apply_keys :: "(string \<times> string) list \<Rightarrow> config \<Rightarrow> exn + config" where
  "apply_keys [] c = Inr c"
| "apply_keys (p # ps) c = (case apply_key c (fst p) (snd p) of Inl e \<Rightarrow> Inl e | Inr c' \<Rightarrow> apply_keys ps c')"

lemma split_at_char:
  "x \<notin> set l \<Longrightarrow> takeWhile (\<lambda>c. c \<noteq> x) (l @ x # s) = l \<and> dropWhile (\<lambda>c. c \<noteq> x) (l @ x # s) = x # s"
  by (induction l) auto

lemma getlines_line: "CHR 0x0A \<notin> set l \<Longrightarrow> getlines (l @ CHR 0x0A # s) = l # getlines s"
  by (subst getlines.simps) (simp add: split_at_char)

lemma getlines_Nil [simp]: "getlines [] = []"
  by (subst getlines.simps) simp

lemma cfg_trim_id:
  assumes "s \<noteq> []" "\<not> is_blank4 (hd s)" "\<not> is_blank4 (last s)"
  shows "cfg_trim s = s"
proof -
  have "dropWhile is_blank4 s = s" using assms by (cases s) simp_all
  moreover have "dropWhile is_blank4 (rev s) = rev s"
    using assms by (cases s rule: rev_cases) simp_all
  ultimately show ?thesis by (simp add: cfg_trim_def)
qed

lemma load_lines_pairs:
  assumes "list_all good_pair ps"
  shows "load_lines pth (getlines (print_pairs ps)) n c = apply_keys ps c"
  using assms
proof (induction ps arbitrary: n c)
  case Nil
  then show ?case by (simp add: print_pairs_def)
next
  case (Cons p ps)
  obtain k v where p: "p = (k, v)" by fastforce
  have k: "plain_text k" "CHR ''='' \<notin> set k" and v: "plain_text v" using Cons.prems by (simp_all add: p good_pair_def)
  let ?line = "k @ CHR ''='' # v"
  have lines: "getlines (print_pairs (p # ps)) = ?line # getlines (print_pairs ps)"
    using getlines_line [of ?line "print_pairs ps"] k v by (simp add: print_pairs_def p plain_text_def)
  have trim: "cfg_trim ?line = ?line" "cfg_trim k = k" "cfg_trim v = v"
    using k v by (auto simp: plain_text_def intro!: cfg_trim_id)
  have nohash: "find_char (CHR ''#'') ?line = None" using k v by (simp add: plain_text_def)
  have eq: "find_char (CHR ''='') ?line = Some (length k)" using k by simp
  show ?case
    unfolding lines using nohash eq k v trim Cons.IH Cons.prems
    by (simp add: p Let_def plain_text_def del: find_char_None_iff split: sum.split)
qed

section \<open>Numbers\<close>

lemma digit_props: "is_digit c \<Longrightarrow> \<not> is_space c \<and> \<not> is_blank4 c \<and> c \<noteq> CHR ''-'' \<and> c \<noteq> CHR ''+'' \<and> c \<noteq> CHR ''#'' \<and>
  c \<noteq> CHR 0x0A \<and> c \<noteq> CHR ''.'' \<and> c \<noteq> CHR ''e'' \<and> c \<noteq> CHR ''E''"
  by (auto simp: is_digit_def is_space_def is_blank4_def)

lemma to_string_hd: "\<exists>d ds. to_string n = d # ds \<and> is_digit d"
  using to_string_digits [of n] to_string_nonempty [of n] by (cases "to_string n") auto

lemma scan_to_string:
  "dropWhile is_space (to_string n) = to_string n" "split_sign (to_string n) = (False, to_string n)"
  "takeWhile is_digit (to_string n) = to_string n" "dropWhile is_digit (to_string n) = []"
proof -
  obtain d ds where d: "to_string n = d # ds" "is_digit d" using to_string_hd by blast
  then show "dropWhile is_space (to_string n) = to_string n" "split_sign (to_string n) = (False, to_string n)"
    using digit_props [of d] by (simp_all add: split_sign_def)
  show "takeWhile is_digit (to_string n) = to_string n" "dropWhile is_digit (to_string n) = []"
    using to_string_digits [of n] by (simp_all add: takeWhile_digits dropWhile_digits)
qed

lemma parse_unsigned: "n < 2 ^ w \<Longrightarrow> parse_number (extract_unsigned w) (to_string n) key = Inr n"
  by (simp add: parse_number_def extract_unsigned_def scan_to_string)

lemma parse_signed: "0 < w \<Longrightarrow> n < 2 ^ (w - 1) \<Longrightarrow> parse_number (extract_int w) (to_string n) key = Inr (int n)"
proof -
  assume "0 < w" "n < 2 ^ (w - 1)"
  then have "int n < 2 ^ (w - 1)" "\<not> int n < - (2 ^ (w - 1))" by (simp_all add: not_less order_trans [of _ 0])
  then show ?thesis by (simp add: parse_number_def extract_int_def scan_to_string)
qed

text \<open>A decimal number, with or without a fraction.\<close>

definition decimal :: "string \<Rightarrow> real \<Rightarrow> bool" where
  "decimal s x \<longleftrightarrow> (\<exists>n fs. list_all is_digit fs \<and> s = to_string n @ (if fs = [] then [] else CHR ''.'' # fs) \<and>
     x = real (digits_value 0 (to_string n @ fs)) / 10 ^ length fs)"

lemma parse_decimal:
  assumes "decimal s x" and "x < 2 ^ 1024"
  shows "parse_number extract_double s key = Inr (Finite x)"
proof -
  obtain n fs where d: "list_all is_digit fs" "s = to_string n @ (if fs = [] then [] else CHR ''.'' # fs)"
    "x = real (digits_value 0 (to_string n @ fs)) / 10 ^ length fs" using assms(1) by (auto simp: decimal_def)
  have x: "\<not> \<bar>x\<bar> \<ge> 2 ^ 1024" using assms(2) d(3) by simp
  obtain a as where a: "to_string n = a # as" "is_digit a" using to_string_hd by blast
  have dig: "list_all is_digit (to_string n)" by (rule to_string_digits)
  have point: "\<not> is_digit (CHR ''.'')" by (simp add: is_digit_def)
  have sc: "dropWhile is_space s = s" "split_sign s = (False, s)" "takeWhile is_digit s = to_string n"
    "dropWhile is_digit s = (if fs = [] then [] else CHR ''.'' # fs)" "takeWhile is_digit fs = fs" "dropWhile is_digit fs = []"
    using a digit_props [OF a(2)] d(1,2) dig point
    by (auto simp: split_sign_def list_all_iff takeWhile_append2 dropWhile_append2 takeWhile_eq_all_conv)
  show ?thesis
    unfolding parse_number_def extract_double_def sc split Let_def
    using x by (cases "fs = []") (simp_all add: sc d(3))
qed

lemma plain_decimal: "decimal s x \<Longrightarrow> plain_text s"
proof -
  assume "decimal s x"
  then obtain n fs where d: "list_all is_digit fs" "s = to_string n @ (if fs = [] then [] else CHR ''.'' # fs)" by (auto simp: decimal_def)
  have "\<forall>c \<in> set (to_string n @ fs). is_digit c" using d(1) to_string_digits [of n] by (auto simp: list_all_iff)
  moreover have "set s \<subseteq> insert (CHR ''.'') (set (to_string n @ fs))" using d(2) by auto
  ultimately have "\<forall>c \<in> set s. \<not> is_blank4 c \<and> c \<noteq> CHR ''#'' \<and> c \<noteq> CHR 0x0A"
    using digit_props by (fastforce simp: is_blank4_def)
  moreover have "s \<noteq> []" using d(2) to_string_nonempty by simp
  ultimately show ?thesis unfolding plain_text_def by (metis hd_in_set last_in_set)
qed

lemma plain_to_string [simp]: "plain_text (to_string n)"
proof -
  have "\<forall>c \<in> set (to_string n). is_digit c" using to_string_digits by (simp add: list_all_iff)
  then show ?thesis using digit_props by (fastforce simp: plain_text_def)
qed

text \<open>A configuration as a file; the optional log path is left out when it is empty.\<close>

definition config_pairs :: "config \<Rightarrow> string \<Rightarrow> string \<Rightarrow> (string \<times> string) list" where
  "config_pairs c cap rate =
     [(''port'', to_string (nat (port c))), (''backlog'', to_string (nat (backlog c))),
      (''epoll_worker_count'', to_string (cfg_epoll_worker_count c)), (''thread_pool_size'', to_string (thread_pool_size c)),
      (''task_queue_capacity'', to_string (task_queue_capacity c))] @
     (if log_path c = [] then [] else [(''log_path'', log_path c)]) @
     [(''rate_limit_capacity'', cap), (''rate_limit_refill_rate'', rate),
      (''storage_directory'', storage_directory c), (''storage_segment_size'', to_string (storage_segment_size c)),
      (''recent_message_capacity'', to_string (recent_message_capacity c))]"

lemma apply_keys_append:
  "apply_keys (ps @ qs) c = (case apply_keys ps c of Inl e \<Rightarrow> Inl e | Inr c' \<Rightarrow> apply_keys qs c')"
  by (induction ps arbitrary: c) (simp_all split: sum.split)

lemma apply_key_numbers:
  "0 \<le> i \<Longrightarrow> i < 2 ^ 31 \<Longrightarrow> apply_key c ''port'' (to_string (nat i)) = Inr (c\<lparr>port := i\<rparr>)"
  "0 \<le> i \<Longrightarrow> i < 2 ^ 31 \<Longrightarrow> apply_key c ''backlog'' (to_string (nat i)) = Inr (c\<lparr>backlog := i\<rparr>)"
  "n < 2 ^ 32 \<Longrightarrow> apply_key c ''epoll_worker_count'' (to_string n) = Inr (c\<lparr>cfg_epoll_worker_count := n\<rparr>)"
  "n < 2 ^ 32 \<Longrightarrow> apply_key c ''thread_pool_size'' (to_string n) = Inr (c\<lparr>thread_pool_size := n\<rparr>)"
  "n < 2 ^ 64 \<Longrightarrow> apply_key c ''task_queue_capacity'' (to_string n) = Inr (c\<lparr>task_queue_capacity := n\<rparr>)"
  "n < 2 ^ 64 \<Longrightarrow> apply_key c ''storage_segment_size'' (to_string n) = Inr (c\<lparr>storage_segment_size := n\<rparr>)"
  "n < 2 ^ 64 \<Longrightarrow> apply_key c ''recent_message_capacity'' (to_string n) = Inr (c\<lparr>recent_message_capacity := n\<rparr>)"
  "decimal s x \<Longrightarrow> x < 2 ^ 1024 \<Longrightarrow> apply_key c ''rate_limit_capacity'' s = Inr (c\<lparr>rate_limit_capacity := Finite x\<rparr>)"
  "decimal s x \<Longrightarrow> x < 2 ^ 1024 \<Longrightarrow> apply_key c ''rate_limit_refill_rate'' s = Inr (c\<lparr>rate_limit_refill_rate := Finite x\<rparr>)"
  using parse_signed [of 32 "nat i"] parse_unsigned [of n 32] parse_unsigned [of n 64] parse_decimal [of s x]
  by (simp_all add: apply_key_def nat_less_iff del: of_nat_less_iff)

lemma apply_key_texts:
  "apply_key c ''log_path'' v = Inr (c\<lparr>log_path := v\<rparr>)"
  "apply_key c ''storage_directory'' v = Inr (c\<lparr>storage_directory := v\<rparr>)"
  by (simp_all add: apply_key_def)

lemma apply_config_pairs:
  assumes valid: "valid_config c" and bl: "backlog c < 2 ^ 31"
    and rates: "rate_limit_capacity c = Finite x" "rate_limit_refill_rate c = Finite y" "decimal cap x" "decimal rate y"
    and small: "x < 2 ^ 1024" "y < 2 ^ 1024"
  shows "apply_keys (config_pairs c cap rate) default_config = Inr c"
proof -
  have V: "0 \<le> port c" "port c < 2 ^ 31" "0 \<le> backlog c" "backlog c < 2 ^ 31" "cfg_epoll_worker_count c < 2 ^ 32"
    "thread_pool_size c < 2 ^ 32" "task_queue_capacity c < 2 ^ 64" "storage_segment_size c < 2 ^ 64"
    "recent_message_capacity c < 2 ^ 64"
    using valid bl by (auto simp: valid_config_def)
  define d where "d = default_config"
  have "apply_keys (config_pairs c cap rate) d =
    Inr (d\<lparr>port := port c, backlog := backlog c, cfg_epoll_worker_count := cfg_epoll_worker_count c,
      thread_pool_size := thread_pool_size c, task_queue_capacity := task_queue_capacity c,
      log_path := (if log_path c = [] then log_path d else log_path c),
      rate_limit_capacity := Finite x, rate_limit_refill_rate := Finite y,
      storage_directory := storage_directory c, storage_segment_size := storage_segment_size c,
      recent_message_capacity := recent_message_capacity c\<rparr>)"
    using V small rates(3,4) by (simp add: config_pairs_def apply_key_numbers apply_key_texts)
  also have "\<dots> = Inr c" using rates(1,2) by (cases c) (simp add: d_def default_config_def)
  finally show ?thesis by (simp add: d_def)
qed

lemma config_pairs_good:
  assumes "plain_text (storage_directory c)" and "log_path c = [] \<or> plain_text (log_path c)" and "plain_text cap" "plain_text rate"
  shows "list_all good_pair (config_pairs c cap rate)"
  using assms by (auto simp: config_pairs_def good_pair_def) (simp_all add: plain_text_def is_blank4_def)

section \<open>Properties\<close>

text \<open>C32. What the command line means. For arguments written as option-value pairs that are accepted:
  the configuration starts from the defaults, or from the file of the last \<open>--config\<close>; then every
  setting has the value of the last option of its own name, read as a number of its type where it is
  one, and otherwise keeps what it started from. Every value is in its documented range.\<close>

theorem command_line_exact:
  assumes known: "list_all known_option ps" and run: "from_args files (args_of ps) = Inr c"
  shows "\<exists>c0. (if config_path_of ps [] = [] then c0 = default_config else load_file files (config_path_of ps []) = Inr c0) \<and>
    settled ps c0 c \<and> valid_config c"
proof -
  obtain c0 where base: "if config_path_of ps [] = [] then c0 = default_config else load_file files (config_path_of ps []) = Inr c0"
    and pairs: "apply_pairs (filter (\<lambda>p. \<not> is_config p) ps) c0 = Inr c"
    using run unfolding from_args_pairs [OF known] by (auto split: sum.splits if_splits)
  have "list_all (\<lambda>p. fst p \<in> fst ` set options) (filter (\<lambda>p. \<not> is_config p) ps)"
    using known unfolding list_all_iff known_option_def by fastforce
  then have "settled (filter (\<lambda>p. \<not> is_config p) ps) c0 c" using settled_pairs pairs by blast
  then have "settled ps c0 c" by (simp add: settled_def chosen_filter)
  then show ?thesis using base from_args_valid [OF run] by blast
qed

lemma default_valid: "valid_config default_config"
  by (simp add: valid_config_def default_config_def)

theorem command_line_exact_witness:
  "\<exists>c. from_args Map.empty (args_of [(''--port'', ''90''), (''--backlog'', ''7''), (''--port'', ''91'')]) = Inr c \<and>
    port c = 91 \<and> backlog c = 7 \<and> thread_pool_size c = 4"
proof -
  let ?ps = "[(''--port'', ''90''), (''--backlog'', ''7''), (''--port'', ''91'')]"
  have known: "list_all known_option ?ps" by (simp add: known_option_def is_config_def options_def)
  have nums: "parse_number (extract_int 32) ''90'' ''port'' = Inr 90" "parse_number (extract_int 32) ''91'' ''port'' = Inr 91"
    "parse_number (extract_int 32) ''7'' ''backlog'' = Inr 7" by code_simp+
  define c where "c = default_config\<lparr>backlog := 7, port := 91\<rparr>"
  have "valid_config c" by (simp add: c_def valid_config_def default_config_def)
  then have run: "from_args Map.empty (args_of ?ps) = Inr c"
    unfolding from_args_pairs [OF known] using validate_iff [of c]
    by (simp add: is_config_def config_path_of_def options_def apply_key_def nums c_def)
  then obtain c0 where "c0 = default_config" "settled ?ps c0 c"
    using command_line_exact [OF known run] by (auto simp: config_path_of_def is_config_def)
  then have "port c = 91" "backlog c = 7" "thread_pool_size c = 4"
    by (simp_all add: settled_def chosen_def last_value_def nums default_config_def)
  then show ?thesis using run by blast
qed

text \<open>The position of \<open>--config\<close> does not matter. With options written as pairs, the result is
  the same when the \<open>--config\<close> pairs are moved to the front: the file is loaded first and every
  other option overrides it, in order.\<close>

lemma config_option_position:
  assumes "list_all known_option ps"
  shows "from_args files (args_of ps) =
    from_args files (args_of (filter is_config ps @ filter (\<lambda>p. \<not> is_config p) ps))"
proof -
  let ?qs = "filter is_config ps @ filter (\<lambda>p. \<not> is_config p) ps"
  have "list_all known_option ?qs" using assms by (auto simp: list_all_iff)
  moreover have "config_path_of ?qs [] = config_path_of ps []" "filter (\<lambda>p. \<not> is_config p) ?qs = filter (\<lambda>p. \<not> is_config p) ps"
    by (simp_all add: config_path_of_def)
  ultimately show ?thesis using assms by (simp only: from_args_pairs)
qed

text \<open>C33. Configuration files round-trip. Take a valid configuration whose backlog is an \<open>int\<close>, whose two
  rates are decimal numbers (below the largest \<open>double\<close>), and whose paths have no comment mark, no
  line end and no outer blanks. Writing it as \<open>key=value\<close> lines, the rates in any decimal form, and
  loading the file gives the configuration back.\<close>

theorem config_file_roundtrip:
  assumes "valid_config c" and "backlog c < 2 ^ 31"
    and "rate_limit_capacity c = Finite x" "rate_limit_refill_rate c = Finite y" "decimal cap x" "decimal rate y"
    and "x < 2 ^ 1024" "y < 2 ^ 1024"
    and "plain_text (storage_directory c)" and "log_path c = [] \<or> plain_text (log_path c)"
    and "files pth = Some (print_pairs (config_pairs c cap rate))"
  shows "load_file files pth = Inr c"
  using load_lines_pairs [OF config_pairs_good [OF assms(9,10) plain_decimal [OF assms(5)] plain_decimal [OF assms(6)]]]
    apply_config_pairs [OF assms(1-8)] assms(1,11) validate_iff [of c]
  by (simp add: load_file_def)

theorem config_file_roundtrip_witness:
  "load_file [''gw.conf'' \<mapsto> print_pairs (config_pairs (default_config\<lparr>rate_limit_capacity := Finite 2.5\<rparr>) ''2.50'' ''5'')] ''gw.conf'' =
    Inr (default_config\<lparr>rate_limit_capacity := Finite 2.5\<rparr>)"
proof (rule config_file_roundtrip)
  let ?c = "default_config\<lparr>rate_limit_capacity := Finite 2.5\<rparr>"
  have n: "to_string 2 = ''2''" "to_string 5 = ''5''" by code_simp+
  show "decimal ''2.50'' 2.5" unfolding decimal_def
    by (intro exI [of _ 2] exI [of _ "''50''"]) (simp add: n is_digit_def digit_val_def)
  show "decimal ''5'' 5" unfolding decimal_def by (intro exI [of _ 5] exI [of _ "[]"]) (simp add: n digit_val_def)
  show "valid_config ?c" by (auto simp: valid_config_def default_config_def intro!: exI [of _ "2.5"])
  show "backlog ?c < 2 ^ 31" "rate_limit_capacity ?c = Finite 2.5"
    "rate_limit_refill_rate ?c = Finite 5" "log_path ?c = [] \<or> plain_text (log_path ?c)"
    "plain_text (storage_directory ?c)"
    by (simp_all add: default_config_def plain_text_def is_blank4_def)
qed simp_all

end
