(* ===== verification/Circular_Buffer.thy ===== *)
theory Circular_Buffer
  imports Prelude
begin

text \<open>
  \<open>src/src/storage/circular_buffer.h\<close>: the fixed-capacity ring that keeps the most recent
  messages. The record has the three members of the class; \<open>cb_contents\<close> is the
  abstraction (the retained elements, oldest first), and the locale \<open>bounded_window\<close> is the
  contract the log relies on: a push keeps the last \<open>capacity\<close> elements of the history.
  Vectors are shorter than \<open>2 ^ 63\<close>, so the index sums of the source do not wrap and the
  indices are plain naturals.
\<close>

section \<open>The data structure\<close>

record 'a circular_buffer =
  entries :: "'a list"
  write_index :: nat
  cb_count :: nat

text \<open>The constructor; \<open>dflt\<close> is the default-constructed element.\<close>

definition cb_new :: "'a \<Rightarrow> nat \<Rightarrow> exn + 'a circular_buffer" where
  "cb_new dflt capacity =
     (if capacity = 0
      then Inl (Invalid_argument ''circular buffer capacity must be positive'')
      else Inr \<lparr>entries = replicate capacity dflt, write_index = 0, cb_count = 0\<rparr>)"

definition cb_push :: "'a circular_buffer \<Rightarrow> 'a \<Rightarrow> 'a circular_buffer" where
  "cb_push b value =
     \<lparr>entries = (entries b)[write_index b := value],
      write_index = (write_index b + 1) mod length (entries b),
      cb_count = (if cb_count b < length (entries b) then cb_count b + 1 else cb_count b)\<rparr>"

definition cb_get_recent :: "'a circular_buffer \<Rightarrow> nat \<Rightarrow> 'a list" where
  "cb_get_recent b n =
     (let size = length (entries b);
          result_size = (if n < cb_count b then n else cb_count b);
          first = (write_index b + size - result_size) mod size
      in map (\<lambda>index. entries b ! ((first + index) mod size)) [0..<result_size])"

definition cb_capacity :: "'a circular_buffer \<Rightarrow> nat" where
  "cb_capacity b = length (entries b)"

definition cb_size :: "'a circular_buffer \<Rightarrow> nat" where
  "cb_size b = cb_count b"

definition cb_inv :: "'a circular_buffer \<Rightarrow> bool" where
  "cb_inv b \<longleftrightarrow> write_index b < length (entries b) \<and> cb_count b \<le> length (entries b)"

text \<open>The retained elements, oldest first.\<close>

definition cb_contents :: "'a circular_buffer \<Rightarrow> 'a list" where
  "cb_contents b =
     (let size = length (entries b) in
      map (\<lambda>i. entries b ! ((write_index b + size - cb_count b + i) mod size)) [0..<cb_count b])"

section \<open>The contract of a bounded history\<close>

locale bounded_window =
  fixes push :: "'b \<Rightarrow> 'a \<Rightarrow> 'b"
    and recent :: "'b \<Rightarrow> nat \<Rightarrow> 'a list"
    and capacity :: "'b \<Rightarrow> nat"
    and contents :: "'b \<Rightarrow> 'a list"
    and invar :: "'b \<Rightarrow> bool"
  assumes invar_push: "invar b \<Longrightarrow> invar (push b x)"
    and capacity_push: "invar b \<Longrightarrow> capacity (push b x) = capacity b"
    and contents_push: "invar b \<Longrightarrow> contents (push b x) = last_n (capacity b) (contents b @ [x])"
    and recent_contents: "invar b \<Longrightarrow> recent b n = last_n n (contents b)"
    and contents_bound: "invar b \<Longrightarrow> length (contents b) \<le> capacity b"
begin

lemma push_all:
  "invar b \<Longrightarrow> invar (foldl push b xs) \<and> capacity (foldl push b xs) = capacity b \<and>
     contents (foldl push b xs) = last_n (capacity b) (contents b @ xs)"
proof (induction xs rule: rev_induct)
  case Nil
  then show ?case by (simp add: contents_bound)
next
  case (snoc x xs)
  then show ?case
    by (simp add: invar_push capacity_push contents_push last_n_append_absorb)
qed

lemma recent_after_push_all:
  "invar b \<Longrightarrow> contents b = [] \<Longrightarrow>
     recent (foldl push b xs) n = last_n (min n (capacity b)) xs"
  by (simp add: push_all recent_contents)

lemma recent_newest: "invar b \<Longrightarrow> 0 < capacity b \<Longrightarrow> recent (push b x) 1 = [x]"
  by (simp add: recent_contents invar_push contents_push min_def)
    (simp add: last_n_append)

end

section \<open>The ring implements the contract\<close>

lemma cb_inv_new: "cb_new d c = Inr b \<Longrightarrow> cb_inv b \<and> cb_capacity b = c \<and> cb_contents b = []"
  by (auto simp: cb_new_def cb_inv_def cb_capacity_def cb_contents_def split: if_splits)

lemma cb_inv_push: "cb_inv b \<Longrightarrow> cb_inv (cb_push b x)"
  by (auto simp: cb_inv_def cb_push_def intro!: mod_less_divisor)

lemma length_cb_contents [simp]: "length (cb_contents b) = cb_count b"
  by (simp add: cb_contents_def Let_def)

text \<open>Index arithmetic modulo the ring size.\<close>

lemma ring_index_neq: "w < n \<Longrightarrow> 0 < i \<Longrightarrow> i < n \<Longrightarrow> (w + i) mod n \<noteq> w" for w n i :: nat
  by (cases "w + i < n") (auto simp: mod_if)

lemma ring_index_Suc: "(Suc w mod n + d + i) mod n = (w + 1 + d + i) mod n" for w n d i :: nat
  by (metis Suc_eq_plus1 add.assoc mod_add_left_eq)

lemma cb_contents_nth:
  "cb_inv b \<Longrightarrow> i < cb_count b \<Longrightarrow>
     cb_contents b ! i = entries b ! ((write_index b + (length (entries b) - cb_count b) + i)
           mod length (entries b))"
  by (simp add: cb_contents_def Let_def cb_inv_def)

lemma cb_push_fields [simp]:
  "length (entries (cb_push b x)) = length (entries b)"
  "write_index (cb_push b x) = Suc (write_index b) mod length (entries b)"
  "entries (cb_push b x) = (entries b)[write_index b := x]"
  by (simp_all add: cb_push_def)

lemma cb_contents_push_nth:
  assumes inv: "cb_inv b" and i: "i < cb_count (cb_push b x)"
  shows "cb_contents (cb_push b x) ! i =
    (let n = length (entries b); j = (write_index b + 1 + (n - cb_count (cb_push b x)) + i) mod n
     in if j = write_index b then x else entries b ! j)"
proof -
  have "write_index b < length (entries b)" using inv by (auto simp: cb_inv_def)
  then show ?thesis
    using cb_contents_nth [OF cb_inv_push [OF inv] i]
    by (simp add: ring_index_Suc nth_list_update Let_def)
qed

lemma cb_contents_push:
  assumes inv: "cb_inv b"
  shows "cb_contents (cb_push b x) = last_n (cb_capacity b) (cb_contents b @ [x])"
proof (rule nth_equalityI)
  show "length (cb_contents (cb_push b x)) = length (last_n (cb_capacity b) (cb_contents b @ [x]))"
    using inv by (auto simp: cb_push_def cb_capacity_def cb_inv_def)
next
  fix i assume "i < length (cb_contents (cb_push b x))"
  then have i: "i < cb_count (cb_push b x)" by simp
  define n w c where "n = length (entries b)" and "w = write_index b" and "c = cb_count b"
  have w: "w < n" and c: "c \<le> n" using inv by (simp_all add: cb_inv_def n_def w_def c_def)
  have cnt: "cb_count (cb_push b x) = min n (Suc c)"
    using c by (auto simp: cb_push_def n_def c_def)
  define j where "j = i + Suc c - min n (Suc c)"
  have i': "i < min n (Suc c)" using i cnt by simp
  have rhs: "last_n (cb_capacity b) (cb_contents b @ [x]) ! i = (cb_contents b @ [x]) ! j"
    using i' by (simp add: last_n_nth cb_capacity_def c_def n_def j_def min.commute add.commute)
  have jc: "j \<le> c" using i' by (auto simp: j_def min_def)
  have idx: "w + 1 + (n - min n (Suc c)) + i = w + (n - c) + j"
    using c i' by (auto simp: j_def min_def)
  have lhs: "cb_contents (cb_push b x) ! i =
      (if (w + (n - c) + j) mod n = w then x else entries b ! ((w + (n - c) + j) mod n))"
    using cb_contents_push_nth [OF inv i] unfolding Let_def cnt n_def [symmetric] w_def [symmetric] idx .
  show "cb_contents (cb_push b x) ! i = last_n (cb_capacity b) (cb_contents b @ [x]) ! i"
  proof (cases "j = c")
    case True
    then have "w + (n - c) + j = w + n" using c by simp
    then have "(w + (n - c) + j) mod n = w" using w by (simp only: mod_add_self2 mod_less)
    with True show ?thesis by (simp add: lhs rhs nth_append c_def)
  next
    case False
    with jc have j: "j < c" by simp
    have j0: "0 < n - c + j" using i' j False by (auto simp: j_def min_def split: if_splits)
    have "(w + (n - c + j)) mod n \<noteq> w" using ring_index_neq [OF w j0] j c by simp
    with j show ?thesis
      using cb_contents_nth [OF inv, of j] by (simp add: lhs rhs nth_append c_def n_def w_def add.assoc)
  qed
qed

lemma cb_get_recent_contents:
  assumes inv: "cb_inv b"
  shows "cb_get_recent b n = last_n n (cb_contents b)"
proof (rule nth_equalityI)
  show "length (cb_get_recent b n) = length (last_n n (cb_contents b))"
    by (simp add: cb_get_recent_def Let_def)
next
  fix i assume "i < length (cb_get_recent b n)"
  then have i: "i < min n (cb_count b)" by (simp add: cb_get_recent_def Let_def split: if_splits)
  define s c k where "s = length (entries b)" and "c = cb_count b" and "k = min n c"
  have c: "c \<le> s" and k: "k \<le> c" using inv by (simp_all add: cb_inv_def s_def c_def k_def)
  have "cb_get_recent b n ! i = entries b ! ((write_index b + s - k + i) mod s)"
    using i by (simp add: cb_get_recent_def Let_def s_def c_def k_def min_def mod_add_left_eq split: if_splits)
  also have "write_index b + s - k + i = write_index b + (s - c) + (c - k + i)"
    using c k by simp
  also have "entries b ! (\<dots> mod s) = cb_contents b ! (c - k + i)"
  proof -
    have "c - k + i < cb_count b" using i by (auto simp: k_def c_def min_def)
    from cb_contents_nth [OF inv this] show ?thesis by (simp only: s_def c_def)
  qed
  also have "\<dots> = last_n n (cb_contents b) ! i"
    using i by (simp add: last_n_nth c_def k_def)
  finally show "cb_get_recent b n ! i = last_n n (cb_contents b) ! i" .
qed

interpretation ring: bounded_window cb_push cb_get_recent cb_capacity cb_contents cb_inv
proof unfold_locales
  fix b :: "'a circular_buffer" and x n
  assume inv: "cb_inv b"
  show "cb_inv (cb_push b x)" by (rule cb_inv_push [OF inv])
  show "cb_capacity (cb_push b x) = cb_capacity b" by (simp add: cb_capacity_def cb_push_def)
  show "cb_contents (cb_push b x) = last_n (cb_capacity b) (cb_contents b @ [x])"
    by (rule cb_contents_push [OF inv])
  show "cb_get_recent b n = last_n n (cb_contents b)" by (rule cb_get_recent_contents [OF inv])
  show "length (cb_contents b) \<le> cb_capacity b" using inv by (simp add: cb_capacity_def cb_inv_def)
qed

end
