(* ===== verification/Record_Format.thy ===== *)
theory Record_Format
  imports Prelude
begin

unbundle bit_operations_syntax

text \<open>
  The on-disk format of \<open>src/src/storage/mmap_log.cpp\<close> (lines 17 to 108): little-endian
  integers, the CRC-32 checksum, the 40-byte segment header, the 32-byte record header and
  the names of segment files. A pointer into a buffer is the list of bytes from that
  position on. The theorems are the decode-after-encode laws and the error detection that
  recovery relies on: the CRC state transformation is a bijection, so changing any single
  byte covered by a checksum changes the checksum.
\<close>

section \<open>Definitions\<close>

definition segment_header_size :: nat where
  "segment_header_size = 40"

definition record_header_size :: nat where
  "record_header_size = 32"

definition segment_magic :: "byte list" where
  "segment_magic = string_bytes ''IOTLOG01''"

definition segment_version :: u32 where
  "segment_version = 1"

definition record_magic :: u32 where
  "record_magic = 0x31434552"

definition record_version_size :: u32 where
  "record_version_size = of_nat record_header_size"

definition maximum_segment_id :: nat where
  "maximum_segment_id = 99999999"

definition put_u32 :: "u32 \<Rightarrow> byte list" where
  "put_u32 value = map (\<lambda>index. ucast (drop_bit (index * 8) value AND 0xff)) [0..<4]"

definition put_u64 :: "u64 \<Rightarrow> byte list" where
  "put_u64 value = map (\<lambda>index. ucast (drop_bit (index * 8) value AND 0xff)) [0..<8]"

definition get_u32 :: "byte list \<Rightarrow> u32" where
  "get_u32 source = fold (\<lambda>index value. value OR push_bit (index * 8) (ucast (source ! index))) [0..<4] 0"

definition get_u64 :: "byte list \<Rightarrow> u64" where
  "get_u64 source = fold (\<lambda>index value. value OR push_bit (index * 8) (ucast (source ! index))) [0..<8] 0"

text \<open>The inner loop of \<open>crc32_update\<close>: one bit, then \<open>n\<close> bits.\<close>

definition crc32_bit :: "u32 \<Rightarrow> u32" where
  "crc32_bit crc = (let mask = 0 - (crc AND 1) in drop_bit 1 crc XOR (0xedb88320 AND mask))"

definition crc32_byte :: "u32 \<Rightarrow> byte \<Rightarrow> u32" where
  "crc32_byte crc b = (crc32_bit ^^ 8) (crc XOR ucast b)"

definition crc32_update :: "u32 \<Rightarrow> byte list \<Rightarrow> u32" where
  "crc32_update crc bytes = foldl crc32_byte crc bytes"

definition record_crc :: "byte list \<Rightarrow> byte list \<Rightarrow> u32" where
  "record_crc header payload =
     (let crc = crc32_update 0xffffffff (take 28 header);
          crc = crc32_update crc payload
      in crc XOR 0xffffffff)"

definition segment_crc :: "byte list \<Rightarrow> u32" where
  "segment_crc header = crc32_update 0xffffffff (take 32 header) XOR 0xffffffff"

text \<open>The header blocks that \<open>create_segment\<close> and \<open>append\<close> build in zeroed arrays.\<close>

definition make_segment_header :: "nat \<Rightarrow> nat \<Rightarrow> nat \<Rightarrow> byte list" where
  "make_segment_header segment_id base_offset segment_size =
     (let header = replicate segment_header_size 0;
          header = overwrite 0 segment_magic header;
          header = overwrite 8 (put_u32 segment_version) header;
          header = overwrite 12 (put_u32 (of_nat segment_id)) header;
          header = overwrite 16 (put_u64 (of_nat base_offset)) header;
          header = overwrite 24 (put_u64 (of_nat segment_size)) header
      in overwrite 32 (put_u32 (segment_crc header)) header)"

definition make_record_header :: "nat \<Rightarrow> nat \<Rightarrow> byte list \<Rightarrow> byte list" where
  "make_record_header message_offset timestamp_ns payload =
     (let header = replicate record_header_size 0;
          header = overwrite 0 (put_u32 record_magic) header;
          header = overwrite 4 (put_u32 record_version_size) header;
          header = overwrite 8 (put_u64 (of_nat message_offset)) header;
          header = overwrite 16 (put_u64 (of_nat timestamp_ns)) header;
          header = overwrite 24 (put_u32 (of_nat (length payload))) header
      in overwrite 28 (put_u32 (record_crc header payload)) header)"

text \<open>Segment file names: \<open>log-%08u.seg\<close>.\<close>

definition segment_name :: "nat \<Rightarrow> string" where
  "segment_name segment_id = ''log-'' @ zero_pad 8 segment_id @ ''.seg''"

definition path_join :: "string \<Rightarrow> string \<Rightarrow> string" where
  "path_join dir name =
     (if dir = [] \<or> last dir = CHR ''/'' then dir @ name else dir @ CHR ''/'' # name)"

definition segment_path :: "string \<Rightarrow> nat \<Rightarrow> string" where
  "segment_path directory segment_id = path_join directory (segment_name segment_id)"

fun parse_id_digits :: "nat \<Rightarrow> string \<Rightarrow> nat option" where
  "parse_id_digits parsed [] = Some parsed"
| "parse_id_digits parsed (c # cs) =
     (if \<not> is_digit c then None
      else parse_id_digits ((parsed * 10 + digit_val c) mod 2 ^ 32) cs)"

definition parse_segment_id :: "string \<Rightarrow> nat option" where
  "parse_segment_id name =
     (if length name \<noteq> 16 \<or> substr name 0 4 \<noteq> ''log-'' \<or> substr name 12 4 \<noteq> ''.seg'' then None
      else parse_id_digits 0 (substr name 4 8))"

section \<open>Little-endian integers\<close>

lemma length_put [simp]: "length (put_u32 v) = 4" "length (put_u64 w) = 8"
  by (simp_all add: put_u32_def put_u64_def)

lemma bit_byte_of: "bit (ucast (drop_bit k v AND 0xff) :: byte) n \<longleftrightarrow> n < 8 \<and> bit v (k + n)"
  for v :: "'a::len word"
proof -
  have eq: "(0xff :: 'a word) = mask 8" by (simp add: mask_eq_exp_minus_1)
  have "bit (0xff :: 'a word) n \<longleftrightarrow> n < LENGTH('a) \<and> n < 8"
    by (simp only: eq bit_mask_iff possible_bit_word)
  then show ?thesis by (auto simp: bit_simps dest: bit_imp_le_length)
qed

text \<open>Bit \<open>n\<close> of a little-endian fold is bit \<open>n mod 8\<close> of byte \<open>n div 8\<close>.\<close>

lemma bit_le_fold:
  fixes s :: "byte list"
  assumes "n < LENGTH('a::len)"
  shows "bit (fold (\<lambda>index value. value OR push_bit (index * 8) (ucast (s ! index))) [0..<k] (0 :: 'a word)) n
    \<longleftrightarrow> n div 8 < k \<and> bit (s ! (n div 8)) (n mod 8)"
proof (induction k)
  case (Suc k)
  have "bit (push_bit (k * 8) (ucast (s ! k)) :: 'a word) n \<longleftrightarrow> n div 8 = k \<and> bit (s ! k) (n mod 8)"
  proof (cases "k * 8 \<le> n \<and> n - k * 8 < 8")
    case True
    then obtain m where n: "n = k * 8 + m" and m: "m < 8"
      by (metis add_diff_inverse_nat less_diff_conv linorder_not_less le_add_diff_inverse)
    have "n div 8 = k" and "n mod 8 = m" using m by (simp_all add: n)
    with m assms show ?thesis by (auto simp: bit_simps n)
  next
    case False
    then have "n div 8 \<noteq> k" by (metis add_diff_cancel_left' div_mult_mod_eq le_add1 mod_less_divisor zero_less_numeral)
    moreover have "\<not> (k * 8 \<le> n \<and> bit (s ! k) (n - k * 8))"
      using False bit_imp_le_length [of "s ! k" "n - k * 8"] by auto
    ultimately show ?thesis by (auto simp: bit_simps)
  qed
  with Suc show ?case by (auto simp: bit_or_iff less_Suc_eq)
qed simp

lemma get_put_u32 [simp]: "get_u32 (put_u32 v @ rest) = v"
proof (rule bit_word_eqI)
  fix n assume "n < LENGTH(32)"
  then have n: "n < 32" and d: "n div 8 < 4" by simp_all
  have "(put_u32 v @ rest) ! (n div 8) = put_u32 v ! (n div 8)"
    using d by (simp only: nth_append length_put if_True)
  moreover have "bit (put_u32 v ! (n div 8)) (n mod 8) \<longleftrightarrow> bit v n"
    using d by (simp add: put_u32_def bit_byte_of del: div_less_iff_less_mult)
  ultimately show "bit (get_u32 (put_u32 v @ rest)) n \<longleftrightarrow> bit v n"
    unfolding get_u32_def using n d by (subst bit_le_fold) simp_all
qed

lemma get_put_u64 [simp]: "get_u64 (put_u64 v @ rest) = v"
proof (rule bit_word_eqI)
  fix n assume "n < LENGTH(64)"
  then have n: "n < 64" and d: "n div 8 < 8" by simp_all
  have "(put_u64 v @ rest) ! (n div 8) = put_u64 v ! (n div 8)"
    using d by (simp only: nth_append length_put if_True)
  moreover have "bit (put_u64 v ! (n div 8)) (n mod 8) \<longleftrightarrow> bit v n"
    using d by (simp add: put_u64_def bit_byte_of del: div_less_iff_less_mult)
  ultimately show "bit (get_u64 (put_u64 v @ rest)) n \<longleftrightarrow> bit v n"
    unfolding get_u64_def using n d by (subst bit_le_fold) simp_all
qed

lemma put_get_u32:
  assumes "4 \<le> length s"
  shows "put_u32 (get_u32 s) = take 4 s"
proof (rule nth_equalityI)
  fix i assume "i < length (put_u32 (get_u32 s))"
  then have i: "i < 4" by simp
  have "put_u32 (get_u32 s) ! i = s ! i"
  proof (rule bit_word_eqI)
    fix n assume "n < LENGTH(8)"
    then have n: "n < 8" by simp
    then have "i * 8 + n < 32" "(i * 8 + n) div 8 = i" "(i * 8 + n) mod 8 = n" using i by simp_all
    then show "bit (put_u32 (get_u32 s) ! i) n \<longleftrightarrow> bit (s ! i) n"
      using i n by (simp add: put_u32_def bit_byte_of get_u32_def bit_le_fold)
  qed
  with i assms show "put_u32 (get_u32 s) ! i = take 4 s ! i" by simp
qed (use assms in simp)

lemma put_get_u64:
  assumes "8 \<le> length s"
  shows "put_u64 (get_u64 s) = take 8 s"
proof (rule nth_equalityI)
  fix i assume "i < length (put_u64 (get_u64 s))"
  then have i: "i < 8" by simp
  have "put_u64 (get_u64 s) ! i = s ! i"
  proof (rule bit_word_eqI)
    fix n assume "n < LENGTH(8)"
    then have n: "n < 8" by simp
    then have "i * 8 + n < 64" "(i * 8 + n) div 8 = i" "(i * 8 + n) mod 8 = n" using i by simp_all
    then show "bit (put_u64 (get_u64 s) ! i) n \<longleftrightarrow> bit (s ! i) n"
      using i n by (simp add: put_u64_def bit_byte_of get_u64_def bit_le_fold)
  qed
  with i assms show "put_u64 (get_u64 s) ! i = take 8 s ! i" by simp
qed (use assms in simp)

lemma get_u32_inject: "4 \<le> length s \<Longrightarrow> 4 \<le> length t \<Longrightarrow> get_u32 s = get_u32 t \<Longrightarrow> take 4 s = take 4 t"
  by (metis put_get_u32)

lemma get_u64_inject: "8 \<le> length s \<Longrightarrow> 8 \<le> length t \<Longrightarrow> get_u64 s = get_u64 t \<Longrightarrow> take 8 s = take 8 t"
  by (metis put_get_u64)

lemma get_u32_cong: "take 4 s = take 4 t \<Longrightarrow> get_u32 s = get_u32 t"
proof -
  assume eq: "take 4 s = take 4 t"
  have "s ! i = t ! i" if "i < 4" for i using arg_cong [OF eq, of "\<lambda>xs. xs ! i"] that by simp
  then show ?thesis by (simp add: get_u32_def upt_rec)
qed

lemma get_u32_replicate_zero [simp]: "4 \<le> n \<Longrightarrow> get_u32 (replicate n 0) = 0"
  by (simp add: get_u32_def upt_rec)

section \<open>The checksum is a bijection of its state\<close>

lemma bit_crc32_bit:
  "bit (crc32_bit c) n \<longleftrightarrow> n < 32 \<and> (bit c (Suc n) \<noteq> (bit c 0 \<and> bit (0xedb88320 :: u32) n))"
proof -
  have "0 - (c AND 1) = (if bit c 0 then - 1 else 0)"
    by (simp add: and_one_eq bit_0 odd_iff_mod_2_eq_one)
  then show ?thesis
    by (auto simp: crc32_bit_def Let_def bit_simps dest: bit_imp_le_length)
qed

lemma crc32_bit_inject: "crc32_bit a = crc32_bit b \<longleftrightarrow> a = b"
proof
  assume eq: "crc32_bit a = crc32_bit b"
  then have bits: "bit (crc32_bit a) n \<longleftrightarrow> bit (crc32_bit b) n" for n by simp
  have top: "bit (0xedb88320 :: u32) 31" by (simp add: bit_numeral_rec)
  have no32: "\<not> bit c 32" for c :: u32 using bit_imp_le_length [of c 32] by auto
  have zero: "bit a 0 \<longleftrightarrow> bit b 0"
    using bits [of 31] top no32 by (simp add: bit_crc32_bit)
  show "a = b"
  proof (rule bit_word_eqI)
    fix n assume n: "n < LENGTH(32)"
    show "bit a n \<longleftrightarrow> bit b n"
      using bits [of "n - 1"] zero n by (cases n) (auto simp: bit_crc32_bit)
  qed
qed simp

lemma crc32_bits_inject: "(crc32_bit ^^ n) a = (crc32_bit ^^ n) b \<longleftrightarrow> a = b"
  by (induction n) (simp_all add: crc32_bit_inject)

lemma xor_right_inject: "(a XOR c = b XOR c) \<longleftrightarrow> a = b" for a b c :: "'a::len word"
  by (metis xor.assoc xor.right_neutral xor_self_eq)

lemma crc32_byte_inject_state: "crc32_byte a x = crc32_byte b x \<longleftrightarrow> a = b"
  by (simp add: crc32_byte_def crc32_bits_inject xor_right_inject)

lemma ucast_byte_u32_inject: "(ucast x :: u32) = ucast y \<longleftrightarrow> x = y" for x y :: byte
proof
  assume eq: "(ucast x :: u32) = ucast y"
  show "x = y"
  proof (rule bit_word_eqI)
    fix n assume "n < LENGTH(8)"
    with arg_cong [OF eq, of "\<lambda>w. bit w n"] show "bit x n \<longleftrightarrow> bit y n" by (simp add: bit_simps)
  qed
qed simp

lemma crc32_byte_inject_byte: "crc32_byte a x = crc32_byte a y \<longleftrightarrow> x = y"
  by (metis crc32_byte_def crc32_bits_inject xor_right_inject xor.commute ucast_byte_u32_inject)

lemma crc32_update_append: "crc32_update c (u @ v) = crc32_update (crc32_update c u) v"
  by (simp add: crc32_update_def)

lemma crc32_update_inject: "crc32_update a bs = crc32_update b bs \<longleftrightarrow> a = b"
  by (induction bs arbitrary: a b) (simp_all add: crc32_update_def crc32_byte_inject_state)

text \<open>One changed byte always changes the checksum.\<close>

lemma crc32_update_change_byte:
  assumes "i < length bs" and "bs ! i \<noteq> x"
  shows "crc32_update c (bs[i := x]) \<noteq> crc32_update c bs"
proof -
  have "crc32_update c (take i bs @ x # drop (Suc i) bs) \<noteq>
        crc32_update c (take i bs @ bs ! i # drop (Suc i) bs)"
    using assms(2) crc32_update_inject crc32_byte_inject_byte
    by (auto simp: crc32_update_append) (auto simp: crc32_update_def)
  then show ?thesis
    using assms(1) by (simp add: upd_conv_take_nth_drop id_take_nth_drop [symmetric])
qed

section \<open>Headers as concatenations of their fields\<close>

lemma overwrite_append:
  "length new \<le> length b \<Longrightarrow> overwrite (length a) new (a @ b) = a @ new @ drop (length new) b"
  by (simp add: overwrite_def)

lemma overwrite_at_length:
  "n = length a \<Longrightarrow> length new \<le> length b \<Longrightarrow> overwrite n new (a @ b) = a @ new @ drop (length new) b"
  by (simp add: overwrite_append)

lemma length_segment_magic [simp]: "length segment_magic = 8"
  by (simp add: segment_magic_def)

lemma make_segment_header_fields:
  "make_segment_header sid base sz =
     (let h = segment_magic @ put_u32 segment_version @ put_u32 (of_nat sid) @
              put_u64 (of_nat base) @ put_u64 (of_nat sz)
      in h @ put_u32 (crc32_update 0xffffffff h XOR 0xffffffff) @ replicate 4 0)"
proof -
  define m v i b s where "m = segment_magic" and "v = put_u32 segment_version"
    and "i = put_u32 (of_nat sid)" and "b = put_u64 (of_nat base)" and "s = put_u64 (of_nat sz)"
  have len: "length m = 8" "length v = 4" "length i = 4" "length b = 8" "length s = 8"
    by (simp_all add: m_def v_def i_def b_def s_def)
  have h: "overwrite 24 s (overwrite 16 b (overwrite 12 i (overwrite 8 v
      (overwrite 0 m (replicate 40 0))))) = m @ v @ i @ b @ s @ replicate 8 0"
    by (simp add: overwrite_def len)
  show ?thesis
    unfolding make_segment_header_def segment_header_size_def Let_def segment_crc_def
      m_def [symmetric] v_def [symmetric] i_def [symmetric] b_def [symmetric] s_def [symmetric] h
    by (simp add: overwrite_def len)
qed

lemma make_record_header_fields:
  "make_record_header off ts payload =
     (let h = put_u32 record_magic @ put_u32 record_version_size @ put_u64 (of_nat off) @
              put_u64 (of_nat ts) @ put_u32 (of_nat (length payload))
      in h @ put_u32 (crc32_update (crc32_update 0xffffffff h) payload XOR 0xffffffff))"
proof -
  define m v i b s where "m = put_u32 record_magic" and "v = put_u32 record_version_size"
    and "i = put_u64 (of_nat off)" and "b = put_u64 (of_nat ts)"
    and "s = put_u32 (of_nat (length payload))"
  have len: "length m = 4" "length v = 4" "length i = 8" "length b = 8" "length s = 4"
    by (simp_all add: m_def v_def i_def b_def s_def)
  have h: "overwrite 24 s (overwrite 16 b (overwrite 8 i (overwrite 4 v
      (overwrite 0 m (replicate 32 0))))) = m @ v @ i @ b @ s @ replicate 4 0"
    by (simp add: overwrite_def len)
  show ?thesis
    unfolding make_record_header_def record_header_size_def Let_def record_crc_def
      m_def [symmetric] v_def [symmetric] i_def [symmetric] b_def [symmetric] s_def [symmetric] h
    by (simp add: overwrite_def len)
qed

lemma length_make_header [simp]:
  "length (make_segment_header sid base sz) = 40"
  "length (make_record_header off ts payload) = 32"
  by (simp_all add: make_segment_header_def make_record_header_def Let_def
      segment_header_size_def record_header_size_def)

text \<open>Reading the fields back, with arbitrary bytes behind the header.\<close>

lemma segment_header_reads:
  assumes h_def: "h = make_segment_header sid base sz @ rest"
  shows "take 8 h = segment_magic" and "get_u32 (drop 8 h) = segment_version"
    and "get_u32 (drop 12 h) = of_nat sid" and "get_u64 (drop 16 h) = of_nat base"
    and "get_u64 (drop 24 h) = of_nat sz" and "get_u32 (drop 32 h) = segment_crc h"
  by (simp_all add: h_def make_segment_header_fields Let_def segment_crc_def)

lemma record_header_reads:
  assumes h_def: "h = make_record_header off ts payload @ rest"
  shows "get_u32 h = record_magic" and "get_u32 (drop 4 h) = record_version_size"
    and "get_u64 (drop 8 h) = of_nat off" and "get_u64 (drop 16 h) = of_nat ts"
    and "get_u32 (drop 24 h) = of_nat (length payload)" and "get_u32 (drop 28 h) = record_crc h payload"
  by (simp_all add: h_def make_record_header_fields Let_def record_crc_def)

text \<open>A header with the right magic, size, and checksum is the one \<open>append\<close> would build.\<close>

lemma record_header_of_reads:
  assumes len: "length hdr = 32" and magic: "get_u32 hdr = record_magic"
    and version: "get_u32 (drop 4 hdr) = record_version_size"
    and crc: "get_u32 (drop 28 hdr) = record_crc hdr payload"
    and plen: "length payload = unat (get_u32 (drop 24 hdr))"
  shows "make_record_header (unat (get_u64 (drop 8 hdr))) (unat (get_u64 (drop 16 hdr))) payload = hdr"
proof -
  have parts: "take 28 hdr = take 4 hdr @ take 4 (drop 4 hdr) @ take 8 (drop 8 hdr) @
      take 8 (drop 16 hdr) @ take 4 (drop 24 hdr)"
    using take_add [of 4 24 hdr] take_add [of 4 20 "drop 4 hdr"] take_add [of 8 12 "drop 8 hdr"]
      take_add [of 8 4 "drop 16 hdr"] by simp
  have fields: "put_u32 record_magic = take 4 hdr" "put_u32 record_version_size = take 4 (drop 4 hdr)"
    "put_u64 (get_u64 (drop 8 hdr)) = take 8 (drop 8 hdr)"
    "put_u64 (get_u64 (drop 16 hdr)) = take 8 (drop 16 hdr)"
    "put_u32 (get_u32 (drop 24 hdr)) = take 4 (drop 24 hdr)"
    "put_u32 (get_u32 (drop 28 hdr)) = drop 28 hdr"
    using len magic version by (simp_all add: put_get_u32 put_get_u64 flip: magic version)
  have crc': "crc32_update (crc32_update 0xffffffff (take 28 hdr)) payload XOR 0xffffffff =
      get_u32 (drop 28 hdr)"
    using crc by (simp add: record_crc_def Let_def)
  have un: "word_of_nat (unat w) = w" for w :: "'b::len word" by simp
  show ?thesis
    unfolding make_record_header_fields Let_def plen un fields parts [symmetric] crc' by simp
qed

lemma record_magic_nonzero [simp]: "record_magic \<noteq> 0"
  by (simp add: record_magic_def)

section \<open>Segment file names\<close>

lemma parse_id_digits_value:
  "list_all is_digit s \<Longrightarrow> digits_value acc s < 2 ^ 32 \<Longrightarrow> parse_id_digits acc s = Some (digits_value acc s)"
proof (induction s arbitrary: acc)
  case (Cons c s)
  have mono: "a \<le> digits_value a t" for a t
  proof (induction t arbitrary: a)
    case (Cons c t)
    show ?case using Cons.IH [of "a * 10 + digit_val c"] by simp
  qed simp
  from Cons.prems have "acc * 10 + digit_val c < 2 ^ 32"
    using mono [of "acc * 10 + digit_val c" s] by simp
  with Cons show ?case by simp
qed simp

lemma parse_segment_name:
  assumes "n \<le> maximum_segment_id"
  shows "parse_segment_id (segment_name n) = Some n"
proof -
  have n: "n < 10 ^ 8" using assms by (simp add: maximum_segment_id_def)
  then have len: "length (zero_pad 8 n) = 8" by (intro length_zero_pad) simp_all
  have "parse_id_digits 0 (zero_pad 8 n) = Some (digits_value 0 (zero_pad 8 n))"
    using n by (intro parse_id_digits_value zero_pad_digits) simp
  with len show ?thesis
    by (simp add: parse_segment_id_def segment_name_def substr_def)
qed

lemma segment_name_inject:
  "m \<le> maximum_segment_id \<Longrightarrow> n \<le> maximum_segment_id \<Longrightarrow> segment_name m = segment_name n \<longleftrightarrow> m = n"
  by (metis parse_segment_name option.inject)

end
