(* ===== verification/Mmap_Log.thy ===== *)
theory Mmap_Log
  imports Circular_Buffer Record_Format Posix
begin

text \<open>
  \<open>src/src/storage/mmap_log.cpp\<close> and \<open>mmap_log.h\<close>: the segmented, memory-mapped,
  append-only log. The record \<open>log\<close> extends the operating-system state of \<open>Posix\<close>
  with the members of \<open>MemoryMappedLog\<close>; every operation is a program over it, with
  each system call's failure branch as the source has it. Files are named by their last
  path component inside the storage directory; \<open>path\<close> texts in error messages carry the
  directory. The log's mutex makes each public operation atomic, so an operation is one
  state transition. Sizes and positions of a segment file are below \<open>2 ^ 63\<close> (\<open>open\<close>
  rejects larger segments), so their sums do not wrap; message offsets range over all of
  \<open>uint64_t\<close> and their overflow checks are the source's. This theory holds the
  definitions; \<open>Log_Scan\<close> and \<open>Log_Invariant\<close> hold the theorems.
\<close>

section \<open>State\<close>

record message =
  msg_offset :: nat
  msg_timestamp_ns :: nat
  msg_payload_length :: nat
  msg_payload :: "byte list"

definition default_message :: message where
  "default_message = \<lparr>msg_offset = 0, msg_timestamp_ns = 0, msg_payload_length = 0, msg_payload = []\<rparr>"

record segment_info =
  seg_id :: nat
  seg_first_offset :: nat
  seg_end_offset :: nat
  seg_valid_bytes :: nat
  seg_path :: string

text \<open>\<open>MemoryMappedLog::Mapping\<close>: the mapped bytes are named by their file.\<close>

record log_mapping =
  map_fd :: int
  map_data :: "string option"
  map_size :: nat
  map_path :: string
  map_segment_id :: nat
  map_base_offset :: nat
  map_write_position :: nat

record log = os +
  directory :: string
  segment_size :: nat
  next_message_offset :: nat
  active :: log_mapping
  segment_index :: "segment_info list"
  recent_cache :: "message circular_buffer"
  opened :: bool

definition off_max :: nat where
  "off_max = 2 ^ 63 - 1"

definition default_mapping :: log_mapping where
  "default_mapping = \<lparr>map_fd = -1, map_data = None, map_size = 0, map_path = [],
     map_segment_id = 0, map_base_offset = 0, map_write_position = segment_header_size\<rparr>"

text \<open>A default-constructed log on a given operating-system state.\<close>

definition new_log :: "os \<Rightarrow> log" where
  "new_log s = os.extend s \<lparr>directory = [], segment_size = 0, next_message_offset = 0,
     active = default_mapping, segment_index = [],
     recent_cache = \<lparr>entries = [default_message], write_index = 0, cb_count = 0\<rparr>, opened = False\<rparr>"

section \<open>Reading a segment\<close>

text \<open>\<open>pread_all\<close>: \<open>got\<close> holds the bytes read so far. \<open>EINTR\<close> and short reads are
  retried, end of file and other errors stop the loop.\<close>

function pread_loop :: "byte list \<Rightarrow> nat \<Rightarrow> nat \<Rightarrow> byte list \<Rightarrow> sysout list \<Rightarrow>
    (errno option \<times> byte list) \<times> sysout list" where
  "pread_loop content len off got rs =
     (if length got < len then
        (case sys_pread content (len - length got) (off + length got) rs of
           (Inr [], rs') \<Rightarrow> ((None, got), rs')
         | (Inr (b # bs), rs') \<Rightarrow> pread_loop content len off (got @ b # bs) rs'
         | (Inl e, rs') \<Rightarrow> (if e = EINTR then pread_loop content len off got rs' else ((Some e, got), rs')))
      else ((None, got), rs))"
  by pat_completeness auto
termination
  by (relation "measure (\<lambda>(content, len, off, got, rs). length rs + (len - length got))")
    (auto dest: sys_pread_script)

declare pread_loop.simps [simp del]

definition pread_all :: "int \<Rightarrow> nat \<Rightarrow> nat \<Rightarrow> ('z os_scheme, errno option \<times> byte list) prog" where
  "pread_all fd len off s =
     (case map_of (open_fds s) fd of
        None \<Rightarrow> (Inr (Some EBADF, []), s)
      | Some name \<Rightarrow> (case file_content s name of
            None \<Rightarrow> (Inr (Some EBADF, []), s)
          | Some content \<Rightarrow>
              (let (r, rs) = pread_loop content len off [] (script s) in (Inr r, s\<lparr>script := rs\<rparr>))))"

function zero_tail :: "int \<Rightarrow> nat \<Rightarrow> nat \<Rightarrow> string \<Rightarrow> 'z os_scheme \<Rightarrow> (exn + bool) \<times> 'z os_scheme" where
  "zero_tail fd offset len path s =
     (if len = 0 then (Inr True, s)
      else let chunk = min len 4096 in
        (case pread_all fd chunk offset s of
           (Inl e, s') \<Rightarrow> (Inl e, s')
         | (Inr (Some e, got), s') \<Rightarrow> (Inl (System_error e (''pread '' @ path)), s')
         | (Inr (None, got), s') \<Rightarrow>
             (if length got \<noteq> chunk
              then (Inl (Runtime_error (''unable to read segment tail: '' @ path)), s')
              else if \<not> list_all (\<lambda>b. b = 0) got then (Inr False, s')
              else zero_tail fd (offset + chunk) (len - chunk) path s')))"
  by pat_completeness auto
termination
  by (relation "measure (\<lambda>(fd, offset, len, path, s). len)") auto

declare zero_tail.simps [simp del]

definition close_throw :: "int \<Rightarrow> exn \<Rightarrow> ('z os_scheme, 'a) prog" where
  "close_throw fd e = bind (sys_close fd) (\<lambda>_. throw e)"

text \<open>One iteration of the record loop of \<open>scan_segment\<close>: the scan ends (with or without a
  tail to cut off) or a valid record has been read.\<close>

datatype scan_verdict = Scan_end bool | Scan_record message

definition scan_payload :: "int \<Rightarrow> string \<Rightarrow> nat \<Rightarrow> byte list \<Rightarrow> bool \<Rightarrow> nat \<Rightarrow> (log, bool \<times> byte list) prog" where
  "scan_payload fd path position hdr valid plen =
     (if \<not> valid then ret (False, [])
      else bind (if plen \<noteq> 0 then pread_all fd plen (position + record_header_size)
                 else ret (None, []))
        (\<lambda>(err, got). case err of
            Some e \<Rightarrow> close_throw fd (System_error e (''pread '' @ path))
          | None \<Rightarrow>
              (let payload = got @ replicate (plen - length got) 0 in
               ret (length got = plen \<and> get_u32 (drop 28 hdr) = record_crc hdr payload, payload))))"

definition scan_record :: "int \<Rightarrow> string \<Rightarrow> bool \<Rightarrow> nat \<Rightarrow> nat \<Rightarrow> nat \<Rightarrow> (log, scan_verdict) prog" where
  "scan_record fd path is_latest actual_size position expected_offset =
     bind (pread_all fd record_header_size position) (\<lambda>(err, got).
     case err of Some e \<Rightarrow> close_throw fd (System_error e (''pread '' @ path)) | None \<Rightarrow>
     if got = [] then ret (Scan_end False) else
     let hdr = got @ replicate (record_header_size - length got) 0 in
     if get_u32 hdr = 0 then
       bind (zero_tail fd position (actual_size - position) path) (\<lambda>zero.
         if \<not> zero then
           if \<not> is_latest
           then close_throw fd (Runtime_error (''corrupt tail in sealed segment: '' @ path))
           else ret (Scan_end True)
         else ret (Scan_end False))
     else
     bind (gets segment_size) (\<lambda>size.
     let valid = (length got = record_header_size \<and> get_u32 hdr = record_magic \<and>
                  get_u32 (drop 4 hdr) = record_version_size \<and>
                  unat (get_u64 (drop 8 hdr)) = expected_offset);
         payload_length = (if valid then unat (get_u32 (drop 24 hdr)) else 0);
         total_record_size = record_header_size + payload_length;
         valid = (valid \<and> total_record_size \<le> size - position \<and>
                  position + total_record_size \<le> actual_size)
     in
     bind (scan_payload fd path position hdr valid payload_length) (\<lambda>(valid, payload).
     if \<not> valid then
       if \<not> is_latest
       then close_throw fd (Runtime_error (''corrupt record in sealed segment: '' @ path))
       else ret (Scan_end True)
     else if expected_offset > uint64_max - total_record_size
     then close_throw fd (Runtime_error (''record offsets overflow in segment: '' @ path))
     else ret (Scan_record \<lparr>msg_offset = expected_offset,
                msg_timestamp_ns = unat (get_u64 (drop 16 hdr)),
                msg_payload_length = payload_length, msg_payload = payload\<rparr>))))"

text \<open>The record loop: the final position, the next expected offset, and \<open>truncate_tail\<close>.\<close>

function scan_records :: "int \<Rightarrow> string \<Rightarrow> bool \<Rightarrow> nat \<Rightarrow> nat \<Rightarrow> nat \<Rightarrow> log \<Rightarrow>
    (exn + nat \<times> nat \<times> bool) \<times> log" where
  "scan_records fd path is_latest actual_size position expected_offset s =
     (if position + record_header_size \<le> actual_size then
        (case scan_record fd path is_latest actual_size position expected_offset s of
           (Inl e, s') \<Rightarrow> (Inl e, s')
         | (Inr (Scan_end truncate_tail), s') \<Rightarrow> (Inr (position, expected_offset, truncate_tail), s')
         | (Inr (Scan_record message), s') \<Rightarrow>
             (let total_record_size = record_header_size + msg_payload_length message in
              scan_records fd path is_latest actual_size (position + total_record_size)
                (expected_offset + total_record_size)
                (s'\<lparr>recent_cache := cb_push (recent_cache s') message\<rparr>)))
      else (Inr (position, expected_offset, False), s))"
  by pat_completeness auto
termination
  by (relation "measure (\<lambda>(fd, path, is_latest, actual_size, position, expected_offset, s).
      actual_size - position)") (auto simp: record_header_size_def)

declare scan_records.simps [simp del]

text \<open>The check of a tail that is too short for a record header.\<close>

definition scan_tail :: "int \<Rightarrow> string \<Rightarrow> bool \<Rightarrow> nat \<Rightarrow> nat \<Rightarrow> bool \<Rightarrow> (log, bool) prog" where
  "scan_tail fd path is_latest actual_size position truncate_tail =
     (if position < actual_size \<and> position + record_header_size > actual_size then
        let tail_size = actual_size - position in
        bind (pread_all fd tail_size position) (\<lambda>(err, got). case err of
            Some e \<Rightarrow> close_throw fd (System_error e (''pread '' @ path))
          | None \<Rightarrow>
              (let tail = got @ replicate (record_header_size - length got) 0 in
               if \<not> list_all (\<lambda>b. b = 0) (take tail_size tail) then
                 if \<not> is_latest
                 then close_throw fd (Runtime_error (''truncated record in sealed segment: '' @ path))
                 else ret True
               else ret truncate_tail))
      else ret truncate_tail)"

definition scan_segment :: "string \<Rightarrow> nat \<Rightarrow> bool \<Rightarrow> nat \<Rightarrow> (log, nat \<times> segment_info) prog" where
  "scan_segment name expected_id is_latest expected_offset =
     bind (gets directory) (\<lambda>dir. let path = path_join dir name in
     bind (sys_open name) (\<lambda>r. case r of
         Inl e \<Rightarrow> throw (System_error e (''open '' @ path)) | Inr fd \<Rightarrow>
     bind (sys_fstat fd) (\<lambda>r. case r of
         Inl e \<Rightarrow> close_throw fd (System_error e (''fstat '' @ path)) | Inr st_size \<Rightarrow>
     if st_size < segment_header_size
     then close_throw fd (Runtime_error (''segment header is truncated: '' @ path)) else
     bind (pread_all fd segment_header_size 0) (\<lambda>(err, header).
     if err \<noteq> None \<or> length header \<noteq> segment_header_size
     then close_throw fd (Runtime_error (''unable to read segment header: '' @ path)) else
     bind (gets segment_size) (\<lambda>size.
     if take 8 header \<noteq> segment_magic \<or> get_u32 (drop 8 header) \<noteq> segment_version \<or>
        unat (get_u32 (drop 12 header)) \<noteq> expected_id \<or>
        unat (get_u64 (drop 24 header)) \<noteq> size \<or>
        get_u32 (drop 32 header) \<noteq> segment_crc header
     then close_throw fd (Runtime_error (''invalid segment header: '' @ path)) else
     let base_offset = unat (get_u64 (drop 16 header)) in
     if base_offset \<noteq> expected_offset
     then close_throw fd (Runtime_error (''segment base offset is discontinuous: '' @ path)) else
     if st_size > size
     then close_throw fd (Runtime_error (''segment file exceeds configured size: '' @ path)) else
     bind (scan_records fd path is_latest st_size segment_header_size expected_offset)
       (\<lambda>(position, expected_offset, truncate_tail).
     bind (scan_tail fd path is_latest st_size position truncate_tail) (\<lambda>truncate_tail.
     bind (if truncate_tail then sys_ftruncate fd position else ret (Inr ())) (\<lambda>r. case r of
         Inl e \<Rightarrow> close_throw fd (System_error e (''truncate recovered segment '' @ path)) | Inr _ \<Rightarrow>
     bind (sys_close fd) (\<lambda>r. case r of
         Inl e \<Rightarrow> throw (System_error e (''close '' @ path)) | Inr _ \<Rightarrow>
     ret (expected_offset, \<lparr>seg_id = expected_id, seg_first_offset = base_offset,
            seg_end_offset = expected_offset, seg_valid_bytes = position, seg_path = name\<rparr>))))))))))"

section \<open>Mapping and unmapping segments\<close>

text \<open>The first of two errors wins, as \<open>first_error\<close> does.\<close>

definition first_error :: "errno option \<Rightarrow> errno + 'a \<Rightarrow> errno option" where
  "first_error prev r = (case prev of Some e \<Rightarrow> Some e
     | None \<Rightarrow> (case r of Inl e \<Rightarrow> Some e | Inr _ \<Rightarrow> None))"

definition unmap_active :: "bool \<Rightarrow> (log, unit) prog" where
  "unmap_active sync =
     bind (gets active) (\<lambda>a.
     bind (gets directory) (\<lambda>dir.
     bind (case map_data a of
         None \<Rightarrow> ret None
       | Some data \<Rightarrow>
           bind (if sync then sys_msync data else ret (Inr ())) (\<lambda>r1.
           bind (sys_munmap data) (\<lambda>r2.
           bind (modify (\<lambda>s. s\<lparr>active := (active s)\<lparr>map_data := None\<rparr>\<rparr>)) (\<lambda>_.
           ret (first_error (first_error None r1) r2))))) (\<lambda>err.
     bind (if map_fd a = -1 then ret err else
           bind (if sync then sys_fsync (map_fd a) else ret (Inr ())) (\<lambda>r1.
           bind (sys_close (map_fd a)) (\<lambda>r2.
           bind (modify (\<lambda>s. s\<lparr>active := (active s)\<lparr>map_fd := -1\<rparr>\<rparr>)) (\<lambda>_.
           ret (first_error (first_error err r1) r2))))) (\<lambda>err.
     bind (modify (\<lambda>s. s\<lparr>active := (active s)\<lparr>map_size := 0\<rparr>\<rparr>)) (\<lambda>_.
     case err of
       Some e \<Rightarrow> throw (System_error e (''flush and close segment '' @ path_join dir (map_path a)))
     | None \<Rightarrow> ret ())))))"

definition create_segment :: "nat \<Rightarrow> nat \<Rightarrow> (log, unit) prog" where
  "create_segment segment_id base_offset =
     bind (gets directory) (\<lambda>dir.
     bind (gets segment_size) (\<lambda>size.
     let name = segment_name segment_id; path = segment_path dir segment_id in
     bind (sys_open_excl name) (\<lambda>r. case r of
         Inl e \<Rightarrow> throw (System_error e (''open '' @ path)) | Inr fd \<Rightarrow>
     bind (sys_ftruncate fd size) (\<lambda>r. case r of
         Inl e \<Rightarrow> bind (sys_close fd) (\<lambda>_. bind (fs_remove name) (\<lambda>_.
                  throw (System_error e (''ftruncate '' @ path)))) | Inr _ \<Rightarrow>
     bind (sys_mmap fd) (\<lambda>r. case r of
         Inl e \<Rightarrow> bind (sys_close fd) (\<lambda>_. bind (fs_remove name) (\<lambda>_.
                  throw (System_error e (''mmap '' @ path)))) | Inr data \<Rightarrow>
     bind (modify (\<lambda>s. s\<lparr>active := \<lparr>map_fd = fd, map_data = Some data, map_size = size,
         map_path = name, map_segment_id = segment_id, map_base_offset = base_offset,
         map_write_position = segment_header_size\<rparr>\<rparr>)) (\<lambda>_.
     bind (mem_write data 0 (make_segment_header segment_id base_offset size)) (\<lambda>_.
     bind (bind (sys_msync data) (\<lambda>r. case r of Inl e \<Rightarrow> ret (Inl e) | Inr _ \<Rightarrow> sys_fsync fd)) (\<lambda>r. case r of
         Inl e \<Rightarrow> bind (unmap_active False) (\<lambda>_. bind (fs_remove name) (\<lambda>_.
                  throw (System_error e (''persist segment header '' @ path)))) | Inr _ \<Rightarrow>
     bind sys_open_dir (\<lambda>r. case r of
         Inl e \<Rightarrow> bind (unmap_active False) (\<lambda>_. bind (fs_remove name) (\<lambda>_.
                  throw (System_error e (''open directory '' @ dir)))) | Inr directory_fd \<Rightarrow>
     bind (sys_fsync directory_fd) (\<lambda>r. case r of
         Inl e \<Rightarrow> bind (sys_close directory_fd) (\<lambda>_. bind (unmap_active False) (\<lambda>_.
                  bind (fs_remove name) (\<lambda>_. throw (System_error e (''fsync directory '' @ dir))))) | Inr _ \<Rightarrow>
     bind (sys_close directory_fd) (\<lambda>_.
     modify (\<lambda>s. s\<lparr>segment_index := segment_index s @
         [\<lparr>seg_id = segment_id, seg_first_offset = base_offset, seg_end_offset = base_offset,
           seg_valid_bytes = segment_header_size, seg_path = name\<rparr>]\<rparr>))))))))))))"

definition map_active_segment :: "nat \<Rightarrow> nat \<Rightarrow> nat \<Rightarrow> (log, unit) prog" where
  "map_active_segment segment_id base_offset write_position =
     bind (gets directory) (\<lambda>dir.
     bind (gets segment_size) (\<lambda>size.
     let name = segment_name segment_id; path = segment_path dir segment_id in
     bind (sys_open name) (\<lambda>r. case r of
         Inl e \<Rightarrow> throw (System_error e (''open '' @ path)) | Inr fd \<Rightarrow>
     bind (sys_ftruncate fd size) (\<lambda>r. case r of
         Inl e \<Rightarrow> close_throw fd (System_error e (''ftruncate '' @ path)) | Inr _ \<Rightarrow>
     bind (sys_mmap fd) (\<lambda>r. case r of
         Inl e \<Rightarrow> close_throw fd (System_error e (''mmap '' @ path)) | Inr data \<Rightarrow>
     modify (\<lambda>s. s\<lparr>active := \<lparr>map_fd = fd, map_data = Some data, map_size = size,
         map_path = name, map_segment_id = segment_id, map_base_offset = base_offset,
         map_write_position = write_position\<rparr>\<rparr>))))))"

section \<open>Recovery\<close>

text \<open>The segment files of the directory, in increasing order of their id.\<close>

definition segment_files :: "'z os_scheme \<Rightarrow> (nat \<times> string) list" where
  "segment_files s = sort_key fst (List.map_filter
     (\<lambda>(name, entry). case entry of Other \<Rightarrow> None
        | Regular _ \<Rightarrow> map_option (\<lambda>segment_id. (segment_id, name)) (parse_segment_id name))
     (dir_entries s))"

fun recover_segments :: "nat \<Rightarrow> (nat \<times> string) list \<Rightarrow> nat \<Rightarrow> log \<Rightarrow> (exn + nat) \<times> log" where
  "recover_segments index [] expected_offset s = (Inr expected_offset, s)"
| "recover_segments index ((segment_id, name) # files) expected_offset s =
     (if segment_id \<noteq> index + 1
      then (Inl (Runtime_error ''log segment sequence has a gap''), s)
      else case scan_segment name segment_id (files = []) expected_offset s of
          (Inl e, s') \<Rightarrow> (Inl e, s')
        | (Inr (expected_offset', info), s') \<Rightarrow>
            recover_segments (index + 1) files expected_offset'
              (s'\<lparr>segment_index := segment_index s' @ [info]\<rparr>))"

definition recover_or_create :: "(log, unit) prog" where
  "recover_or_create =
     bind next_out (\<lambda>r. case r of Err e \<Rightarrow> throw (Filesystem_error ''directory iterator'') | _ \<Rightarrow>
     bind (gets segment_files) (\<lambda>files.
     bind (modify (\<lambda>s. s\<lparr>next_message_offset := 0, segment_index := []\<rparr>)) (\<lambda>_.
     bind (recover_segments 0 files 0) (\<lambda>expected_offset.
     bind (modify (\<lambda>s. s\<lparr>next_message_offset := expected_offset\<rparr>)) (\<lambda>_.
     if files = [] then create_segment 1 0
     else bind (gets (\<lambda>s. last (segment_index s))) (\<lambda>info.
          map_active_segment (seg_id info) (seg_first_offset info) (seg_valid_bytes info)))))))"

section \<open>The public operations\<close>

definition log_open :: "string \<Rightarrow> nat \<Rightarrow> nat \<Rightarrow> (log, unit) prog" where
  "log_open log_directory initial_size recent_capacity =
     bind (gets opened) (\<lambda>is_opened.
     if is_opened then throw (Logic_error ''memory-mapped log is already open'') else
     if initial_size < segment_header_size + record_header_size + 1 \<or>
        initial_size > uint64_max \<or> initial_size > off_max
     then throw (Invalid_argument ''segment size is outside the supported range'') else
     if recent_capacity = 0 then throw (Invalid_argument ''recent capacity must be positive'') else
     bind (modify (\<lambda>s. s\<lparr>directory := log_directory, segment_size := initial_size\<rparr>)) (\<lambda>_.
     bind (case cb_new default_message recent_capacity of
         Inl e \<Rightarrow> throw e | Inr cache \<Rightarrow> modify (\<lambda>s. s\<lparr>recent_cache := cache\<rparr>)) (\<lambda>_.
     bind next_out (\<lambda>r. case r of Err e \<Rightarrow> throw (Filesystem_error ''create directories'') | _ \<Rightarrow>
     bind recover_or_create (\<lambda>_.
     modify (\<lambda>s. s\<lparr>opened := True\<rparr>))))))"

text \<open>The part of \<open>append\<close> that runs once the record is known to fit: build the header, cache
  the message, copy payload and then header into the mapping, advance the positions.\<close>

definition append_record :: "nat \<Rightarrow> byte list \<Rightarrow> (log, nat) prog" where
  "append_record now payload =
     bind (gets next_message_offset) (\<lambda>message_offset.
     bind (gets active) (\<lambda>a.
     let timestamp_ns = now mod 2 ^ 64;
         record_size = record_header_size + length payload;
         header = make_record_header message_offset timestamp_ns payload;
         cached = \<lparr>msg_offset = message_offset, msg_timestamp_ns = timestamp_ns,
                   msg_payload_length = length payload mod 2 ^ 32, msg_payload = payload\<rparr>
     in
     bind (modify (\<lambda>s. s\<lparr>recent_cache := cb_push (recent_cache s) cached\<rparr>)) (\<lambda>_.
     bind (case map_data a of None \<Rightarrow> ret () | Some data \<Rightarrow>
           bind (if payload \<noteq> []
                 then mem_write data (map_write_position a + record_header_size) payload
                 else ret ()) (\<lambda>_.
           mem_write data (map_write_position a) header)) (\<lambda>_.
     bind (modify (\<lambda>s. s\<lparr>active := (active s)\<lparr>map_write_position := map_write_position a + record_size\<rparr>,
         next_message_offset := add64 message_offset record_size\<rparr>)) (\<lambda>_.
     bind (modify (\<lambda>s. s\<lparr>segment_index := butlast (segment_index s) @
         [(last (segment_index s))\<lparr>seg_end_offset := next_message_offset s,
            seg_valid_bytes := map_write_position (active s)\<rparr>]\<rparr>)) (\<lambda>_.
     ret message_offset))))))"

definition log_append :: "nat \<Rightarrow> byte list \<Rightarrow> (log, nat) prog" where
  "log_append now payload =
     bind (gets opened) (\<lambda>is_opened.
     if \<not> is_opened then throw (Logic_error ''memory-mapped log is not open'') else
     if length payload > uint32_max
     then throw (Length_error ''payload exceeds the on-disk format limit'') else
     let record_size = record_header_size + length payload in
     bind (gets active) (\<lambda>a.
     bind (gets next_message_offset) (\<lambda>next_offset.
     if record_size > sub64 (map_size a) segment_header_size
     then throw (Length_error ''record is too large to fit in an empty segment'') else
     if next_offset > uint64_max - record_size
     then throw (Overflow_error ''message offset space is exhausted'') else
     bind (if map_write_position a > sub64 (map_size a) record_size then
             if map_segment_id a \<ge> maximum_segment_id
             then throw (Overflow_error ''segment id space is exhausted'')
             else on_exn
                 (bind (unmap_active True) (\<lambda>_. create_segment (map_segment_id a + 1) next_offset))
                 (\<lambda>s. s\<lparr>opened := False\<rparr>)
           else ret ()) (\<lambda>_.
     append_record now payload))))"

definition flush :: "(log, unit) prog" where
  "flush =
     bind (gets opened) (\<lambda>is_opened. if \<not> is_opened then ret () else
     bind (gets active) (\<lambda>a. bind (gets directory) (\<lambda>dir.
     bind (case map_data a of None \<Rightarrow> ret (Inr ()) | Some data \<Rightarrow> sys_msync data) (\<lambda>r. case r of
         Inl e \<Rightarrow> throw (System_error e (''msync '' @ path_join dir (map_path a))) | Inr _ \<Rightarrow>
     bind (sys_fsync (map_fd a)) (\<lambda>r. case r of
         Inl e \<Rightarrow> throw (System_error e (''fsync '' @ path_join dir (map_path a))) | Inr _ \<Rightarrow> ret ())))))"

definition log_close :: "(log, unit) prog" where
  "log_close =
     bind (gets opened) (\<lambda>is_opened. bind (gets active) (\<lambda>a.
     if \<not> is_opened \<and> map_fd a = -1 \<and> map_data a = None then ret () else
     bind (modify (\<lambda>s. s\<lparr>opened := False\<rparr>)) (\<lambda>_.
     if map_fd a \<noteq> -1 then unmap_active True else ret ())))"

text \<open>The destructor swallows the exception of \<open>close\<close>.\<close>

definition log_destroy :: "log \<Rightarrow> log" where
  "log_destroy s = snd (log_close s)"

definition get_recent :: "log \<Rightarrow> nat \<Rightarrow> message list" where
  "get_recent s n = cb_get_recent (recent_cache s) n"

definition segments :: "log \<Rightarrow> segment_info list" where
  "segments s = segment_index s"

text \<open>\<open>file_size\<close> of each indexed segment; an error stops the sum.\<close>

fun disk_usage_loop :: "segment_info list \<Rightarrow> nat \<Rightarrow> log \<Rightarrow> (exn + nat) \<times> log" where
  "disk_usage_loop [] acc s = (Inr acc, s)"
| "disk_usage_loop (info # infos) acc s =
     (case next_out s of
        (Inr r, s') \<Rightarrow>
          (case (r, file_content s' (seg_path info)) of
             (Err e, _) \<Rightarrow> (Inl (Filesystem_error ''unable to read log segment size''), s')
           | (_, None) \<Rightarrow> (Inl (Filesystem_error ''unable to read log segment size''), s')
           | (_, Some bs) \<Rightarrow> disk_usage_loop infos (add64 acc (length bs)) s')
      | (Inl e, s') \<Rightarrow> (Inl e, s'))"

definition disk_usage_bytes :: "(log, nat) prog" where
  "disk_usage_bytes s = disk_usage_loop (segment_index s) 0 s"

definition next_offset :: "log \<Rightarrow> nat" where
  "next_offset s = next_message_offset s"

definition is_open :: "log \<Rightarrow> bool" where
  "is_open s = opened s"

end
