(* ===== verification/Log_Scan.thy ===== *)
theory Log_Scan
  imports Mmap_Log
begin

text \<open>
  What a scan of a segment file computes. \<open>scan_spec\<close> is a reference decoder over the bytes
  of a segment; \<open>scan_records_refines\<close> shows that the record loop of \<open>scan_segment\<close>, with its
  descriptor, its \<open>pread\<close> calls and its cache updates, computes it. About the decoder: it
  inverts the encoder, accepts nothing but encoded records, keeps a valid prefix whatever
  follows it, and reports every single-byte corruption of a record outside its length
  field.
\<close>

section \<open>The encoding of records\<close>

text \<open>A logical record is a timestamp and a payload; its offset follows from its position.\<close>

type_synonym entry = "nat \<times> byte list"

definition entry_size :: "entry \<Rightarrow> nat" where
  "entry_size r = record_header_size + length (snd r)"

definition entry_ok :: "entry \<Rightarrow> bool" where
  "entry_ok r \<longleftrightarrow> fst r < 2 ^ 64 \<and> length (snd r) < 2 ^ 32"

definition entries_size :: "entry list \<Rightarrow> nat" where
  "entries_size rs = sum_list (map entry_size rs)"

definition encode_entry :: "nat \<Rightarrow> entry \<Rightarrow> byte list" where
  "encode_entry off r = make_record_header off (fst r) (snd r) @ snd r"

fun encode_entries :: "nat \<Rightarrow> entry list \<Rightarrow> byte list" where
  "encode_entries off [] = []"
| "encode_entries off (r # rs) = encode_entry off r @ encode_entries (off + entry_size r) rs"

definition entry_message :: "nat \<Rightarrow> entry \<Rightarrow> message" where
  "entry_message off r = \<lparr>msg_offset = off, msg_timestamp_ns = fst r,
     msg_payload_length = length (snd r), msg_payload = snd r\<rparr>"

fun entry_messages :: "nat \<Rightarrow> entry list \<Rightarrow> message list" where
  "entry_messages off [] = []"
| "entry_messages off (r # rs) = entry_message off r # entry_messages (off + entry_size r) rs"

definition message_entry :: "message \<Rightarrow> entry" where
  "message_entry m = (msg_timestamp_ns m, msg_payload m)"

section \<open>The reference decoder\<close>

definition record_spec :: "string \<Rightarrow> bool \<Rightarrow> nat \<Rightarrow> byte list \<Rightarrow> nat \<Rightarrow> nat \<Rightarrow> exn + scan_verdict" where
  "record_spec path latest sz content pos expected =
     (let hdr = take 32 (drop pos content);
          plen = unat (get_u32 (drop 24 hdr));
          payload = take plen (drop (pos + 32) content)
      in
      if get_u32 hdr = 0 then
        if list_all (\<lambda>b. b = 0) (drop pos content) then Inr (Scan_end False)
        else if latest then Inr (Scan_end True)
        else Inl (Runtime_error (''corrupt tail in sealed segment: '' @ path))
      else if get_u32 hdr = record_magic \<and> get_u32 (drop 4 hdr) = record_version_size \<and>
              unat (get_u64 (drop 8 hdr)) = expected \<and> 32 + plen \<le> sz - pos \<and>
              pos + (32 + plen) \<le> length content \<and>
              get_u32 (drop 28 hdr) = record_crc hdr payload
      then if expected > uint64_max - (32 + plen)
        then Inl (Runtime_error (''record offsets overflow in segment: '' @ path))
        else Inr (Scan_record \<lparr>msg_offset = expected, msg_timestamp_ns = unat (get_u64 (drop 16 hdr)),
               msg_payload_length = plen, msg_payload = payload\<rparr>)
      else if latest then Inr (Scan_end True)
      else Inl (Runtime_error (''corrupt record in sealed segment: '' @ path)))"

function scan_spec :: "string \<Rightarrow> bool \<Rightarrow> nat \<Rightarrow> byte list \<Rightarrow> nat \<Rightarrow> nat \<Rightarrow>
    (exn + nat \<times> nat \<times> bool) \<times> message list" where
  "scan_spec path latest sz content pos expected =
     (if pos + 32 \<le> length content then
        (case record_spec path latest sz content pos expected of
           Inl e \<Rightarrow> (Inl e, [])
         | Inr (Scan_end t) \<Rightarrow> (Inr (pos, expected, t), [])
         | Inr (Scan_record m) \<Rightarrow>
             (let n = 32 + msg_payload_length m;
                  (r, ms) = scan_spec path latest sz content (pos + n) (expected + n)
              in (r, m # ms)))
      else (Inr (pos, expected, False), []))"
  by pat_completeness auto
termination
  by (relation "measure (\<lambda>(path, latest, sz, content, pos, expected). length content - pos)") auto

declare scan_spec.simps [simp del]

section \<open>Reads\<close>

text \<open>Whatever the pattern of short and interrupted reads, \<open>pread_all\<close> delivers the bytes.\<close>

lemma pread_loop_result:
  assumes "pread_loop content len off got rs = ((None, out), rs')"
    and "got = take (length got) (drop off content)" and "length got \<le> len"
  shows "out = take len (drop off content)"
  using assms
proof (induction content len off got rs arbitrary: rs' rule: pread_loop.induct)
  case (1 content len off got rs)
  show ?case
  proof (cases "length got < len")
    case False
    with "1.prems" show ?thesis by (subst (asm) pread_loop.simps) auto
  next
    case True
    obtain r rs1 where call: "sys_pread content (len - length got) (off + length got) rs = (r, rs1)"
      by fastforce
    show ?thesis
    proof (cases r)
      case (Inl e)
      with True call "1.prems" "1.IH"(1) [OF True call [symmetric] Inl] show ?thesis
        by (simp add: pread_loop.simps [of content len off got rs] split: if_splits)
    next
      case (Inr chunk)
      with call True obtain k where k: "0 < k" "k \<le> len - length got"
        and chunk: "chunk = take k (drop (length got) (drop off content))"
        by (auto elim!: sys_pread_Inr simp: add.commute)
      show ?thesis
      proof (cases chunk)
        case Nil
        with chunk k have "length (drop off content) \<le> length got" by simp
        with "1.prems"(2) True have got: "got = take len (drop off content)" by simp
        from True call Inr Nil "1.prems"(1) have "out = got"
          by (simp add: pread_loop.simps [of content len off got rs])
        with got show ?thesis by simp
      next
        case (Cons b bs)
        have ext: "got @ chunk = take (length (got @ chunk)) (drop off content)"
          by (subst "1.prems"(2)) (simp add: chunk min_def take_add flip: take_take)
        have le: "length (got @ chunk) \<le> len" using k True by (simp add: chunk)
        from True call Inr Cons "1.prems"(1)
        have "pread_loop content len off (got @ b # bs) rs1 = ((None, out), rs')"
          by (simp add: pread_loop.simps [of content len off got rs])
        with "1.IH"(2) [OF True call [symmetric] Inr Cons] ext le Cons show ?thesis by simp
      qed
    qed
  qed
qed

lemma pread_loop_ok:
  "pread_loop content len off [] [] = ((None, take len (drop off content)), [])"
proof -
  have step: "pread_loop content len off got [] = ((None, got), [])"
    if "got = take len (drop off content)" for got
    using that by (subst pread_loop.simps) (auto simp: sys_pread_def)
  show ?thesis
  proof (cases "take len (drop off content)")
    case Nil
    with step [of "[]"] show ?thesis by simp
  next
    case (Cons b bs)
    then have "0 < len" by (cases len) auto
    with Cons step [of "b # bs"] show ?thesis
      by (subst pread_loop.simps) (auto simp: sys_pread_def)
  qed
qed

text \<open>A descriptor that is open on a file with the given bytes.\<close>

definition fd_bytes :: "'z os_scheme \<Rightarrow> int \<Rightarrow> byte list \<Rightarrow> bool" where
  "fd_bytes s fd content \<longleftrightarrow>
     (\<exists>name. map_of (open_fds s) fd = Some name \<and> file_content s name = Some content)"

lemma pread_all_ok:
  "script s = [] \<Longrightarrow> fd_bytes s fd content \<Longrightarrow>
     pread_all fd len off s = (Inr (None, take len (drop off content)), s)"
  by (auto simp: fd_bytes_def pread_all_def pread_loop_ok)

lemma zero_tail_ok:
  assumes "script s = []" and "fd_bytes s fd content" and "off + len \<le> length content"
  shows "zero_tail fd off len path s = (Inr (list_all (\<lambda>b. b = 0) (take len (drop off content))), s)"
  using assms
proof (induction len arbitrary: off rule: less_induct)
  case (less len)
  show ?case
  proof (cases "len = 0")
    case True
    then show ?thesis by (subst zero_tail.simps) simp
  next
    case False
    define c where "c = min len 4096"
    have c: "0 < c" "c \<le> len" using False by (simp_all add: c_def)
    have full: "length (take c (drop off content)) = c" using less.prems c by simp
    have split: "take len (drop off content) =
        take c (drop off content) @ take (len - c) (drop (off + c) content)"
      using c by (metis add.commute drop_drop le_add_diff_inverse take_add)
    have IH: "zero_tail fd (off + c) (len - c) path s =
        (Inr (list_all (\<lambda>b. b = 0) (take (len - c) (drop (off + c) content))), s)"
      using less.IH [of "len - c" "off + c"] less.prems c by simp
    show ?thesis
      using False full IH
      by (subst zero_tail.simps)
        (simp add: Let_def pread_all_ok [OF less.prems(1,2)] split flip: c_def)
  qed
qed

section \<open>The record loop computes the reference decoder\<close>

lemma close_throw_ok:
  "script s = [] \<Longrightarrow> close_throw fd e s = (Inl e, s\<lparr>open_fds := AList.delete fd (open_fds s)\<rparr>)"
  by (simp add: close_throw_def sys_close_def bind_apply)

lemma scan_payload_ok:
  assumes "script s = []" and "fd_bytes s fd content"
    and "valid \<Longrightarrow> pos + (32 + plen) \<le> length content"
  shows "scan_payload fd path pos hdr valid plen s =
    (let payload = take plen (drop (pos + 32) content) in
     (Inr (if valid then (get_u32 (drop 28 hdr) = record_crc hdr payload, payload) else (False, [])), s))"
proof (cases valid)
  case True
  with assms(3) have "length (take plen (drop (pos + 32) content)) = plen" by simp
  with True show ?thesis
    by (auto simp: scan_payload_def bind_apply pread_all_ok [OF assms(1,2)] record_header_size_def Let_def)
next
  case False
  then show ?thesis by (simp add: scan_payload_def Let_def)
qed

lemma scan_record_refines:
  assumes ok: "script s = []" "fd_bytes s fd content" and pos: "pos + 32 \<le> length content"
  shows "scan_record fd path latest (length content) pos expected s =
    (case record_spec path latest (segment_size s) content pos expected of
       Inl e \<Rightarrow> (Inl e, s\<lparr>open_fds := AList.delete fd (open_fds s)\<rparr>)
     | Inr v \<Rightarrow> (Inr v, s))"
proof -
  define hdr where "hdr = take 32 (drop pos content)"
  have len: "length hdr = 32" using pos by (simp add: hdr_def)
  then have ne: "hdr \<noteq> []" by auto
  have rd: "pread_all fd 32 pos s = (Inr (None, hdr), s)" by (simp add: pread_all_ok [OF ok] hdr_def)
  have zt: "zero_tail fd pos (length content - pos) path s =
      (Inr (list_all (\<lambda>b. b = 0) (drop pos content)), s)"
    using zero_tail_ok [OF ok, of pos "length content - pos" path] pos by simp
  note facts = rd zt ne len close_throw_ok [OF ok(1)] scan_payload_ok [OF ok]
  show ?thesis
  proof (cases "get_u32 hdr = 0")
    case True
    then show ?thesis
      by (simp add: scan_record_def record_spec_def bind_apply record_header_size_def Let_def facts
          flip: hdr_def)
  next
    case False
    then show ?thesis
      by (simp add: scan_record_def record_spec_def bind_apply record_header_size_def Let_def facts
          flip: hdr_def)
  qed
qed

lemma fd_bytes_cache [simp]: "fd_bytes (s\<lparr>recent_cache := c\<rparr>) fd content \<longleftrightarrow> fd_bytes s fd content"
  by (simp add: fd_bytes_def file_content_def)

theorem scan_records_refines:
  assumes "script s = []" and "fd_bytes s fd content"
  shows "scan_records fd path latest (length content) pos expected s =
    (case scan_spec path latest (segment_size s) content pos expected of
       (Inl e, ms) \<Rightarrow> (Inl e, s\<lparr>recent_cache := foldl cb_push (recent_cache s) ms,
                              open_fds := AList.delete fd (open_fds s)\<rparr>)
     | (Inr r, ms) \<Rightarrow> (Inr r, s\<lparr>recent_cache := foldl cb_push (recent_cache s) ms\<rparr>))"
  using assms
proof (induction "length content - pos" arbitrary: pos expected s rule: less_induct)
  case less
  show ?case
  proof (cases "pos + 32 \<le> length content")
    case False
    then show ?thesis
      by (subst scan_records.simps, subst scan_spec.simps) (simp add: record_header_size_def)
  next
    case True
    note step = scan_record_refines [OF less.prems True, of path latest expected]
    show ?thesis
    proof (cases "record_spec path latest (segment_size s) content pos expected")
      case (Inl e)
      with True step show ?thesis
        by (subst scan_records.simps, subst scan_spec.simps) (simp add: record_header_size_def)
    next
      case (Inr v)
      show ?thesis
      proof (cases v)
        case (Scan_end b)
        with True step Inr show ?thesis
          by (subst scan_records.simps, subst scan_spec.simps) (simp add: record_header_size_def)
      next
        case (Scan_record m)
        define s' where "s' = s\<lparr>recent_cache := cb_push (recent_cache s) m\<rparr>"
        have s': "script s' = []" "fd_bytes s' fd content" "segment_size s' = segment_size s"
          "recent_cache s' = cb_push (recent_cache s) m" "open_fds s' = open_fds s"
          using less.prems by (simp_all add: s'_def)
        define n where "n = 32 + msg_payload_length m"
        have "length content - (pos + n) < length content - pos" using True by (simp add: n_def)
        note IH = less.hyps [OF this s'(1,2), of "expected + n"]
        have L: "scan_records fd path latest (length content) pos expected s =
            scan_records fd path latest (length content) (pos + n) (expected + n) s'"
          using True step Inr Scan_record
          by (subst scan_records.simps) (simp add: record_header_size_def n_def s'_def Let_def)
        have R: "scan_spec path latest (segment_size s) content pos expected =
            (let (r, ms) = scan_spec path latest (segment_size s) content (pos + n) (expected + n)
             in (r, m # ms))"
          using True Inr Scan_record by (subst scan_spec.simps) (simp add: n_def Let_def)
        show ?thesis
          unfolding L R IH s' by (auto simp: s'_def split: prod.splits sum.splits)
      qed
    qed
  qed
qed

section \<open>The decoder inverts the encoder\<close>

lemma length_encode_entry [simp]: "length (encode_entry off r) = entry_size r"
  by (simp add: encode_entry_def entry_size_def record_header_size_def)

lemma entry_size_eq: "entry_size r = 32 + length (snd r)"
  by (simp add: entry_size_def record_header_size_def)

lemma entries_size_simps [simp]:
  "entries_size [] = 0" "entries_size (r # rs) = entry_size r + entries_size rs"
  "entries_size (rs @ rs') = entries_size rs + entries_size rs'"
  by (simp_all add: entries_size_def)

lemma length_encode_entries [simp]: "length (encode_entries off rs) = entries_size rs"
  by (induction rs arbitrary: off) simp_all

lemma encode_entries_append:
  "encode_entries off (rs @ rs') = encode_entries off rs @ encode_entries (off + entries_size rs) rs'"
  by (induction rs arbitrary: off) (simp_all add: add.assoc)

lemma entry_messages_append:
  "entry_messages off (rs @ rs') = entry_messages off rs @ entry_messages (off + entries_size rs) rs'"
  by (induction rs arbitrary: off) (simp_all add: add.assoc)

lemma length_entry_messages [simp]: "length (entry_messages off rs) = length rs"
  by (induction rs arbitrary: off) simp_all

lemma map_message_entry [simp]: "map message_entry (entry_messages off rs) = rs"
  by (induction rs arbitrary: off) (simp_all add: message_entry_def entry_message_def)

lemma uint64_max_eq: "uint64_max = 2 ^ 64 - 1"
  by (simp add: uint64_max_def)

lemma record_spec_encoded:
  assumes bytes: "drop pos content = encode_entry e r @ rest" and ok: "entry_ok r"
    and fits: "e + entry_size r \<le> uint64_max" and sz: "length content \<le> sz"
  shows "record_spec path latest sz content pos e = Inr (Scan_record (entry_message e r))"
proof -
  define hdr where "hdr = make_record_header e (fst r) (snd r)"
  have "length (drop pos content) = entry_size r + length rest"
    unfolding bytes by simp
  then have len: "length content = pos + entry_size r + length rest"
    by (simp add: entry_size_eq)
  have e: "e < 2 ^ 64" using fits by (simp add: uint64_max_eq entry_size_eq)
  have "drop (pos + 32) content = drop 32 (drop pos content)" by (simp add: add.commute)
  then have rd: "take 32 (drop pos content) = hdr" "take (length (snd r)) (drop (pos + 32) content) = snd r"
    unfolding bytes by (simp_all add: hdr_def encode_entry_def)
  note reads = record_header_reads [of hdr e "fst r" "snd r" "[]", simplified hdr_def append_Nil2, OF refl,
      folded hdr_def]
  have unats: "unat (of_nat e :: u64) = e" "unat (of_nat (fst r) :: u64) = fst r"
    "unat (of_nat (length (snd r)) :: u32) = length (snd r)"
    using e ok by (simp_all add: unat_of_nat entry_ok_def)
  have "\<not> e > uint64_max - (32 + length (snd r))" using fits by (simp add: entry_size_eq)
  moreover have "32 + length (snd r) \<le> sz - pos" "pos + (32 + length (snd r)) \<le> length content"
    using len sz by (simp_all add: entry_size_eq)
  ultimately show ?thesis
    by (simp add: record_spec_def Let_def rd reads unats entry_message_def)
qed

lemma scan_spec_prefix:
  assumes "drop pos content = encode_entries e rs @ rest" and "list_all entry_ok rs"
    and "e + entries_size rs \<le> uint64_max" and "length content \<le> sz"
  shows "scan_spec path latest sz content pos e =
    (let (r, ms) = scan_spec path latest sz content (pos + entries_size rs) (e + entries_size rs)
     in (r, entry_messages e rs @ ms))"
  using assms
proof (induction rs arbitrary: pos e)
  case (Cons r rs)
  define n where "n = entry_size r"
  have bytes: "drop pos content = encode_entry e r @ (encode_entries (e + n) rs @ rest)"
    using Cons.prems(1) by (simp add: n_def)
  have "length (drop pos content) \<ge> n" unfolding bytes by (simp add: n_def)
  then have pos: "pos + 32 \<le> length content" by (simp add: n_def entry_size_eq)
  have rec: "record_spec path latest sz content pos e = Inr (Scan_record (entry_message e r))"
    using Cons.prems by (intro record_spec_encoded [OF bytes]) simp_all
  have "drop (pos + n) content = encode_entries (e + n) rs @ rest"
    using arg_cong [OF bytes, of "drop n"] by (simp add: n_def add.commute)
  note IH = Cons.IH [OF this]
  have IH': "scan_spec path latest sz content (pos + n) (e + n) =
      (let (x, ms) = scan_spec path latest sz content (pos + n + entries_size rs) (e + n + entries_size rs)
       in (x, entry_messages (e + n) rs @ ms))"
    using Cons.prems by (intro IH) (simp_all add: n_def add.assoc)
  have "32 + msg_payload_length (entry_message e r) = n" by (simp add: entry_message_def n_def entry_size_eq)
  with pos rec have "scan_spec path latest sz content pos e =
      (let (x, ms) = scan_spec path latest sz content (pos + n) (e + n) in (x, entry_message e r # ms))"
    by (subst scan_spec.simps) (simp add: Let_def)
  then show ?case
    unfolding IH' by (simp add: add.assoc split: prod.splits flip: n_def)
qed simp

lemma scan_spec_zero_tail:
  assumes "list_all (\<lambda>b. b = 0) (drop pos content)"
  shows "scan_spec path latest sz content pos e = (Inr (pos, e, False), [])"
proof (cases "pos + 32 \<le> length content")
  case True
  have rep: "drop pos content = replicate (length content - pos) 0"
    using assms replicate_length_same [of "drop pos content" 0] by (auto simp: list_all_iff)
  then have "get_u32 (take 32 (drop pos content)) = 0" using True by simp
  then have "record_spec path latest sz content pos e = Inr (Scan_end False)"
    using assms by (simp add: record_spec_def Let_def)
  with True show ?thesis by (subst scan_spec.simps) simp
next
  case False
  then show ?thesis by (subst scan_spec.simps) simp
qed

section \<open>The decoder accepts encoded records only\<close>

lemma record_spec_accepts:
  assumes "record_spec path latest sz content pos e = Inr (Scan_record m)" and "pos + 32 \<le> length content"
  shows "m = entry_message e (message_entry m)" and "entry_ok (message_entry m)"
    and "e + entry_size (message_entry m) \<le> uint64_max"
    and "drop pos content = encode_entry e (message_entry m) @ drop (pos + entry_size (message_entry m)) content"
proof -
  define hdr plen payload where "hdr = take 32 (drop pos content)"
    and "plen = unat (get_u32 (drop 24 hdr))" and "payload = take plen (drop (pos + 32) content)"
  have acc: "get_u32 hdr = record_magic" "get_u32 (drop 4 hdr) = record_version_size"
    "unat (get_u64 (drop 8 hdr)) = e" "pos + (32 + plen) \<le> length content"
    "get_u32 (drop 28 hdr) = record_crc hdr payload" "\<not> e > uint64_max - (32 + plen)"
    "m = \<lparr>msg_offset = e, msg_timestamp_ns = unat (get_u64 (drop 16 hdr)),
          msg_payload_length = plen, msg_payload = payload\<rparr>"
    using assms(1)
    by (simp_all add: record_spec_def Let_def split: if_splits flip: hdr_def plen_def payload_def)
  have plen: "length payload = plen" using acc(4) by (simp add: payload_def)
  have len: "length hdr = 32" using assms(2) by (simp add: hdr_def)
  have plen32: "plen < 2 ^ 32" using unsigned_less [of "get_u32 (drop 24 hdr)"] by (simp add: plen_def)
  have ent: "message_entry m = (unat (get_u64 (drop 16 hdr)), payload)"
    by (simp add: message_entry_def acc(7))
  show "m = entry_message e (message_entry m)"
    unfolding ent by (simp add: entry_message_def acc(7) plen)
  show "entry_ok (message_entry m)"
    using plen32 unsigned_less [of "get_u64 (drop 16 hdr)"] by (simp add: ent entry_ok_def plen)
  show "e + entry_size (message_entry m) \<le> uint64_max"
    using acc(6) plen32 by (simp add: ent entry_size_eq plen uint64_max_eq)
  have "make_record_header e (fst (message_entry m)) (snd (message_entry m)) = hdr"
    using record_header_of_reads [OF len acc(1,2), of payload] acc(3,5) plen
    by (auto simp: ent plen_def)
  then have "encode_entry e (message_entry m) = take (32 + plen) (drop pos content)"
    unfolding take_add by (simp add: encode_entry_def ent hdr_def payload_def add.commute)
  then show "drop pos content = encode_entry e (message_entry m) @ drop (pos + entry_size (message_entry m)) content"
    by (simp add: ent entry_size_eq plen add.commute) (metis append_take_drop_id drop_drop add.commute)
qed

lemma scan_spec_sound:
  assumes "scan_spec path latest sz content pos e = (Inr (p, e', t), ms)" and "pos \<le> length content"
    and "rs = map message_entry ms"
  shows "p = pos + entries_size rs \<and> e' = e + entries_size rs \<and> ms = entry_messages e rs \<and>
    list_all entry_ok rs \<and> (rs \<noteq> [] \<longrightarrow> e' \<le> uint64_max) \<and>
    drop pos content = encode_entries e rs @ drop p content"
  using assms
proof (induction "length content - pos" arbitrary: pos e ms rs rule: less_induct)
  case less
  show ?case
  proof (cases "pos + 32 \<le> length content")
    case False
    with less.prems(1) show ?thesis by (subst (asm) scan_spec.simps) (simp add: less.prems(3))
  next
    case True
    show ?thesis
    proof (cases "\<exists>m. record_spec path latest sz content pos e = Inr (Scan_record m)")
      case False
      with True less.prems(1) show ?thesis
        by (subst (asm) scan_spec.simps) (auto simp: less.prems(3) split: sum.splits scan_verdict.splits)
    next
      case rec: True
      then obtain m where m: "record_spec path latest sz content pos e = Inr (Scan_record m)" by blast
      define r where "r = message_entry m"
      note acc = record_spec_accepts [OF m True, folded r_def]
      have n: "32 + msg_payload_length m = entry_size r"
        using acc(1) by (metis entry_message_def entry_size_eq message.select_convs(3))
      obtain ms' where ms: "ms = m # ms'"
        and rest: "scan_spec path latest sz content (pos + entry_size r) (e + entry_size r) = (Inr (p, e', t), ms')"
        using less.prems(1) True m
        by (subst (asm) scan_spec.simps) (auto simp: Let_def n split: prod.splits)
      have "length (drop pos content) \<ge> entry_size r" by (subst acc(4)) simp
      then have bound: "pos + entry_size r \<le> length content" using True by simp
      have "length content - (pos + entry_size r) < length content - pos"
        using True by (simp add: entry_size_eq)
      note IH = less.hyps [OF this rest bound refl]
      define rs' where "rs' = map message_entry ms'"
      have rs: "rs = r # rs'" by (simp add: less.prems(3) ms r_def rs'_def)
      have bytes: "drop pos content = encode_entries e rs @ drop p content"
        using acc(4) IH unfolding rs rs'_def [symmetric] encode_entries.simps append_assoc by metis
      have msgs: "ms = entry_messages e rs"
        using acc(1) IH unfolding rs rs'_def [symmetric] entry_messages.simps ms by metis
      have pos: "p = pos + entries_size rs" "e' = e + entries_size rs"
        using IH by (simp_all add: rs rs'_def)
      have ok: "list_all entry_ok rs" using IH acc(2) by (simp add: rs rs'_def)
      have "e' \<le> uint64_max"
      proof (cases "rs' = []")
        case True
        then show ?thesis using pos(2) acc(3) by (simp add: rs)
      next
        case False
        then show ?thesis using IH by (simp add: rs'_def)
      qed
      then show ?thesis using bytes msgs pos ok by blast
    qed
  qed
qed

section \<open>Damage\<close>

text \<open>In the newest segment the decoder always comes to an end by itself: a damaged or torn
  tail is cut off, never an error.\<close>

lemma scan_spec_latest_total:
  assumes "pos \<le> length content" and "e + (length content - pos) \<le> uint64_max"
  shows "\<exists>p e' t ms. scan_spec path True sz content pos e = (Inr (p, e', t), ms)"
  using assms
proof (induction "length content - pos" arbitrary: pos e rule: less_induct)
  case less
  show ?case
  proof (cases "pos + 32 \<le> length content")
    case False
    then have "scan_spec path True sz content pos e = (Inr (pos, e, False), [])"
      by (subst scan_spec.simps) simp
    then show ?thesis by blast
  next
    case True
    show ?thesis
    proof (cases "record_spec path True sz content pos e")
      case (Inl x)
      then have "e > uint64_max - (32 + unat (get_u32 (drop 24 (take 32 (drop pos content)))))"
        and "pos + (32 + unat (get_u32 (drop 24 (take 32 (drop pos content))))) \<le> length content"
        by (auto simp: record_spec_def Let_def split: if_splits)
      with less.prems show ?thesis by linarith
    next
      case (Inr v)
      show ?thesis
      proof (cases v)
        case (Scan_end b)
        with True Inr show ?thesis by (subst scan_spec.simps) simp
      next
        case (Scan_record m)
        define n where "n = 32 + msg_payload_length m"
        have "pos + n \<le> length content"
          using Inr Scan_record by (auto simp: record_spec_def Let_def n_def split: if_splits)
        moreover have "0 < n" by (simp add: n_def)
        ultimately obtain p e' t ms where
          "scan_spec path True sz content (pos + n) (e + n) = (Inr (p, e', t), ms)"
          using less.hyps [of "pos + n" "e + n"] less.prems by fastforce
        with True Inr Scan_record show ?thesis by (subst scan_spec.simps) (simp add: Let_def n_def)
      qed
    qed
  qed
qed

text \<open>In a sealed segment one changed byte of a record, outside its length field, is
  reported: the magic, size and offset fields are compared, and the checksum covers the
  rest.\<close>

lemma take_drop_update_neq:
  assumes "k \<le> i" "i < k + n" "i < length xs" "xs ! i \<noteq> x"
  shows "take n (drop k (xs[i := x])) \<noteq> take n (drop k xs)"
proof
  assume "take n (drop k (xs[i := x])) = take n (drop k xs)"
  from arg_cong [OF this, of "\<lambda>ys. ys ! (i - k)"] assms show False by simp
qed

lemmas take_update_neq = take_drop_update_neq [where k = 0, simplified]

lemma header_damage_detected:
  assumes i: "i < 32" "\<not> (24 \<le> i \<and> i < 28)" and x: "hdr ! i \<noteq> x"
    and hdr: "hdr = make_record_header e ts payload"
  shows "get_u32 (hdr[i := x]) \<noteq> record_magic \<or>
    get_u32 (drop 4 (hdr[i := x])) \<noteq> record_version_size \<or>
    get_u64 (drop 8 (hdr[i := x])) \<noteq> of_nat e \<or>
    get_u32 (drop 28 (hdr[i := x])) \<noteq> record_crc (hdr[i := x]) payload"
proof -
  note reads = record_header_reads [of hdr e ts payload "[]", unfolded append_Nil2, OF hdr]
  have len: "length hdr = 32" by (simp add: hdr)
  consider "i < 4" | "4 \<le> i" "i < 8" | "8 \<le> i" "i < 16" | "16 \<le> i" "i < 24" | "28 \<le> i" using i by linarith
  then show ?thesis
  proof cases
    case 1
    then have "take 4 (hdr[i := x]) \<noteq> take 4 hdr" using x len by (intro take_update_neq) simp_all
    then show ?thesis using get_u32_inject [of "hdr[i := x]" hdr] len reads(1) by auto
  next
    case 2
    then have "take 4 (drop 4 (hdr[i := x])) \<noteq> take 4 (drop 4 hdr)"
      using x len by (intro take_drop_update_neq) simp_all
    then show ?thesis using get_u32_inject [of "drop 4 (hdr[i := x])" "drop 4 hdr"] len reads(2) by auto
  next
    case 3
    then have "take 8 (drop 8 (hdr[i := x])) \<noteq> take 8 (drop 8 hdr)"
      using x len by (intro take_drop_update_neq) simp_all
    then show ?thesis using get_u64_inject [of "drop 8 (hdr[i := x])" "drop 8 hdr"] len reads(3) by auto
  next
    case 4
    then have "crc32_update 0xffffffff (take 28 (hdr[i := x])) \<noteq> crc32_update 0xffffffff (take 28 hdr)"
      using x len by (simp add: take_update_swap crc32_update_change_byte)
    then have "record_crc (hdr[i := x]) payload \<noteq> record_crc hdr payload"
      by (simp add: record_crc_def Let_def xor_right_inject crc32_update_inject)
    then show ?thesis using 4 reads(6) by (simp add: drop_update_swap)
  next
    case 5
    then have "take 4 (drop 28 (hdr[i := x])) \<noteq> take 4 (drop 28 hdr)"
      using x len i by (intro take_drop_update_neq) simp_all
    then have "get_u32 (drop 28 (hdr[i := x])) \<noteq> get_u32 (drop 28 hdr)"
      using get_u32_inject [of "drop 28 (hdr[i := x])" "drop 28 hdr"] len by auto
    moreover have "record_crc (hdr[i := x]) payload = record_crc hdr payload"
      using 5 by (simp add: record_crc_def Let_def)
    ultimately show ?thesis using reads(6) by auto
  qed
qed

lemma magic_bytes: "make_record_header e ts payload ! 0 = 0x52" "make_record_header e ts payload ! 1 = 0x45"
  by (simp_all add: make_record_header_fields Let_def nth_append)
    (simp_all add: put_u32_def record_magic_def)

lemma record_spec_damaged:
  assumes bytes: "drop pos content = encode_entry e r @ rest" and ok: "entry_ok r" and e: "e < 2 ^ 64"
    and i: "i < entry_size r" "\<not> (24 \<le> i \<and> i < 28)" and x: "content ! (pos + i) \<noteq> x"
  shows "\<exists>w. record_spec path False sz (content[pos + i := x]) pos e = Inl (Runtime_error w)"
proof -
  define hdr content' where "hdr = make_record_header e (fst r) (snd r)" and "content' = content[pos + i := x]"
  have old: "(hdr @ snd r @ rest) ! i \<noteq> x"
    using x i(1) arg_cong [OF bytes, of "\<lambda>bs. bs ! i"] arg_cong [OF bytes, of length]
    by (simp add: encode_entry_def hdr_def entry_size_eq)
  have len: "length hdr = 32" by (simp add: hdr_def)
  have bytes': "drop pos content' = (hdr @ snd r @ rest)[i := x]"
    using bytes by (simp add: content'_def encode_entry_def hdr_def drop_update_swap)
  have plen: "unat (of_nat (length (snd r)) :: u32) = length (snd r)"
    using ok by (simp add: unat_of_nat entry_ok_def)
  note reads = record_header_reads [of hdr e "fst r" "snd r" "[]", unfolded append_Nil2, OF hdr_def]
  have tail: "\<not> list_all (\<lambda>b. b = 0) (drop pos content')"
  proof
    assume zero: "list_all (\<lambda>b. b = 0) (drop pos content')"
    have "i = j \<or> hdr ! j = 0" if "j < 32" for j
    proof -
      have "drop pos content' ! j = 0" using zero that len unfolding bytes' list_all_length by simp
      then show ?thesis
        using that len unfolding bytes' by (cases "i = j") (simp_all add: nth_append)
    qed
    from this [of 0] this [of 1] show False
      unfolding hdr_def magic_bytes by simp
  qed
  have dr: "drop (pos + 32) content' = drop 32 (drop pos content')" by (simp add: add.commute)
  have bad: "\<not> (get_u32 (take 32 (drop pos content')) = record_magic \<and>
      get_u32 (drop 4 (take 32 (drop pos content'))) = record_version_size \<and>
      unat (get_u64 (drop 8 (take 32 (drop pos content')))) = e \<and>
      get_u32 (drop 28 (take 32 (drop pos content'))) = record_crc (take 32 (drop pos content'))
        (take (unat (get_u32 (drop 24 (take 32 (drop pos content'))))) (drop (pos + 32) content')))"
  proof (cases "i < 32")
    case True
    have h: "take 32 (drop pos content') = hdr[i := x]" and p: "drop (pos + 32) content' = snd r @ rest"
      using True len unfolding dr bytes' by (simp_all add: list_update_append)
    have "get_u32 (drop 24 (hdr[i := x])) = get_u32 (drop 24 hdr)"
      using i True by (intro get_u32_cong, cases "i < 24") (simp_all add: drop_update_swap)
    then have "take (unat (get_u32 (drop 24 (hdr[i := x])))) (snd r @ rest) = snd r"
      by (simp add: reads plen)
    moreover have "unat (get_u64 (drop 8 (hdr[i := x]))) = e \<Longrightarrow> get_u64 (drop 8 (hdr[i := x])) = of_nat e"
      by auto
    ultimately show ?thesis
      unfolding h p using header_damage_detected [OF True i(2) _ hdr_def, of x] old True len
      by (auto simp: nth_append)
  next
    case False
    define k where "k = i - 32"
    have kl: "k < length (snd r)" using i False by (auto simp: k_def entry_size_eq)
    moreover have "snd r ! k \<noteq> x" using old False len kl by (simp add: nth_append flip: k_def)
    ultimately have k: "k < length (snd r)" "snd r ! k \<noteq> x" by simp_all
    have h: "take 32 (drop pos content') = hdr" and p: "drop (pos + 32) content' = (snd r)[k := x] @ rest"
      using False k len unfolding dr bytes' by (simp_all add: list_update_append k_def)
    have "record_crc hdr ((snd r)[k := x]) \<noteq> record_crc hdr (snd r)"
      using crc32_update_change_byte [OF k] by (simp add: record_crc_def Let_def xor_right_inject)
    then show ?thesis unfolding h p by (auto simp: reads plen)
  qed
  show ?thesis
    using tail bad unfolding content'_def [symmetric]
    by (auto simp: record_spec_def Let_def)
qed

end
