(* ===== verification/Log_Invariant.thy ===== *)
theory Log_Invariant
  imports Log_Scan
begin

text \<open>
  The log as a whole, when system calls succeed: what \<open>open\<close>, \<open>append\<close>, \<open>flush\<close> and
  \<open>close\<close> do to the files, the in-memory index and the cache, stated against the abstract
  contents of the log, a list of segments each of which is a list of records.
\<close>

section \<open>Single system calls that succeed\<close>

definition fds_ok :: "'z os_scheme \<Rightarrow> bool" where
  "fds_ok s \<longleftrightarrow> 0 \<le> next_fd s \<and> (\<forall>fd \<in> fst ` set (open_fds s). 0 \<le> fd \<and> fd < next_fd s)"

lemma file_content_Some: "file_content s name = Some c \<longleftrightarrow> map_of (dir_entries s) name = Some (Regular c)"
  by (auto simp: file_content_def split: option.splits dirent.splits)

lemma file_content_log_cong [simp]:
  "file_content (s\<lparr>directory := d\<rparr>) name = file_content s name"
  "file_content (s\<lparr>segment_size := sz\<rparr>) name = file_content s name"
  "file_content (s\<lparr>next_message_offset := n\<rparr>) name = file_content s name"
  "file_content (s\<lparr>active := a\<rparr>) name = file_content s name"
  "file_content (s\<lparr>segment_index := i\<rparr>) name = file_content s name"
  "file_content (s\<lparr>recent_cache := c\<rparr>) name = file_content s name"
  "file_content (s\<lparr>opened := b\<rparr>) name = file_content s name"
  by (simp_all add: file_content_def)

lemma set_file_log_fields [simp]:
  fixes s :: log
  shows "directory (set_file name bs s) = directory s" "segment_size (set_file name bs s) = segment_size s"
    "next_message_offset (set_file name bs s) = next_message_offset s"
    "active (set_file name bs s) = active s" "segment_index (set_file name bs s) = segment_index s"
    "recent_cache (set_file name bs s) = recent_cache s" "opened (set_file name bs s) = opened s"
  by (simp_all add: set_file_def)

lemma sys_open_ok:
  "script s = [] \<Longrightarrow> file_content s name = Some c \<Longrightarrow> sys_open name s =
     (Inr (Inr (next_fd s)), s\<lparr>open_fds := (next_fd s, name) # open_fds s, next_fd := next_fd s + 1\<rparr>)"
  by (simp add: sys_open_def syscall_ok file_content_Some alloc_fd_def)

lemma sys_open_excl_ok:
  "script s = [] \<Longrightarrow> map_of (dir_entries s) name = None \<Longrightarrow> sys_open_excl name s =
     (Inr (Inr (next_fd s)), (set_file name [] s)\<lparr>open_fds := (next_fd s, name) # open_fds s, next_fd := next_fd s + 1\<rparr>)"
  by (simp add: sys_open_excl_def syscall_ok alloc_fd_def)

lemma sys_open_dir_ok:
  "script s = [] \<Longrightarrow> sys_open_dir s =
     (Inr (Inr (next_fd s)), s\<lparr>open_fds := (next_fd s, ''.'') # open_fds s, next_fd := next_fd s + 1\<rparr>)"
  by (simp add: sys_open_dir_def syscall_ok alloc_fd_def)

lemma sys_fstat_ok:
  "script s = [] \<Longrightarrow> map_of (open_fds s) fd = Some name \<Longrightarrow> file_content s name = Some c \<Longrightarrow>
     sys_fstat fd s = (Inr (Inr (length c)), s)"
  by (simp add: sys_fstat_def syscall_ok with_file_def)

lemma sys_ftruncate_ok:
  "script s = [] \<Longrightarrow> map_of (open_fds s) fd = Some name \<Longrightarrow> file_content s name = Some c \<Longrightarrow>
     sys_ftruncate fd n s = (Inr (Inr ()), set_file name (resize n c) s)"
  by (simp add: sys_ftruncate_def syscall_ok with_file_def)

lemma sys_mmap_ok:
  "script s = [] \<Longrightarrow> map_of (open_fds s) fd = Some name \<Longrightarrow> file_content s name = Some c \<Longrightarrow>
     sys_mmap fd s = (Inr (Inr name), s\<lparr>maps := name # maps s\<rparr>)"
  by (simp add: sys_mmap_def syscall_ok with_file_def)

lemma sys_msync_ok: "script s = [] \<Longrightarrow> sys_msync d s = (Inr (Inr ()), s\<lparr>dirty := removeAll d (dirty s)\<rparr>)"
  by (simp add: sys_msync_def syscall_ok)

lemma sys_munmap_ok: "script s = [] \<Longrightarrow> sys_munmap d s = (Inr (Inr ()), s\<lparr>maps := remove1 d (maps s)\<rparr>)"
  by (simp add: sys_munmap_def syscall_ok)

lemma sys_close_ok:
  "script s = [] \<Longrightarrow> sys_close fd s = (Inr (Inr ()), s\<lparr>open_fds := AList.delete fd (open_fds s)\<rparr>)"
  by (simp add: sys_close_def bind_apply)

lemma sys_fsync_ok:
  "script s = [] \<Longrightarrow> map_of (open_fds s) fd = Some name \<Longrightarrow> file_content s name = Some c \<Longrightarrow>
     name \<noteq> ''.'' \<Longrightarrow> name \<notin> set (dirty s) \<Longrightarrow> sys_fsync fd s = (Inr (Inr ()), s\<lparr>durable := AList.update name c (durable s)\<rparr>)"
  by (simp add: sys_fsync_def syscall_ok)

lemma sys_fsync_dir_ok:
  "script s = [] \<Longrightarrow> map_of (open_fds s) fd = Some ''.'' \<Longrightarrow>
     sys_fsync fd s = (Inr (Inr ()), s\<lparr>durable_names := map fst (dir_entries s)\<rparr>)"
  by (simp add: sys_fsync_def syscall_ok)

lemma segment_name_neq_dot [simp]: "segment_name n \<noteq> ''.''"
  by (simp add: segment_name_def)

lemma delete_fresh_fd: "fds_ok s \<Longrightarrow> AList.delete (next_fd s) (open_fds s) = open_fds s"
  by (auto simp: fds_ok_def AList.delete_eq filter_id_conv)

lemmas syscalls_ok = sys_open_ok sys_open_excl_ok sys_open_dir_ok sys_fstat_ok sys_ftruncate_ok
  sys_mmap_ok sys_msync_ok sys_munmap_ok sys_close_ok sys_fsync_ok sys_fsync_dir_ok

section \<open>Scanning one segment\<close>

text \<open>Whether the scan cuts the file off: the record loop asked for it, or a short tail is not
  zero padding.\<close>

definition tail_dirty :: "byte list \<Rightarrow> nat \<Rightarrow> bool" where
  "tail_dirty content p \<longleftrightarrow> p < length content \<and> length content < p + 32 \<and>
     \<not> list_all (\<lambda>b. b = 0) (drop p content)"

definition scanned_info :: "nat \<Rightarrow> nat \<Rightarrow> nat \<Rightarrow> nat \<Rightarrow> string \<Rightarrow> segment_info" where
  "scanned_info sid base e p name = \<lparr>seg_id = sid, seg_first_offset = base, seg_end_offset = e,
     seg_valid_bytes = p, seg_path = name\<rparr>"

lemma scan_tail_ok:
  assumes ok: "script s = []" "fd_bytes s fd content" and sealed: "latest \<or> \<not> tail_dirty content p"
  shows "scan_tail fd path latest (length content) p t s = (Inr (t \<or> tail_dirty content p), s)"
proof (cases "p < length content \<and> length content < p + 32")
  case True
  then have "take (length content - p) (drop p content @ replicate (32 - (length content - p)) 0) =
      drop p content" by simp
  with True sealed show ?thesis
    by (auto simp: scan_tail_def record_header_size_def Let_def bind_apply pread_all_ok [OF ok] tail_dirty_def)
next
  case False
  then show ?thesis by (auto simp: scan_tail_def record_header_size_def tail_dirty_def)
qed

lemma scan_segment_ok:
  fixes s :: log
  assumes path_def: "path = path_join (directory s) name"
    and ok: "script s = []" "fds_ok s" and cont: "file_content s name = Some content"
    and hdr: "take 40 content = make_segment_header sid base (segment_size s)"
    and len: "length content \<le> segment_size s" and sz: "segment_size s < 2 ^ 64"
    and sid: "sid < 2 ^ 32" and base: "base < 2 ^ 64"
    and spec: "scan_spec path latest (segment_size s) content 40 base = (Inr (p, e, t), ms)"
    and sealed: "latest \<or> \<not> tail_dirty content p"
  shows "scan_segment name sid latest base s =
    (Inr (e, scanned_info sid base e p name),
     (if t \<or> tail_dirty content p then set_file name (resize p content) else id)
       (s\<lparr>next_fd := next_fd s + 1, recent_cache := foldl cb_push (recent_cache s) ms\<rparr>))"
proof -
  define fd where "fd = next_fd s"
  define s1 where "s1 = s\<lparr>open_fds := (fd, name) # open_fds s, next_fd := fd + 1\<rparr>"
  define s2 where "s2 = s1\<lparr>recent_cache := foldl cb_push (recent_cache s) ms\<rparr>"
  have len40: "40 \<le> length content" using arg_cong [OF hdr, of length] by simp
  have s1: "script s1 = []" "map_of (open_fds s1) fd = Some name" "file_content s1 name = Some content"
    "segment_size s1 = segment_size s" "recent_cache s1 = recent_cache s" "directory s1 = directory s"
    using ok cont by (simp_all add: s1_def file_content_def)
  have s2: "script s2 = []" "map_of (open_fds s2) fd = Some name" "file_content s2 name = Some content"
    using s1 by (simp_all add: s2_def file_content_def)
  have fb: "fd_bytes s1 fd content" "fd_bytes s2 fd content" using s1 s2 by (auto simp: fd_bytes_def)
  define hd where "hd = take 40 content"
  have rd: "pread_all fd 40 0 s1 = (Inr (None, hd), s1)" "length hd = 40"
    using pread_all_ok [OF s1(1) fb(1), of 40 0] len40 by (simp_all add: hd_def)
  note reads = segment_header_reads [of hd sid base "segment_size s" "[]", unfolded append_Nil2 hd_def, OF hdr,
      folded hd_def]
  have unats: "unat (of_nat sid :: u32) = sid" "unat (of_nat base :: u64) = base"
    "unat (of_nat (segment_size s) :: u64) = segment_size s"
    using sid base sz by (simp_all add: unat_of_nat)
  have recs: "scan_records fd path latest (length content) 40 base s1 = (Inr (p, e, t), s2)"
    using scan_records_refines [OF s1(1) fb(1), of path latest 40 base] spec s1(4,5) by (simp add: s2_def)
  have del: "AList.delete fd ((fd, name) # open_fds s) = open_fds s"
    using delete_fresh_fd [OF ok(2)] by (simp add: fd_def)
  have opn: "sys_open name s = (Inr (Inr fd), s1)"
    using sys_open_ok [OF ok(1) cont] by (simp add: fd_def s1_def)
  show ?thesis
    using len len40 del
    by (simp add: scan_segment_def bind_apply Let_def opn s1 s2 sys_fstat_ok [OF s1(1-3)] segment_header_size_def
        rd reads unats recs scan_tail_ok [OF s2(1) fb(2) sealed] syscalls_ok
        scanned_info_def flip: path_def)
      (simp add: s2_def s1_def fd_def set_file_def)
qed

section \<open>The log on disk\<close>

text \<open>The bytes of a segment file that holds the records \<open>rs\<close>, zero padded.\<close>

definition segment_bytes :: "nat \<Rightarrow> nat \<Rightarrow> nat \<Rightarrow> entry list \<Rightarrow> nat \<Rightarrow> byte list" where
  "segment_bytes sid base sz rs pad = make_segment_header sid base sz @ encode_entries base rs @ replicate pad 0"

fun disk_from :: "'z os_scheme \<Rightarrow> nat \<Rightarrow> nat \<Rightarrow> nat \<Rightarrow> entry list list \<Rightarrow> bool" where
  "disk_from s sz i base [] = True"
| "disk_from s sz i base (rs # segs) =
     ((\<exists>pad. file_content s (segment_name (Suc i)) = Some (segment_bytes (Suc i) base sz rs pad) \<and>
              40 + entries_size rs + pad \<le> sz) \<and>
      list_all entry_ok rs \<and> disk_from s sz (Suc i) (base + entries_size rs) segs)"

fun files_from :: "nat \<Rightarrow> 'a list \<Rightarrow> (nat \<times> string) list" where
  "files_from i [] = []"
| "files_from i (x # xs) = (Suc i, segment_name (Suc i)) # files_from (Suc i) xs"

fun index_from :: "nat \<Rightarrow> nat \<Rightarrow> entry list list \<Rightarrow> segment_info list" where
  "index_from i base [] = []"
| "index_from i base (rs # segs) =
     scanned_info (Suc i) base (base + entries_size rs) (40 + entries_size rs) (segment_name (Suc i)) #
     index_from (Suc i) (base + entries_size rs) segs"

lemma length_segment_bytes [simp]: "length (segment_bytes sid base sz rs pad) = 40 + entries_size rs + pad"
  by (simp add: segment_bytes_def)

lemma segment_bytes_parts:
  "take 40 (segment_bytes sid base sz rs pad) = make_segment_header sid base sz"
  "drop 40 (segment_bytes sid base sz rs pad) = encode_entries base rs @ replicate pad 0"
  "drop (40 + entries_size rs) (segment_bytes sid base sz rs pad) = replicate pad 0"
  by (simp_all add: segment_bytes_def)

lemma scan_spec_segment_bytes:
  assumes "list_all entry_ok rs" and "base + entries_size rs \<le> uint64_max"
    and "40 + entries_size rs + pad \<le> sz"
  shows "scan_spec path latest sz (segment_bytes sid base sz rs pad) 40 base =
    (Inr (40 + entries_size rs, base + entries_size rs, False), entry_messages base rs)"
  using scan_spec_prefix [OF segment_bytes_parts(2) assms(1,2), where sz = sz and path = path and latest = latest] assms(3)
  by (simp add: scan_spec_zero_tail segment_bytes_parts(3))

lemma tail_dirty_segment_bytes [simp]:
  "\<not> tail_dirty (segment_bytes sid base sz rs pad) (40 + entries_size rs)"
  by (simp add: tail_dirty_def segment_bytes_parts(3))

lemma disk_from_cong:
  "dir_entries s' = dir_entries s \<Longrightarrow> disk_from s' sz i base segs \<longleftrightarrow> disk_from s sz i base segs"
  for s :: "'z os_scheme" and s' :: "'y os_scheme"
  by (induction segs arbitrary: i base) (simp_all add: file_content_def)

lemma fds_ok_cong:
  "open_fds s' = open_fds s \<Longrightarrow> next_fd s \<le> next_fd s' \<Longrightarrow> fds_ok s \<Longrightarrow> fds_ok s'"
  for s :: "'z os_scheme" and s' :: "'y os_scheme"
  by (fastforce simp: fds_ok_def)

text \<open>Recovery of intact segments, in front of whatever files follow.\<close>

lemma recover_segments_intact:
  fixes s :: log
  assumes "script s = []" "fds_ok s" "disk_from s (segment_size s) i base segs"
    and "i + length segs < 2 ^ 32" "base + entries_size (concat segs) \<le> uint64_max"
    and "segment_size s < 2 ^ 64"
  shows "recover_segments i (files_from i segs @ rest) base s =
    recover_segments (i + length segs) rest (base + entries_size (concat segs))
      (s\<lparr>next_fd := next_fd s + int (length segs),
         recent_cache := foldl cb_push (recent_cache s) (entry_messages base (concat segs)),
         segment_index := segment_index s @ index_from i base segs\<rparr>)"
  using assms
proof (induction segs arbitrary: i base s)
  case (Cons rs segs)
  from Cons.prems(3) obtain pad where
    cont: "file_content s (segment_name (Suc i)) = Some (segment_bytes (Suc i) base (segment_size s) rs pad)"
    and pad: "40 + entries_size rs + pad \<le> segment_size s" and ok: "list_all entry_ok rs"
    and disk: "disk_from s (segment_size s) (Suc i) (base + entries_size rs) segs"
    by auto
  have total: "base + entries_size rs \<le> uint64_max" using Cons.prems(5) by simp
  define e p where "e = base + entries_size rs" and "p = 40 + entries_size rs"
  have scan: "scan_segment (segment_name (Suc i)) (Suc i) latest base s =
      (Inr (e, scanned_info (Suc i) base e p (segment_name (Suc i))),
       s\<lparr>next_fd := next_fd s + 1, recent_cache := foldl cb_push (recent_cache s) (entry_messages base rs)\<rparr>)"
    for latest
    using scan_segment_ok [OF refl Cons.prems(1,2) cont segment_bytes_parts(1) _ Cons.prems(6) _ _
        scan_spec_segment_bytes [OF ok total pad]] pad Cons.prems(4) total
    by (simp add: e_def p_def uint64_max_eq)
  define s' where "s' = s\<lparr>next_fd := next_fd s + 1,
      recent_cache := foldl cb_push (recent_cache s) (entry_messages base rs),
      segment_index := segment_index s @ [scanned_info (Suc i) base e p (segment_name (Suc i))]\<rparr>"
  have s': "script s' = []" "fds_ok s'" "disk_from s' (segment_size s') (Suc i) e segs"
    "segment_size s' = segment_size s"
    using Cons.prems(1,2) disk disk_from_cong [of s' s] fds_ok_cong [of s' s] by (simp_all add: s'_def e_def)
  have IH: "recover_segments (Suc i) (files_from (Suc i) segs @ rest) e s' =
    recover_segments (Suc i + length segs) rest (e + entries_size (concat segs))
      (s'\<lparr>next_fd := next_fd s' + int (length segs),
         recent_cache := foldl cb_push (recent_cache s') (entry_messages e (concat segs)),
         segment_index := segment_index s' @ index_from (Suc i) e segs\<rparr>)"
    using Cons.prems(4-6) s' by (intro Cons.IH) (simp_all add: e_def)
  show ?case
    using IH by (simp add: scan s'_def e_def p_def entry_messages_append add.assoc add.commute add.left_commute)
qed simp

section \<open>Mapping, creating and unmapping a segment\<close>

text \<open>The active mapping of a segment whose valid bytes end at \<open>wp\<close>.\<close>

definition active_of :: "int \<Rightarrow> nat \<Rightarrow> nat \<Rightarrow> nat \<Rightarrow> nat \<Rightarrow> log_mapping" where
  "active_of fd sz sid base wp = \<lparr>map_fd = fd, map_data = Some (segment_name sid), map_size = sz,
     map_path = segment_name sid, map_segment_id = sid, map_base_offset = base, map_write_position = wp\<rparr>"

lemma map_active_segment_ok:
  fixes s :: log
  assumes "script s = []" "file_content s (segment_name sid) = Some c"
  shows "map_active_segment sid base wp s = (Inr (), (set_file (segment_name sid) (resize (segment_size s) c) s)
    \<lparr>open_fds := (next_fd s, segment_name sid) # open_fds s, next_fd := next_fd s + 1,
     maps := segment_name sid # maps s, active := active_of (next_fd s) (segment_size s) sid base wp\<rparr>)"
  using assms
  by (simp add: map_active_segment_def bind_apply Let_def syscalls_ok active_of_def)
    (simp add: set_file_def)

lemma overwrite_header_zero:
  "40 \<le> sz \<Longrightarrow> overwrite 0 (make_segment_header sid base sz) (resize sz []) = segment_bytes sid base sz [] (sz - 40)"
  by (simp add: overwrite_def resize_def segment_bytes_def)

lemma create_segment_ok:
  fixes s :: log
  assumes ok: "script s = []" "fds_ok s" and new: "map_of (dir_entries s) (segment_name sid) = None"
    and sz: "40 \<le> segment_size s"
  shows "create_segment sid base s =
    (Inr (), (set_file (segment_name sid) (segment_bytes sid base (segment_size s) [] (segment_size s - 40)) s)
      \<lparr>open_fds := (next_fd s, segment_name sid) # open_fds s, next_fd := next_fd s + 2,
       maps := segment_name sid # maps s,
       durable := AList.update (segment_name sid)
         (segment_bytes sid base (segment_size s) [] (segment_size s - 40)) (durable s),
       durable_names := map fst (dir_entries s) @ [segment_name sid],
       dirty := removeAll (segment_name sid) (dirty s),
       active := active_of (next_fd s) (segment_size s) sid base 40,
       segment_index := segment_index s @ [scanned_info sid base base 40 (segment_name sid)]\<rparr>)"
proof -
  define fd name where "fd = next_fd s" and "name = segment_name sid"
  have del: "AList.delete (fd + 1) ((fd + 1, ''.'') # (fd, name) # open_fds s) = (fd, name) # open_fds s"
    using ok(2) by (force simp: AList.delete_eq filter_id_conv fds_ok_def fd_def)
  have ne: "name \<noteq> ''.''" by (simp add: name_def)
  have keys: "map fst (AList.update name e (dir_entries s)) = map fst (dir_entries s) @ [name]" for e
    using new by (auto simp: update_keys map_of_eq_None_iff name_def)
  show ?thesis
    using ok sz new del ne unfolding name_def [symmetric] 
    by (simp add: create_segment_def bind_apply Let_def syscalls_ok mem_write_def segment_path_def
        segment_header_size_def overwrite_header_zero active_of_def scanned_info_def flip: name_def fd_def)
      (simp add: set_file_def update_last keys)
qed

lemma unmap_active_ok:
  fixes s :: log
  assumes ok: "script s = []" and act: "active s = active_of fd sz sid base wp" and fd: "fd \<noteq> -1"
    and open_fd: "map_of (open_fds s) fd = Some (segment_name sid)"
    and cont: "file_content s (segment_name sid) = Some c"
  shows "unmap_active True s = (Inr (), s\<lparr>maps := remove1 (segment_name sid) (maps s),
      durable := AList.update (segment_name sid) c (durable s), dirty := removeAll (segment_name sid) (dirty s),
      open_fds := AList.delete fd (open_fds s),
      active := (active_of fd sz sid base wp)\<lparr>map_data := None, map_fd := -1, map_size := 0\<rparr>\<rparr>)"
  using assms
  by (simp add: unmap_active_def bind_apply syscalls_ok active_of_def first_error_def)

section \<open>The directory listing\<close>

definition segment_entry :: "string \<times> dirent \<Rightarrow> (nat \<times> string) option" where
  "segment_entry = (\<lambda>(name, entry). case entry of Other \<Rightarrow> None
     | Regular _ \<Rightarrow> map_option (\<lambda>segment_id. (segment_id, name)) (parse_segment_id name))"

lemma segment_files_eq: "segment_files s = sort_key fst (List.map_filter segment_entry (dir_entries s))"
  by (simp add: segment_files_def segment_entry_def)

lemma map_filter_update_regular:
  "map_of es name = Some (Regular c) \<Longrightarrow>
     List.map_filter segment_entry (AList.update name (Regular bs) es) = List.map_filter segment_entry es"
proof (induction es)
  case (Cons a es)
  obtain k v where a: "a = (k, v)" by (cases a)
  show ?case
  proof (cases "k = name")
    case True
    with Cons.prems a have "v = Regular c" by simp
    with True a show ?thesis by (simp add: List.map_filter_simps segment_entry_def)
  next
    case False
    with Cons a show ?thesis by (simp add: List.map_filter_simps split: option.splits)
  qed
qed simp

lemma segment_files_set_file:
  "file_content s name = Some c \<Longrightarrow> segment_files (set_file name bs s) = segment_files s"
  by (simp add: segment_files_eq set_file_def map_filter_update_regular file_content_Some)

lemma segment_files_cong:
  "dir_entries s' = dir_entries s \<Longrightarrow> segment_files s' = segment_files s"
  for s :: "'z os_scheme" and s' :: "'y os_scheme"
  by (simp add: segment_files_def)

lemma update_new: "map_of es k = None \<Longrightarrow> AList.update k v es = es @ [(k, v)]"
  by (induction es) (auto split: if_splits)

lemma insort_key_snoc: "f x \<le> f y \<Longrightarrow> insort_key f x (zs @ [y]) = insort_key f x zs @ [y]"
  by (induction zs) auto

lemma sort_key_snoc_max: "\<forall>x \<in> set xs. f x \<le> f y \<Longrightarrow> sort_key f (xs @ [y]) = sort_key f xs @ [y]"
  by (induction xs) (simp_all add: insort_key_snoc)

lemma files_from_append: "files_from i (xs @ ys) = files_from i xs @ files_from (i + length xs) ys"
  by (induction xs arbitrary: i) simp_all

lemma files_from_length: "length xs = length ys \<Longrightarrow> files_from i xs = files_from i ys"
  by (induction xs ys arbitrary: i rule: list_induct2) simp_all

lemma set_files_from: "set (files_from i xs) = (\<lambda>j. (Suc j, segment_name (Suc j))) ` {i..<i + length xs}"
proof (induction xs arbitrary: i)
  case (Cons x xs)
  have "{i..<Suc (i + length xs)} = insert i {Suc i..<Suc (i + length xs)}" by auto
  with Cons [of "Suc i"] show ?case by simp
qed simp

text \<open>Creating the next segment file appends it to the listing.\<close>

lemma segment_files_create:
  fixes s :: "'z os_scheme"
  assumes files: "segment_files s = files_from 0 segs" and new: "map_of (dir_entries s) (segment_name n) = None"
    and n: "n = Suc (length segs)" "n \<le> maximum_segment_id"
  shows "segment_files (set_file (segment_name n) bs s) = files_from 0 (segs @ [rs])"
proof -
  let ?es = "List.map_filter segment_entry (dir_entries s)"
  have new_entry: "segment_entry (segment_name n, Regular bs) = Some (n, segment_name n)"
    using parse_segment_name [OF n(2)] by (simp add: segment_entry_def)
  have "set ?es = set (files_from 0 segs)"
    using files unfolding segment_files_eq by (metis set_sort)
  then have "\<forall>x \<in> set ?es. fst x \<le> fst (n, segment_name n)"
    by (auto simp: set_files_from n(1))
  then have "sort_key fst (?es @ [(n, segment_name n)]) = sort_key fst ?es @ [(n, segment_name n)]"
    by (rule sort_key_snoc_max)
  moreover have "List.map_filter segment_entry (dir_entries s @ [(segment_name n, Regular bs)]) =
      ?es @ [(n, segment_name n)]"
    by (simp add: List.map_filter_def new_entry)
  ultimately show ?thesis
    using files by (simp add: segment_files_eq set_file_def update_new [OF new, unfolded n(1)] files_from_append n(1))
qed

section \<open>The invariant of an open log\<close>

text \<open>\<open>segs\<close> is the abstract contents: the records of each segment, in order.\<close>

definition log_entries :: "entry list list \<Rightarrow> entry list" where
  "log_entries segs = concat segs"

definition no_segments_after :: "'z os_scheme \<Rightarrow> nat \<Rightarrow> bool" where
  "no_segments_after s k \<longleftrightarrow>
     (\<forall>n. k < n \<longrightarrow> n \<le> maximum_segment_id \<longrightarrow> map_of (dir_entries s) (segment_name n) = None)"

definition log_inv :: "log \<Rightarrow> entry list list \<Rightarrow> bool" where
  "log_inv s segs \<longleftrightarrow>
     opened s \<and> segs \<noteq> [] \<and> length segs \<le> maximum_segment_id \<and>
     73 \<le> segment_size s \<and> segment_size s \<le> off_max \<and> fds_ok s \<and>
     segment_files s = files_from 0 segs \<and>
     no_segments_after s (length segs) \<and>
     disk_from s (segment_size s) 0 0 (butlast segs) \<and>
     file_content s (segment_name (length segs)) =
       Some (segment_bytes (length segs) (entries_size (concat (butlast segs))) (segment_size s) (last segs)
         (segment_size s - 40 - entries_size (last segs))) \<and>
     list_all entry_ok (last segs) \<and> 40 + entries_size (last segs) \<le> segment_size s \<and>
     entries_size (concat segs) \<le> uint64_max \<and> next_message_offset s = entries_size (concat segs) \<and>
     segment_index s = index_from 0 0 segs \<and>
     (\<exists>fd. active s = active_of fd (segment_size s) (length segs) (entries_size (concat (butlast segs)))
               (40 + entries_size (last segs)) \<and>
           map_of (open_fds s) fd = Some (segment_name (length segs)) \<and> 0 \<le> fd) \<and>
     cb_inv (recent_cache s) \<and>
     cb_contents (recent_cache s) = last_n (cb_capacity (recent_cache s)) (entry_messages 0 (concat segs))"

section \<open>Appending\<close>

lemma overwrite_tail:
  assumes "length a = wp" and "length h + length p \<le> k"
  shows "overwrite wp h (overwrite (wp + length h) p (a @ replicate k x)) =
    a @ h @ p @ replicate (k - length h - length p) x"
  using assms by (simp add: overwrite_def)

lemma segment_bytes_append:
  assumes "32 + length payload \<le> pad"
  shows "overwrite (40 + entries_size rs) (make_record_header (base + entries_size rs) ts payload)
      (overwrite (40 + entries_size rs + 32) payload (segment_bytes sid base sz rs pad)) =
    segment_bytes sid base sz (rs @ [(ts, payload)]) (pad - (32 + length payload))"
  using overwrite_tail [of "make_segment_header sid base sz @ encode_entries base rs" "40 + entries_size rs"
      "make_record_header (base + entries_size rs) ts payload" payload pad 0] assms
  by (simp add: segment_bytes_def encode_entries_append encode_entry_def)

lemma overwrite_Nil [simp]: "overwrite pos [] xs = xs"
  by (simp add: overwrite_def)

lemma disk_from_set_file:
  assumes "disk_from s sz i base segs" and "i + length segs < n" and "n \<le> maximum_segment_id"
  shows "disk_from (set_file (segment_name n) bs s) sz i base segs"
  using assms
proof (induction segs arbitrary: i base)
  case (Cons rs segs)
  then have "segment_name (Suc i) \<noteq> segment_name n" by (simp add: segment_name_inject)
  with Cons show ?case by auto
qed simp

lemma disk_from_append:
  "disk_from s sz i base (segs @ segs') \<longleftrightarrow> disk_from s sz i base segs \<and>
     disk_from s sz (i + length segs) (base + entries_size (concat segs)) segs'"
  by (induction segs arbitrary: i base) (auto simp: add.assoc)

text \<open>The active segment of an open log is on disk like the sealed ones.\<close>

lemma log_inv_disk: "log_inv s segs \<Longrightarrow> disk_from s (segment_size s) 0 0 segs"
proof -
  assume inv: "log_inv s segs"
  then have ne: "segs \<noteq> []" by (simp add: log_inv_def)
  then have "length segs = Suc (length segs - 1)" by simp
  with inv have "disk_from s (segment_size s) (length segs - 1) (entries_size (concat (butlast segs))) [last segs]"
    by (auto simp: log_inv_def intro!: exI [of _ "segment_size s - 40 - entries_size (last segs)"])
  with inv have "disk_from s (segment_size s) 0 0 (butlast segs @ [last segs])"
    unfolding disk_from_append by (simp add: log_inv_def)
  with ne show ?thesis by simp
qed

lemma index_from_append:
  "index_from i base (segs @ segs') = index_from i base segs @
     index_from (i + length segs) (base + entries_size (concat segs)) segs'"
  by (induction segs arbitrary: i base) (simp_all add: add.assoc)

lemma no_segments_after_cong:
  "dir_entries s' = dir_entries s \<Longrightarrow> no_segments_after s k \<Longrightarrow> no_segments_after s' k"
  for s :: "'z os_scheme" and s' :: "'y os_scheme"
  by (simp add: no_segments_after_def)

lemma no_segments_after_set_file:
  "no_segments_after s k \<Longrightarrow> n \<le> maximum_segment_id \<Longrightarrow> n \<le> k' \<Longrightarrow> k \<le> k' \<Longrightarrow>
     no_segments_after (set_file (segment_name n) bs s) k'"
  by (auto simp: no_segments_after_def set_file_def update_conv' segment_name_inject)

text \<open>The abstract effect: the record joins the newest segment.\<close>

definition add_entry :: "entry list list \<Rightarrow> entry \<Rightarrow> entry list list" where
  "add_entry segs r = butlast segs @ [last segs @ [r]]"

lemma concat_add_entry: "segs \<noteq> [] \<Longrightarrow> concat (add_entry segs r) = concat segs @ [r]"
  by (simp add: add_entry_def) (metis append_butlast_last_id concat.simps concat_append append_assoc append_Nil2)

lemma entries_size_split: "segs \<noteq> [] \<Longrightarrow>
  entries_size (concat segs) = entries_size (concat (butlast segs)) + entries_size (last segs)"
  by (metis append_butlast_last_id concat.simps concat_append append_Nil2 entries_size_simps(3))

lemma append_record_run:
  fixes s :: log
  assumes act: "active s = active_of fd sz n base wp" and cont: "file_content s (segment_name n) = Some c"
  shows "append_record now payload s =
    (let off = next_message_offset s; ts = now mod 2 ^ 64; rsize = 32 + length payload;
         c' = overwrite wp (make_record_header off ts payload) (overwrite (wp + 32) payload c)
     in (Inr off, (set_file (segment_name n) c' s)
       \<lparr>recent_cache := cb_push (recent_cache s) \<lparr>msg_offset = off, msg_timestamp_ns = ts,
            msg_payload_length = length payload mod 2 ^ 32, msg_payload = payload\<rparr>,
        dirty := List.insert (segment_name n) (dirty s),
        active := active_of fd sz n base (wp + rsize), next_message_offset := add64 off rsize,
        segment_index := butlast (segment_index s) @ [(last (segment_index s))
          \<lparr>seg_end_offset := add64 off rsize, seg_valid_bytes := wp + rsize\<rparr>]\<rparr>))"
proof (cases "payload = []")
  case True
  then show ?thesis
    using cont by (simp add: append_record_def bind_apply Let_def act record_header_size_def mem_write_def
        active_of_def) (simp add: set_file_def act active_of_def)
next
  case False
  then show ?thesis
    using cont by (simp add: append_record_def bind_apply Let_def act record_header_size_def mem_write_def
        active_of_def) (simp add: set_file_def update_last act active_of_def)
qed

lemma index_from_snoc:
  "segs \<noteq> [] \<Longrightarrow> base = entries_size (concat (butlast segs)) \<Longrightarrow> rs = last segs \<Longrightarrow>
     index_from 0 0 segs = index_from 0 0 (butlast segs) @ [scanned_info (length segs) base
       (base + entries_size rs) (40 + entries_size rs) (segment_name (length segs))]"
  using index_from_append [of 0 0 "butlast segs" "[last segs]"] by simp

lemma add_entry_simps:
  "add_entry segs r \<noteq> []" "segs \<noteq> [] \<Longrightarrow> length (add_entry segs r) = length segs"
  "butlast (add_entry segs r) = butlast segs" "last (add_entry segs r) = last segs @ [r]"
  by (simp_all add: add_entry_def)

text \<open>The state behind an \<open>append\<close> of \<open>r\<close> to the newest segment.\<close>

definition appended :: "log \<Rightarrow> entry list list \<Rightarrow> entry \<Rightarrow> int \<Rightarrow> log" where
  "appended s segs r fd =
     (let n = length segs; base = entries_size (concat (butlast segs)); rs = last segs; sz = segment_size s in
      (set_file (segment_name n) (segment_bytes n base sz (rs @ [r]) (sz - 40 - entries_size rs - entry_size r)) s)
      \<lparr>recent_cache := cb_push (recent_cache s) (entry_message (entries_size (concat segs)) r),
       dirty := List.insert (segment_name n) (dirty s),
       active := active_of fd sz n base (40 + entries_size rs + entry_size r),
       next_message_offset := entries_size (concat segs) + entry_size r,
       segment_index := index_from 0 0 (add_entry segs r)\<rparr>)"

lemma append_record_appended:
  assumes inv: "log_inv s segs" and r: "r = (now mod 2 ^ 64, payload)"
    and act: "active s = active_of fd (segment_size s) (length segs) (entries_size (concat (butlast segs))) (40 + entries_size (last segs))"
    and fits: "40 + entries_size (last segs) + entry_size r \<le> segment_size s"
    and plen: "length payload < 2 ^ 32" and off: "entries_size (concat segs) + entry_size r \<le> uint64_max"
  shows "append_record now payload s = (Inr (entries_size (concat segs)), appended s segs r fd)"
proof -
  let ?n = "length segs"
  define sz base rs ts where "sz = segment_size s" and "base = entries_size (concat (butlast segs))"
    and "rs = last segs" and "ts = now mod 2 ^ 64"
  define pad wp where "pad = sz - 40 - entries_size rs" and "wp = 40 + entries_size rs"
  have ne: "segs \<noteq> []" and cont: "file_content s (segment_name ?n) = Some (segment_bytes ?n base sz rs pad)"
    using inv by (auto simp: log_inv_def sz_def base_def rs_def pad_def)
  have total: "entries_size (concat segs) = base + entries_size rs"
    using entries_size_split [OF ne] by (simp add: base_def rs_def)
  have size: "entry_size r = 32 + length payload" and r': "r = (ts, payload)"
    by (simp_all add: r ts_def entry_size_eq)
  have bytes: "overwrite wp (make_record_header (base + entries_size rs) ts payload)
      (overwrite (wp + 32) payload (segment_bytes ?n base sz rs pad)) = segment_bytes ?n base sz (rs @ [r]) (pad - entry_size r)"
    unfolding r' wp_def using fits size by (subst segment_bytes_append) (auto simp: pad_def sz_def rs_def entry_size_eq)
  have "index_from 0 0 (add_entry segs r) = index_from 0 0 (butlast segs) @ [scanned_info ?n base
      (base + entries_size rs + entry_size r) (wp + entry_size r) (segment_name ?n)]"
    using index_from_snoc [of "add_entry segs r" base "rs @ [r]"] ne
    by (simp add: add_entry_simps base_def rs_def wp_def add.assoc)
  moreover have "segment_index s = index_from 0 0 segs" "next_message_offset s = base + entries_size rs"
    using inv total by (simp_all add: log_inv_def)
  moreover have "add64 (base + entries_size rs) (entry_size r) = base + entries_size rs + entry_size r"
    using off total by (simp add: add64_exact uint64_max_eq)
  ultimately show ?thesis
    using append_record_run [OF act [folded sz_def base_def rs_def wp_def] cont, of now payload] plen
      index_from_snoc [OF ne base_def rs_def]
    unfolding Let_def ts_def [symmetric] size [symmetric] appended_def total
      sz_def [symmetric] base_def [symmetric] rs_def [symmetric] wp_def [symmetric] pad_def [symmetric]
    by (simp add: bytes entry_message_def r' scanned_info_def)
qed

lemma log_inv_appended:
  assumes inv: "log_inv s segs" and r: "entry_ok r"
    and fd: "map_of (open_fds s) fd = Some (segment_name (length segs))" "0 \<le> fd"
    and fits: "40 + entries_size (last segs) + entry_size r \<le> segment_size s"
    and off: "entries_size (concat segs) + entry_size r \<le> uint64_max"
  shows "log_inv (appended s segs r fd) (add_entry segs r)"
  unfolding log_inv_def
proof (intro conjI)
  let ?n = "length segs" and ?s' = "appended s segs r fd"
  define c where "c = segment_bytes ?n (entries_size (concat (butlast segs))) (segment_size s) (last segs @ [r])
      (segment_size s - 40 - entries_size (last segs) - entry_size r)"
  have ne: "segs \<noteq> []" and n: "?n \<le> maximum_segment_id" "0 < ?n" and cache: "cb_inv (recent_cache s)"
    and cont: "\<exists>c0. file_content s (segment_name ?n) = Some c0"
    using inv by (auto simp: log_inv_def)
  have dir: "dir_entries ?s' = dir_entries (set_file (segment_name ?n) c s)" by (simp add: appended_def c_def Let_def)
  show "\<exists>fd. active ?s' = active_of fd (segment_size ?s') (length (add_entry segs r))
        (entries_size (concat (butlast (add_entry segs r)))) (40 + entries_size (last (add_entry segs r))) \<and>
      map_of (open_fds ?s') fd = Some (segment_name (length (add_entry segs r))) \<and> 0 \<le> fd"
    using fd ne by (intro exI [of _ fd]) (simp add: appended_def Let_def add_entry_simps add.assoc)
  show "file_content ?s' (segment_name (length (add_entry segs r))) =
      Some (segment_bytes (length (add_entry segs r)) (entries_size (concat (butlast (add_entry segs r))))
        (segment_size ?s') (last (add_entry segs r)) (segment_size ?s' - 40 - entries_size (last (add_entry segs r))))"
    using ne by (simp add: appended_def Let_def add_entry_simps diff_diff_eq add.assoc)
  show "disk_from ?s' (segment_size ?s') 0 0 (butlast (add_entry segs r))"
    using disk_from_set_file [of s "segment_size s" 0 0 "butlast segs" ?n c] disk_from_cong [OF dir] inv n
    by (simp add: log_inv_def add_entry_simps) (simp add: appended_def Let_def)
  show "segment_files ?s' = files_from 0 (add_entry segs r)"
    using cont segment_files_set_file [of s "segment_name ?n" _ c] segment_files_cong [OF dir] inv ne files_from_length [of "add_entry segs r" segs 0]
    by (auto simp: log_inv_def add_entry_simps)
  show "no_segments_after ?s' (length (add_entry segs r))"
    using no_segments_after_set_file [of s ?n ?n ?n c] no_segments_after_cong [OF dir] inv n ne
    by (simp add: log_inv_def add_entry_simps)
  show "cb_contents (recent_cache ?s') = last_n (cb_capacity (recent_cache ?s')) (entry_messages 0 (concat (add_entry segs r)))"
    using inv cache concat_add_entry [OF ne, of r]
    by (simp add: appended_def Let_def log_inv_def ring.contents_push ring.capacity_push entry_messages_append last_n_append_absorb)
  show "fds_ok ?s'" using inv fds_ok_cong [of ?s' s] by (simp add: appended_def Let_def log_inv_def)
  show "cb_inv (recent_cache ?s')" using cache by (simp add: appended_def Let_def ring.invar_push)
qed (use inv fits off r concat_add_entry [of segs r] in
    \<open>simp_all add: appended_def Let_def log_inv_def add_entry_simps add.assoc\<close>)

lemma append_record_ok:
  assumes inv: "log_inv s segs" and r: "r = (now mod 2 ^ 64, payload)"
    and fits: "40 + entries_size (last segs) + entry_size r \<le> segment_size s"
    and plen: "length payload < 2 ^ 32" and off: "entries_size (concat segs) + entry_size r \<le> uint64_max"
  shows "\<exists>s'. append_record now payload s = (Inr (entries_size (concat segs)), s') \<and>
    log_inv s' (add_entry segs r) \<and> script s' = script s \<and> segment_size s' = segment_size s"
proof -
  from inv obtain fd where act: "active s = active_of fd (segment_size s) (length segs) (entries_size (concat (butlast segs)))
      (40 + entries_size (last segs))"
    and fd: "map_of (open_fds s) fd = Some (segment_name (length segs))" "0 \<le> fd" by (auto simp: log_inv_def)
  have "entry_ok r" using plen by (simp add: r entry_ok_def)
  then have "log_inv (appended s segs r fd) (add_entry segs r)" by (rule log_inv_appended [OF inv _ fd fits off])
  then show ?thesis using append_record_appended [OF inv r act fits plen off]
    by (intro exI [of _ "appended s segs r fd"]) (simp add: appended_def Let_def)
qed

text \<open>Rolling over to a fresh segment keeps the contents.\<close>

lemma rollover_ok:
  assumes inv: "log_inv s segs" and ok: "script s = []" and n: "length segs < maximum_segment_id"
  shows "\<exists>s'. bind (unmap_active True) (\<lambda>_. create_segment (length segs + 1) (entries_size (concat segs))) s = (Inr (), s') \<and>
    log_inv s' (segs @ [[]]) \<and> script s' = [] \<and> segment_size s' = segment_size s \<and>
    dir_entries s' = dir_entries (set_file (segment_name (Suc (length segs)))
      (segment_bytes (Suc (length segs)) (entries_size (concat segs)) (segment_size s) [] (segment_size s - 40)) s) \<and>
    map_of (durable s') = (map_of (durable s))(segment_name (length segs) := file_content s (segment_name (length segs)),
      segment_name (Suc (length segs)) \<mapsto>
        segment_bytes (Suc (length segs)) (entries_size (concat segs)) (segment_size s) [] (segment_size s - 40)) \<and>
    durable_names s' = map fst (dir_entries s')"
proof -
  let ?n = "length segs"
  define sz total where "sz = segment_size s" and "total = entries_size (concat segs)"
  define c where "c = segment_bytes ?n (entries_size (concat (butlast segs))) sz (last segs) (sz - 40 - entries_size (last segs))"
  define new where "new = segment_bytes (Suc ?n) total sz [] (sz - 40)"
  from inv obtain fd where act: "active s = active_of fd sz ?n (entries_size (concat (butlast segs))) (40 + entries_size (last segs))"
    and fd: "map_of (open_fds s) fd = Some (segment_name ?n)" "0 \<le> fd"
    by (auto simp: log_inv_def sz_def)
  have ne: "segs \<noteq> []" and cont: "file_content s (segment_name ?n) = Some c" and fds: "fds_ok s"
    and sz: "73 \<le> sz" and free: "map_of (dir_entries s) (segment_name (Suc ?n)) = None"
    using inv n by (auto simp: log_inv_def c_def sz_def no_segments_after_def)
  define s1 where "s1 = s\<lparr>maps := remove1 (segment_name ?n) (maps s),
      durable := AList.update (segment_name ?n) c (durable s), dirty := removeAll (segment_name ?n) (dirty s), open_fds := AList.delete fd (open_fds s),
      active := (active_of fd sz ?n (entries_size (concat (butlast segs))) (40 + entries_size (last segs)))
        \<lparr>map_data := None, map_fd := -1, map_size := 0\<rparr>\<rparr>"
  have unmap: "unmap_active True s = (Inr (), s1)"
    using unmap_active_ok [OF ok act _ fd(1) cont] fd(2) by (simp add: s1_def)
  have s1: "script s1 = []" "fds_ok s1" "map_of (dir_entries s1) (segment_name (Suc ?n)) = None"
    "segment_size s1 = sz" "next_fd s1 = next_fd s" "segment_index s1 = index_from 0 0 segs"
    using ok fds free inv by (auto simp: s1_def sz_def fds_ok_def AList.delete_eq log_inv_def)
  define s' where "s' = (set_file (segment_name (Suc ?n)) new s1)
      \<lparr>open_fds := (next_fd s, segment_name (Suc ?n)) # open_fds s1, next_fd := next_fd s + 2,
       maps := segment_name (Suc ?n) # maps s1, durable := AList.update (segment_name (Suc ?n)) new (durable s1),
       durable_names := map fst (dir_entries s) @ [segment_name (Suc ?n)], dirty := removeAll (segment_name (Suc ?n)) (dirty s1),
       active := active_of (next_fd s) sz (Suc ?n) total 40,
       segment_index := index_from 0 0 segs @ [scanned_info (Suc ?n) total total 40 (segment_name (Suc ?n))]\<rparr>"
  have create: "create_segment (?n + 1) total s1 = (Inr (), s')"
    using create_segment_ok [OF s1(1-3), of total] sz s1 by (simp add: s'_def new_def) (simp add: s1_def)
  have entries': "dir_entries s' = dir_entries (set_file (segment_name (Suc ?n)) new s)"
    by (simp add: s'_def s1_def set_file_def)
  have disk: "disk_from s' sz 0 0 segs"
  proof -
    have "disk_from s sz 0 0 segs" using log_inv_disk [OF inv] by (simp add: sz_def)
    then have "disk_from (set_file (segment_name (Suc ?n)) new s) sz 0 0 segs"
      using ne n by (intro disk_from_set_file) simp_all
    then show ?thesis using disk_from_cong [OF entries'] by blast
  qed
  have "log_inv s' (segs @ [[]])"
    unfolding log_inv_def
  proof (intro conjI)
    show "\<exists>fd. active s' = active_of fd (segment_size s') (length (segs @ [[]]))
          (entries_size (concat (butlast (segs @ [[]])))) (40 + entries_size (last (segs @ [[]]))) \<and>
        map_of (open_fds s') fd = Some (segment_name (length (segs @ [[]]))) \<and> 0 \<le> fd"
      using fds by (intro exI [of _ "next_fd s"]) (simp add: s'_def s1(4) total_def fds_ok_def)
    show "segment_files s' = files_from 0 (segs @ [[]])"
      using segment_files_create [of s segs "Suc ?n" new "[]"] free segment_files_cong [OF entries'] inv n
      by (simp add: log_inv_def)
    show "no_segments_after s' (length (segs @ [[]]))"
      using no_segments_after_set_file [of s ?n "Suc ?n" "Suc ?n" new] no_segments_after_cong [OF entries'] inv n
      by (simp add: log_inv_def)
    show "fds_ok s'" using s1(2,5) by (fastforce simp: s'_def fds_ok_def)
  qed (use inv disk n sz s1(4) in \<open>simp_all add: s'_def s1_def log_inv_def total_def new_def sz_def index_from_append\<close>)
  moreover have "script s' = []" "segment_size s' = sz" using s1 by (simp_all add: s'_def)
  moreover have "map_of (durable s') = (map_of (durable s))(segment_name ?n \<mapsto> c, segment_name (Suc ?n) \<mapsto> new)"
    by (simp add: s'_def s1_def update_conv')
  moreover have "durable_names s' = map fst (dir_entries s')"
    unfolding entries' using free by (auto simp: s'_def set_file_def update_keys map_of_eq_None_iff)
  ultimately show ?thesis using unmap create entries' cont by (auto simp: bind_apply total_def sz_def new_def)
qed

lemma rollover_append:
  assumes inv: "log_inv s segs" and ok: "script s = []" and r: "r = (now mod 2 ^ 64, payload)"
    and n: "length segs < maximum_segment_id" and plen: "length payload < 2 ^ 32"
    and fits: "entry_size r \<le> segment_size s - 40" and off: "entries_size (concat segs) + entry_size r \<le> uint64_max"
  shows "\<exists>s1 s'. bind (unmap_active True) (\<lambda>_. create_segment (length segs + 1) (entries_size (concat segs))) s = (Inr (), s1) \<and>
    append_record now payload s1 = (Inr (entries_size (concat segs)), s') \<and>
    log_inv s' (segs @ [[r]]) \<and> script s' = [] \<and> segment_size s' = segment_size s"
proof -
  obtain s1 where roll: "bind (unmap_active True) (\<lambda>_. create_segment (length segs + 1) (entries_size (concat segs))) s = (Inr (), s1)"
    and s1: "log_inv s1 (segs @ [[]])" "script s1 = []" "segment_size s1 = segment_size s"
    using rollover_ok [OF inv ok n] by auto
  have "73 \<le> segment_size s" using inv by (simp add: log_inv_def)
  then have "\<exists>s'. append_record now payload s1 = (Inr (entries_size (concat (segs @ [[]]))), s') \<and>
      log_inv s' (add_entry (segs @ [[]]) r) \<and> script s' = script s1 \<and> segment_size s' = segment_size s1"
    using plen off fits s1(3) by (intro append_record_ok [OF s1(1) r]) simp_all
  moreover have "add_entry (segs @ [[]]) r = segs @ [[r]]" by (simp add: add_entry_def)
  ultimately show ?thesis using roll s1(2,3) by auto
qed

section \<open>The abstract append and its refinement\<close>

definition append_spec :: "nat \<Rightarrow> entry list list \<Rightarrow> nat \<Rightarrow> byte list \<Rightarrow> exn + entry list list" where
  "append_spec sz segs now payload =
     (let n = record_header_size + length payload; r = (now mod 2 ^ 64, payload) in
      if length payload > uint32_max
      then Inl (Length_error ''payload exceeds the on-disk format limit'')
      else if n > sz - segment_header_size
      then Inl (Length_error ''record is too large to fit in an empty segment'')
      else if entries_size (log_entries segs) + n > uint64_max
      then Inl (Overflow_error ''message offset space is exhausted'')
      else if segment_header_size + entries_size (last segs) + n \<le> sz then Inr (add_entry segs r)
      else if length segs \<ge> maximum_segment_id
      then Inl (Overflow_error ''segment id space is exhausted'')
      else Inr (segs @ [[r]]))"

lemma append_spec_Inr:
  assumes "append_spec sz segs now payload = Inr segs'" and "segs \<noteq> []"
  shows "concat segs' = concat segs @ [(now mod 2 ^ 64, payload)]"
  using assms concat_add_entry [of segs] by (auto simp: append_spec_def Let_def split: if_splits)

lemma append_spec_length: "append_spec sz segs now payload = Inr segs' \<Longrightarrow> segs \<noteq> [] \<Longrightarrow> length segs' \<le> Suc (length segs)"
  by (auto simp: append_spec_def Let_def add_entry_simps split: if_splits)

lemma log_inv_fields:
  assumes "log_inv s segs"
  shows "map_size (active s) = segment_size s" "map_write_position (active s) = 40 + entries_size (last segs)"
    "map_segment_id (active s) = length segs" "opened s" "next_message_offset s = entries_size (concat segs)"
    "k \<le> segment_size s \<Longrightarrow> sub64 (segment_size s) k = segment_size s - k"
    "k \<le> segment_size s \<Longrightarrow> uint64_max - k < m \<longleftrightarrow> uint64_max < m + k"
proof -
  from assms have sz: "segment_size s < 2 ^ 64" by (simp add: log_inv_def off_max_def)
  show "k \<le> segment_size s \<Longrightarrow> sub64 (segment_size s) k = segment_size s - k" using sz by (intro sub64_exact) simp_all
  show "k \<le> segment_size s \<Longrightarrow> uint64_max - k < m \<longleftrightarrow> uint64_max < m + k" using sz by (auto simp: uint64_max_eq)
qed (use assms in \<open>auto simp: log_inv_def active_of_def\<close>)

text \<open>A payload that the size checks refuse, and one that they let through: a rollover when the newest
  segment has no room, then the record.\<close>

lemmas append_sizes = record_header_size_def segment_header_size_def Let_def

lemma log_append_refused:
  assumes inv: "log_inv s segs" and n: "n = 32 + length payload"
    and bad: "length payload > uint32_max \<or> n > segment_size s - 40 \<or> entries_size (concat segs) + n > uint64_max"
  shows "\<exists>e. append_spec (segment_size s) segs now payload = Inl e \<and> log_append now payload s = (Inl e, s)"
proof -
  have "40 \<le> segment_size s" using inv by (simp add: log_inv_def)
  then show ?thesis using bad n log_inv_fields(7) [OF inv, of n]
    by (auto simp: log_append_def bind_apply append_spec_def log_entries_def append_sizes log_inv_fields(1-6) [OF inv])
qed

lemma log_append_passed:
  assumes inv: "log_inv s segs" and n: "n = 32 + length payload"
    and good: "length payload \<le> uint32_max" "n \<le> segment_size s - 40" "entries_size (concat segs) + n \<le> uint64_max"
  shows "log_append now payload s = bind (if 40 + entries_size (last segs) > segment_size s - n then
             if length segs \<ge> maximum_segment_id
             then throw (Overflow_error ''segment id space is exhausted'')
             else on_exn (bind (unmap_active True) (\<lambda>_. create_segment (length segs + 1) (entries_size (concat segs))))
                 (\<lambda>s. s\<lparr>opened := False\<rparr>)
           else ret ()) (\<lambda>_. append_record now payload) s"
proof -
  have "40 \<le> segment_size s" using inv by (simp add: log_inv_def)
  then show ?thesis using good n log_inv_fields(7) [OF inv, of n]
    by (simp add: log_append_def bind_apply append_sizes log_inv_fields(1-6) [OF inv])
qed

lemma log_append_refines:
  assumes inv: "log_inv s segs" and ok: "script s = []"
  shows "case append_spec (segment_size s) segs now payload of
      Inl e \<Rightarrow> log_append now payload s = (Inl e, s)
    | Inr segs' \<Rightarrow> \<exists>s'. log_append now payload s = (Inr (entries_size (log_entries segs)), s') \<and>
        log_inv s' segs' \<and> script s' = [] \<and> segment_size s' = segment_size s"
proof -
  define sz total n r where "sz = segment_size s" and "total = entries_size (concat segs)"
    and "n = 32 + length payload" and "r = (now mod 2 ^ 64, payload)"
  have size: "entry_size r = n" by (simp add: r_def n_def entry_size_eq)
  have sz: "73 \<le> sz" using inv by (simp add: log_inv_def sz_def)
  note spec = append_spec_def log_entries_def append_sizes
  consider "length payload > uint32_max \<or> n > sz - 40 \<or> total + n > uint64_max"
    | (go) "length payload \<le> uint32_max" "n \<le> sz - 40" "total + n \<le> uint64_max" by linarith
  then show ?thesis
  proof cases
    case 1
    then show ?thesis using log_append_refused [OF inv n_def, of now] by (auto simp: sz_def total_def)
  next
    case go
    then have plen: "length payload < 2 ^ 32" and nz: "n \<le> sz" by (simp_all add: uint32_max_def)
    note body = log_append_passed [OF inv n_def go [unfolded sz_def total_def], of now, folded sz_def total_def]
    consider (fits) "40 + entries_size (last segs) + n \<le> sz"
      | (out) "40 + entries_size (last segs) > sz - n" "length segs \<ge> maximum_segment_id"
      | (roll) "40 + entries_size (last segs) > sz - n" "length segs < maximum_segment_id" using nz by linarith
    then show ?thesis
    proof cases
      case fits
      then have "log_append now payload s = append_record now payload s" "append_spec sz segs now payload = Inr (add_entry segs r)"
        using body go nz by (auto simp: bind_apply spec r_def simp flip: n_def total_def)
      moreover have "\<exists>s'. append_record now payload s = (Inr (entries_size (concat segs)), s') \<and>
          log_inv s' (add_entry segs r) \<and> script s' = script s \<and> segment_size s' = segment_size s"
        using fits plen go size by (intro append_record_ok [OF inv r_def]) (simp_all add: sz_def total_def)
      ultimately show ?thesis using ok by (simp add: log_entries_def flip: sz_def)
    next
      case out
      with body go nz show ?thesis by (auto simp: bind_apply spec simp flip: n_def sz_def total_def)
    next
      case roll
      then obtain s1 s' where "bind (unmap_active True) (\<lambda>_. create_segment (length segs + 1) total) s = (Inr (), s1)"
        and s': "append_record now payload s1 = (Inr total, s')" "log_inv s' (segs @ [[r]])" "script s' = []" "segment_size s' = sz"
        using rollover_append [OF inv ok r_def] go plen size by (auto simp: sz_def total_def)
      then have "log_append now payload s = (Inr total, s')" using body roll by (simp add: bind_apply on_exn_apply)
      moreover have "append_spec sz segs now payload = Inr (segs @ [[r]])"
        using roll go nz by (auto simp: spec r_def simp flip: n_def total_def)
      ultimately show ?thesis using s' by (simp add: log_entries_def sz_def total_def)
    qed
  qed
qed

end
