(* ===== verification/Log_Recovery.thy ===== *)
theory Log_Recovery
  imports Log_Invariant
begin

text \<open>
  Opening a log. A fresh directory gives an empty log; an existing directory gives back the
  sealed segments unchanged and, of the newest segment, the records in front of whatever a
  crash left behind. Damage to a sealed segment makes \<open>open\<close> fail. Closing and reopening is
  the identity on the contents.
\<close>

section \<open>The newest segment\<close>

lemma scan_spec_end_clean:
  assumes "scan_spec path latest sz content pos e = (Inr (p, e', False), ms)" and "p + 32 \<le> length content"
  shows "list_all (\<lambda>b. b = 0) (drop p content)"
  using assms(1)
proof (induction "length content - pos" arbitrary: pos e ms rule: less_induct)
  case less
  show ?case
  proof (cases "pos + 32 \<le> length content")
    case False
    with less.prems assms(2) show ?thesis by (subst (asm) scan_spec.simps) auto
  next
    case True
    show ?thesis
    proof (cases "\<exists>m. record_spec path latest sz content pos e = Inr (Scan_record m)")
      case False
      with True less.prems have "record_spec path latest sz content pos e = Inr (Scan_end False)" and "p = pos"
        by (subst (asm) scan_spec.simps; auto split: sum.splits scan_verdict.splits)+
      then show ?thesis by (auto simp: record_spec_def Let_def split: if_splits)
    next
      case rec: True
      then obtain m where m: "record_spec path latest sz content pos e = Inr (Scan_record m)" by blast
      define n where "n = 32 + msg_payload_length m"
      obtain ms' where "scan_spec path latest sz content (pos + n) (e + n) = (Inr (p, e', False), ms')"
        using less.prems True m by (subst (asm) scan_spec.simps) (auto simp: Let_def n_def split: prod.splits)
      then show ?thesis using less.hyps [of "pos + n" "e + n" ms'] True by (simp add: n_def)
    qed
  qed
qed

text \<open>After the scan of the newest segment and the re-mapping at full size, the file holds the
  decoded records and zero padding, whatever the tail was.\<close>

lemma resize_after_scan:
  assumes spec: "scan_spec path True sz content 40 base = (Inr (p, e, t), ms)"
    and hdr: "take 40 content = make_segment_header sid base sz" and len: "length content \<le> sz"
    and rs: "rs = map message_entry ms"
  shows "resize sz (if t \<or> tail_dirty content p then resize p content else content) =
    segment_bytes sid base sz rs (sz - 40 - entries_size rs)"
proof -
  have len40: "40 \<le> length content" using arg_cong [OF hdr, of length] by simp
  note sound = scan_spec_sound [OF spec len40 rs]
  have p: "p = 40 + entries_size rs" using sound by blast
  have body: "drop 40 content = encode_entries base rs @ drop p content" using sound by blast
  have "length (drop 40 content) = entries_size rs + length (drop p content)" by (subst body) simp
  then have plen: "p \<le> length content" using len40 p by (cases "p \<le> length content") auto
  have front: "take p content = make_segment_header sid base sz @ encode_entries base rs"
    using take_add [of 40 "entries_size rs" content] body by (simp add: p hdr)
  show ?thesis
  proof (cases "t \<or> tail_dirty content p")
    case True
    then show ?thesis
      using plen len front by (simp add: resize_def segment_bytes_def p)
  next
    case False
    have "list_all (\<lambda>b. b = 0) (drop p content)"
    proof (cases "p + 32 \<le> length content")
      case True
      then show ?thesis using scan_spec_end_clean [of path True sz content 40 base p e ms] spec False by simp
    next
      case short: False
      then show ?thesis using False plen by (auto simp: tail_dirty_def)
    qed
    then have "drop p content = replicate (length content - p) 0"
      using replicate_length_same [of "drop p content" 0] by (auto simp: list_all_iff)
    then have "content = (make_segment_header sid base sz @ encode_entries base rs) @ replicate (length content - p) 0"
      by (metis append_take_drop_id front)
    then have "resize sz content = (make_segment_header sid base sz @ encode_entries base rs) @
        replicate (length content - p) 0 @ replicate (sz - length content) 0"
      using len by (simp add: resize_def)
    with False len plen show ?thesis
      by (simp add: segment_bytes_def p flip: replicate_add)
  qed
qed

section \<open>Opening an existing log\<close>

text \<open>A directory as a run of the program leaves it, also after a crash: intact sealed
  segments, and a newest segment with a valid header and any bytes behind it.\<close>

definition disk_image :: "'z os_scheme \<Rightarrow> nat \<Rightarrow> entry list list \<Rightarrow> byte list \<Rightarrow> bool" where
  "disk_image s sz sealed body \<longleftrightarrow>
     segment_files s = files_from 0 (sealed @ [[]]) \<and> no_segments_after s (Suc (length sealed)) \<and>
     Suc (length sealed) \<le> maximum_segment_id \<and> disk_from s sz 0 0 sealed \<and>
     file_content s (segment_name (Suc (length sealed))) =
       Some (make_segment_header (Suc (length sealed)) (entries_size (concat sealed)) sz @ body) \<and>
     40 + length body \<le> sz"

lemma log_inv_mapped:
  fixes s :: "'z os_scheme"
  assumes img: "disk_image s sz sealed body" and n: "n = length sealed"
    and base: "base = entries_size (concat sealed)"
    and sz: "segment_size s' = sz" "73 \<le> sz" "sz \<le> off_max"
    and good: "list_all entry_ok rs" "entries_size rs \<le> length body" "base + entries_size rs \<le> uint64_max"
    and disk: "dir_entries s' = dir_entries (set_file (segment_name (Suc n))
        (segment_bytes (Suc n) base sz rs (sz - 40 - entries_size rs)) s)"
    and fds: "fds_ok s" "next_fd s \<le> fd" "open_fds s' = (fd, segment_name (Suc n)) # open_fds s" "next_fd s' = fd + 1"
    and act: "active s' = active_of fd sz (Suc n) base (40 + entries_size rs)"
    and mem: "opened s'" "next_message_offset s' = base + entries_size rs" "segment_index s' = index_from 0 0 (sealed @ [rs])"
    and cache: "cb_inv (recent_cache s')"
      "cb_contents (recent_cache s') = last_n (cb_capacity (recent_cache s')) (entry_messages 0 (concat (sealed @ [rs])))"
  shows "log_inv s' (sealed @ [rs])"
  unfolding log_inv_def
proof (intro conjI)
  let ?name = "segment_name (Suc n)"
  let ?final = "segment_bytes (Suc n) base sz rs (sz - 40 - entries_size rs)"
  have I: "segment_files s = files_from 0 (sealed @ [[]])" "no_segments_after s (Suc n)"
    "Suc n \<le> maximum_segment_id" "disk_from s sz 0 0 sealed"
    "file_content s ?name = Some (make_segment_header (Suc n) base sz @ body)"
    using img by (simp_all add: disk_image_def n base)
  show "disk_from s' (segment_size s') 0 0 (butlast (sealed @ [rs]))"
    using disk_from_set_file [OF I(4), of "Suc n" ?final] I(3) disk_from_cong [OF disk] by (simp add: sz n)
  show "segment_files s' = files_from 0 (sealed @ [rs])"
    using segment_files_set_file [OF I(5), of ?final] segment_files_cong [OF disk] I(1) by (simp add: files_from_append)
  show "no_segments_after s' (length (sealed @ [rs]))"
    using no_segments_after_set_file [OF I(2,3), of "Suc n" ?final] no_segments_after_cong [OF disk] by (simp add: n)
  show "file_content s' (segment_name (length (sealed @ [rs]))) = Some (segment_bytes (length (sealed @ [rs]))
      (entries_size (concat (butlast (sealed @ [rs])))) (segment_size s') (last (sealed @ [rs]))
      (segment_size s' - 40 - entries_size (last (sealed @ [rs]))))"
    using disk by (simp add: file_content_def set_file_def update_conv' sz n base)
  show "fds_ok s'" using fds by (fastforce simp: fds_ok_def)
  show "\<exists>fd. active s' = active_of fd (segment_size s') (length (sealed @ [rs]))
        (entries_size (concat (butlast (sealed @ [rs])))) (40 + entries_size (last (sealed @ [rs]))) \<and>
      map_of (open_fds s') fd = Some (segment_name (length (sealed @ [rs]))) \<and> 0 \<le> fd"
    using act fds by (intro exI [of _ fd]) (simp add: sz n base fds_ok_def)
qed (use img good mem cache sz n base in \<open>simp_all add: disk_image_def\<close>)

text \<open>The recovery loop over intact sealed segments and the newest one, of which the scan keeps the
  records up to position \<open>p\<close>: what is left of its file, and the state behind the loop.\<close>

definition kept_bytes :: "byte list \<Rightarrow> nat \<Rightarrow> bool \<Rightarrow> byte list" where
  "kept_bytes content p t = (if t \<or> tail_dirty content p then resize p content else content)"

definition recovered :: "log \<Rightarrow> entry list list \<Rightarrow> byte list \<Rightarrow> nat \<Rightarrow> nat \<Rightarrow> bool \<Rightarrow> message list \<Rightarrow> log" where
  "recovered s sealed content p e t ms =
     (let n = length sealed; base = entries_size (concat sealed); name = segment_name (Suc n) in
      (if t \<or> tail_dirty content p then set_file name (resize p content) else id)
        (s\<lparr>next_fd := next_fd s + int n + 1,
           recent_cache := foldl cb_push (recent_cache s) (entry_messages 0 (concat sealed) @ ms)\<rparr>)
      \<lparr>segment_index := index_from 0 0 sealed @ [scanned_info (Suc n) base e p name]\<rparr>)"

lemma recover_segments_image:
  fixes s :: log
  assumes img: "disk_image s (segment_size s) sealed body" and ok: "script s = []" "fds_ok s" and sz: "segment_size s \<le> off_max"
    and content: "content = make_segment_header (Suc (length sealed)) (entries_size (concat sealed)) (segment_size s) @ body"
    and empty: "segment_index s = []" and base: "entries_size (concat sealed) \<le> uint64_max"
    and spec: "scan_spec (path_join (directory s) (segment_name (Suc (length sealed)))) True (segment_size s) content 40
        (entries_size (concat sealed)) = (Inr (p, e, t), ms)"
  shows "recover_segments 0 (segment_files s) 0 s = (Inr e, recovered s sealed content p e t ms)"
proof -
  let ?n = "length sealed" and ?name = "segment_name (Suc (length sealed))" and ?base = "entries_size (concat sealed)"
  have I: "segment_files s = files_from 0 sealed @ [(Suc ?n, ?name)]" "Suc ?n \<le> maximum_segment_id"
    "disk_from s (segment_size s) 0 0 sealed" "file_content s ?name = Some content" "length content \<le> segment_size s"
    using img by (simp_all add: disk_image_def content files_from_append)
  have bounds: "?n < 2 ^ 32" "Suc ?n < 2 ^ 32" "?base < 2 ^ 64" "segment_size s < 2 ^ 64"
    using I(2) base sz by (simp_all add: maximum_segment_id_def uint64_max_eq off_max_def)
  define s1 where "s1 = s\<lparr>next_fd := next_fd s + int ?n,
      recent_cache := foldl cb_push (recent_cache s) (entry_messages 0 (concat sealed)), segment_index := index_from 0 0 sealed\<rparr>"
  have s1: "script s1 = []" "fds_ok s1" "file_content s1 ?name = Some content" "segment_size s1 = segment_size s" "directory s1 = directory s"
    using ok I(4) fds_ok_cong [of s1 s] by (simp_all add: s1_def)
  have "recover_segments 0 (segment_files s) 0 s = recover_segments ?n [(Suc ?n, ?name)] ?base s1"
    using recover_segments_intact [OF ok I(3), of "[(Suc ?n, ?name)]"] bounds base by (simp add: I(1) s1_def empty)
  moreover have "scan_segment ?name (Suc ?n) True ?base s1 = (Inr (e, scanned_info (Suc ?n) ?base e p ?name),
      (if t \<or> tail_dirty content p then set_file ?name (resize p content) else id)
        (s1\<lparr>next_fd := next_fd s1 + 1, recent_cache := foldl cb_push (recent_cache s1) ms\<rparr>))"
    using scan_segment_ok [OF refl s1(1-3), where sid = "Suc ?n" and base = ?base and latest = True, of p e t ms] I(5) bounds spec
    by (simp add: s1(4,5) content)
  ultimately show ?thesis by (simp add: recovered_def Let_def s1_def) (simp add: set_file_def)
qed

lemma recovered_fields:
  fixes s :: log
  assumes "file_content s (segment_name (Suc (length sealed))) = Some content"
  shows "file_content (recovered s sealed content p e t ms) (segment_name (Suc (length sealed))) = Some (kept_bytes content p t)"
    "dir_entries (set_file (segment_name (Suc (length sealed))) c (recovered s sealed content p e t ms)) =
      dir_entries (set_file (segment_name (Suc (length sealed))) c s)"
    "script (recovered s sealed content p e t ms) = script s" "segment_size (recovered s sealed content p e t ms) = segment_size s"
    "next_fd (recovered s sealed content p e t ms) = next_fd s + int (length sealed) + 1"
    "open_fds (recovered s sealed content p e t ms) = open_fds s"
    "recent_cache (recovered s sealed content p e t ms) = foldl cb_push (recent_cache s) (entry_messages 0 (concat sealed) @ ms)"
    "segment_index (recovered s sealed content p e t ms) = index_from 0 0 sealed @
      [scanned_info (Suc (length sealed)) (entries_size (concat sealed)) e p (segment_name (Suc (length sealed)))]"
  using assms by (simp_all add: recovered_def kept_bytes_def Let_def) (simp_all add: set_file_def update_last)

lemma recover_or_create_image:
  fixes s :: log
  assumes img: "disk_image s (segment_size s) sealed body" and ok: "script s = []" "fds_ok s"
    and sz: "73 \<le> segment_size s" "segment_size s \<le> off_max"
    and cache: "cb_inv (recent_cache s)" "cb_contents (recent_cache s) = []"
    and spec: "scan_spec (path_join (directory s) (segment_name (Suc (length sealed)))) True (segment_size s)
        (make_segment_header (Suc (length sealed)) (entries_size (concat sealed)) (segment_size s) @ body) 40
        (entries_size (concat sealed)) = (Inr (p, e, t), ms)" and e_max: "e \<le> uint64_max"
  shows "\<exists>s'. recover_or_create s = (Inr (), s') \<and>
    log_inv (s'\<lparr>opened := True\<rparr>) (sealed @ [map message_entry ms]) \<and> script s' = [] \<and>
    cb_capacity (recent_cache s') = cb_capacity (recent_cache s)"
proof -
  define n sz base where "n = length sealed" and "sz = segment_size s" and "base = entries_size (concat sealed)"
  define name content rs where "name = segment_name (Suc n)"
    and "content = make_segment_header (Suc n) base sz @ body" and "rs = map message_entry ms"
  have cont: "file_content s name = Some content" "length content \<le> sz" and files: "segment_files s \<noteq> []"
    using img by (simp_all add: disk_image_def n_def sz_def base_def name_def content_def files_from_append)
  have hdr: "take 40 content = make_segment_header (Suc n) base sz" and len40: "40 \<le> length content" by (simp_all add: content_def)
  have spec': "scan_spec (path_join (directory s) name) True sz content 40 base = (Inr (p, e, t), ms)"
    using spec by (simp add: content_def name_def n_def sz_def base_def)
  note sound = scan_spec_sound [OF spec' len40 rs_def]
  have p: "p = 40 + entries_size rs" and e: "e = base + entries_size rs"
    and msgs: "ms = entry_messages base rs" and good: "list_all entry_ok rs"
    using sound by blast+
  have "length (drop 40 content) = entries_size rs + length (drop p content)"
    using sound by (metis length_append length_encode_entries)
  then have rlen: "entries_size rs \<le> length body" by (simp add: content_def)
  define s0 where "s0 = s\<lparr>next_message_offset := 0, segment_index := []\<rparr>"
  define s4 where "s4 = (recovered s0 sealed content p e t ms)\<lparr>next_message_offset := e\<rparr>"
  have c0: "file_content s0 (segment_name (Suc (length sealed))) = Some content" using cont by (simp add: s0_def name_def n_def)
  note rec = recovered_fields [OF c0, where p = p and e = e and t = t and ms = ms, folded n_def base_def name_def]
  have "recover_segments 0 (segment_files s0) 0 s0 = (Inr e, recovered s0 sealed content p e t ms)"
    using img ok sz spec e e_max fds_ok_cong [of s0 s] segment_files_cong [of s0 s]
    by (intro recover_segments_image [where body = body]) (simp_all add: s0_def content_def n_def base_def sz_def disk_image_def
        no_segments_after_def disk_from_cong [of "s\<lparr>next_message_offset := 0, segment_index := []\<rparr>" s])
  then have scanned: "recover_or_create s = map_active_segment (Suc n) base p s4"
    using ok(1) files segment_files_cong [of s0 s] rec(8)
    by (simp add: recover_or_create_def bind_apply s4_def flip: s0_def) (simp add: s0_def scanned_info_def bind_apply)
  have full: "resize sz (kept_bytes content p t) = segment_bytes (Suc n) base sz rs (sz - 40 - entries_size rs)" (is "_ = ?final")
    using resize_after_scan [OF spec' hdr cont(2) rs_def] by (simp add: kept_bytes_def)
  define s5 where "s5 = (set_file name ?final s4)\<lparr>open_fds := (next_fd s4, name) # open_fds s,
      next_fd := next_fd s4 + 1, maps := name # maps s4, active := active_of (next_fd s4) sz (Suc n) base p\<rparr>"
  have s4: "script s4 = []" "file_content s4 name = Some (kept_bytes content p t)" "segment_size s4 = sz"
    "next_fd s4 = next_fd s + int n + 1" "open_fds s4 = open_fds s" "dir_entries (set_file name ?final s4) = dir_entries (set_file name ?final s)"
    "recent_cache s4 = foldl cb_push (recent_cache s) (entry_messages 0 (concat (sealed @ [rs])))"
    "segment_index s4 = index_from 0 0 (sealed @ [rs])"
    using ok rec by (simp_all add: s4_def s0_def sz_def set_file_def msgs entry_messages_append base_def index_from_append p e n_def name_def)
  have run: "recover_or_create s = (Inr (), s5)"
    unfolding scanned using map_active_segment_ok [OF s4(1), of "Suc n" "kept_bytes content p t" base p] s4 full by (simp add: name_def s5_def)
  have cache5: "recent_cache s5 = foldl cb_push (recent_cache s) (entry_messages 0 (concat (sealed @ [rs])))" by (simp add: s5_def s4)
  have "log_inv (s5\<lparr>opened := True\<rparr>) (sealed @ [rs])"
    using ring.push_all [OF cache(1)] cache(2) sz ok s4 good rlen e e_max
    by (intro log_inv_mapped [OF img [folded sz_def] n_def base_def, where fd = "next_fd s4"])
      (simp_all add: cache5 s5_def name_def p sz_def s4_def)
  moreover have "cb_capacity (recent_cache s5) = cb_capacity (recent_cache s)"
    using ring.push_all [OF cache(1)] by (simp add: cache5)
  ultimately show ?thesis using run s4(1) by (auto simp: rs_def s5_def)
qed

section \<open>Opening\<close>

text \<open>Of the newest segment, recovery keeps every record that was completely written; nothing
  more when less than a record header follows, or when the magic number of the next record is
  still zero. \<open>append\<close> writes the payload first and the header last, so the second case is
  what a crash inside \<open>append\<close> leaves before the header write.\<close>

definition tail_stops :: "byte list \<Rightarrow> bool" where
  "tail_stops tail \<longleftrightarrow> length tail < 32 \<or> take 4 tail = [0, 0, 0, 0]"

definition recovered_tail :: "nat \<Rightarrow> byte list \<Rightarrow> entry list \<Rightarrow> bool" where
  "recovered_tail base body rs \<longleftrightarrow>
     (\<exists>rest. body = encode_entries base rs @ rest) \<and>
     (\<forall>rs0 tail. body = encode_entries base rs0 @ tail \<longrightarrow> list_all entry_ok rs0 \<longrightarrow>
        (\<exists>more. rs = rs0 @ more) \<and> (tail_stops tail \<longrightarrow> rs = rs0))"

lemma scan_spec_tail_stops:
  assumes "tail_stops (drop pos content)"
  shows "\<exists>t. scan_spec path True sz content pos e = (Inr (pos, e, t), [])"
proof (cases "pos + 32 \<le> length content")
  case True
  with assms have "take 4 (drop pos content) = replicate 4 0"
    by (auto simp: tail_stops_def numeral_eq_Suc)
  then have "get_u32 (take 32 (drop pos content)) = get_u32 (replicate 4 0)"
    using True by (intro get_u32_cong) simp
  then have "get_u32 (take 32 (drop pos content)) = 0" by simp
  then have "record_spec path True sz content pos e = Inr (Scan_end (\<not> list_all (\<lambda>b. b = 0) (drop pos content)))"
    by (simp add: record_spec_def Let_def)
  with True show ?thesis by (subst scan_spec.simps) simp
next
  case False
  then show ?thesis by (subst scan_spec.simps) auto
qed

lemma recovered_tail_scan:
  assumes spec: "scan_spec path True sz content 40 base = (Inr (p, e, t), ms)"
    and content: "content = hdr @ body" "length hdr = 40" and len: "length content \<le> sz"
    and off: "base + length body \<le> uint64_max"
  shows "recovered_tail base body (map message_entry ms)"
proof -
  have body: "drop 40 content = body" "40 \<le> length content" by (simp_all add: content)
  have "\<exists>rest. body = encode_entries base (map message_entry ms) @ rest"
    using scan_spec_sound [OF spec body(2) refl] body(1) by metis
  moreover have "(\<exists>more. map message_entry ms = rs0 @ more) \<and>
      (tail_stops tail \<longrightarrow> map message_entry ms = rs0)"
    if enc: "body = encode_entries base rs0 @ tail" and ok: "list_all entry_ok rs0" for rs0 tail
  proof -
    have bytes: "drop 40 content = encode_entries base rs0 @ tail" using body enc by simp
    have bound: "base + entries_size rs0 \<le> uint64_max" using off by (simp add: enc)
    note pre = scan_spec_prefix [OF bytes ok bound len, of path True]
    obtain r ms' where rest: "scan_spec path True sz content (40 + entries_size rs0) (base + entries_size rs0) = (r, ms')"
      by fastforce
    have ms: "ms = entry_messages base rs0 @ ms'" using pre rest spec by simp
    have "drop (40 + entries_size rs0) content = tail"
      using arg_cong [OF bytes, of "drop (entries_size rs0)"] by (simp add: add.commute)
    then have "ms' = []" if "tail_stops tail"
      using scan_spec_tail_stops [of "40 + entries_size rs0" content path sz "base + entries_size rs0"] that rest by auto
    then show ?thesis by (simp add: ms)
  qed
  ultimately show ?thesis by (auto simp: recovered_tail_def)
qed

lemma log_open_scanned:
  fixes s :: log
  assumes img: "disk_image s sz sealed body" and ok: "script s = []" "fds_ok s" and closed: "\<not> opened s"
    and sz: "73 \<le> sz" "sz \<le> off_max" and cap: "0 < cap"
    and spec: "scan_spec (path_join dir (segment_name (Suc (length sealed)))) True sz
        (make_segment_header (Suc (length sealed)) (entries_size (concat sealed)) sz @ body) 40
        (entries_size (concat sealed)) = (Inr (p, e, t), ms)" and e_max: "e \<le> uint64_max"
  shows "\<exists>s'. log_open dir sz cap s = (Inr (), s') \<and> log_inv s' (sealed @ [map message_entry ms]) \<and> script s' = [] \<and>
    cb_capacity (recent_cache s') = cap"
proof -
  obtain cache where cache: "cb_new default_message cap = Inr cache" using cap by (simp add: cb_new_def)
  define s0 where "s0 = s\<lparr>directory := dir, segment_size := sz, recent_cache := cache\<rparr>"
  have "disk_image s0 sz sealed body"
    using img disk_from_cong [of s0 s] segment_files_cong [of s0 s] no_segments_after_cong [of s0 s]
    by (simp add: disk_image_def s0_def)
  moreover have "fds_ok s0" using ok fds_ok_cong [of s0 s] by (simp add: s0_def)
  ultimately obtain s1 where rec: "recover_or_create s0 = (Inr (), s1)"
    and inv: "log_inv (s1\<lparr>opened := True\<rparr>) (sealed @ [map message_entry ms])" and s1: "script s1 = []"
    "cb_capacity (recent_cache s1) = cap"
    using recover_or_create_image [of s0 sealed body p e t ms] spec e_max ok sz cb_inv_new [OF cache]
    by (auto simp: s0_def)
  have "script s0 = []" using ok by (simp add: s0_def)
  then have "log_open dir sz cap s = (Inr (), s1\<lparr>opened := True\<rparr>)"
    using rec closed sz cap
    by (simp add: log_open_def bind_apply cache segment_header_size_def record_header_size_def uint64_max_eq off_max_def
        flip: s0_def)
  then show ?thesis using inv s1 by auto
qed

lemma log_open_image:
  fixes s :: log
  assumes img: "disk_image s sz sealed body" and ok: "script s = []" "fds_ok s" and closed: "\<not> opened s"
    and sz: "73 \<le> sz" "sz \<le> off_max" and cap: "0 < cap"
    and off: "entries_size (concat sealed) + length body \<le> uint64_max"
  shows "\<exists>s' rs. log_open dir sz cap s = (Inr (), s') \<and> log_inv s' (sealed @ [rs]) \<and>
    recovered_tail (entries_size (concat sealed)) body rs \<and> script s' = [] \<and> cb_capacity (recent_cache s') = cap"
proof -
  define n base where "n = length sealed" and "base = entries_size (concat sealed)"
  define content where "content = make_segment_header (Suc n) base sz @ body"
  have len: "length content \<le> sz" using img by (simp add: content_def disk_image_def)
  have len40: "40 \<le> length content" and off': "base + length body \<le> uint64_max"
    using off by (simp_all add: content_def base_def)
  then have "base + (length content - 40) \<le> uint64_max" by (simp add: content_def)
  then obtain p e t ms where spec: "scan_spec (path_join dir (segment_name (Suc n))) True sz content 40 base = (Inr (p, e, t), ms)"
    using scan_spec_latest_total len40 by blast
  have tail: "recovered_tail base body (map message_entry ms)"
    using recovered_tail_scan [OF spec content_def _ len off'] by simp
  note sound = scan_spec_sound [OF spec len40 refl]
  then have "length (drop 40 content) = entries_size (map message_entry ms) + length (drop p content)"
    by (metis length_append length_encode_entries)
  then have "e \<le> uint64_max" using sound off' by (simp add: content_def)
  then show ?thesis
    using log_open_scanned [OF img ok closed sz cap, of dir p e t ms] spec tail
    by (auto simp: content_def n_def base_def)
qed

lemma log_open_fresh:
  fixes s :: log
  assumes empty: "segment_files s = []" "no_segments_after s 0" and ok: "script s = []" "fds_ok s"
    and closed: "\<not> opened s" and sz: "73 \<le> sz" "sz \<le> off_max" and cap: "0 < cap"
  shows "\<exists>s'. log_open dir sz cap s = (Inr (), s') \<and> log_inv s' [[]] \<and> script s' = [] \<and> segment_size s' = sz \<and>
    map_of (durable s') (segment_name 1) = file_content s' (segment_name 1) \<and> durable_names s' = map fst (dir_entries s')"
proof -
  obtain cache where cache: "cb_new default_message cap = Inr cache" using cap by (simp add: cb_new_def)
  define s0 where "s0 = s\<lparr>directory := dir, segment_size := sz, recent_cache := cache,
      segment_index := [], next_message_offset := 0\<rparr>"
  have free: "map_of (dir_entries s0) (segment_name 1) = None"
    using empty(2) by (simp add: no_segments_after_def s0_def maximum_segment_id_def)
  have fds: "fds_ok s0" using ok fds_ok_cong [of s0 s] by (simp add: s0_def)
  obtain s1 where create: "create_segment 1 0 s0 = (Inr (), s1)"
    and s1: "s1 = (set_file (segment_name 1) (segment_bytes 1 0 sz [] (sz - 40)) s0)
      \<lparr>open_fds := (next_fd s, segment_name 1) # open_fds s, next_fd := next_fd s + 2,
       maps := segment_name 1 # maps s,
       durable := AList.update (segment_name 1) (segment_bytes 1 0 sz [] (sz - 40)) (durable s),
       durable_names := map fst (dir_entries s) @ [segment_name 1], dirty := removeAll (segment_name 1) (dirty s),
       active := active_of (next_fd s) sz 1 0 40,
       segment_index := [scanned_info 1 0 0 40 (segment_name 1)]\<rparr>"
    using create_segment_ok [OF _ fds free, of 0] ok sz by (simp add: s0_def)
  have run: "log_open dir sz cap s = (Inr (), s1\<lparr>opened := True\<rparr>)"
    using create closed sz cap ok(1) empty(1) segment_files_cong [of s0 s]
    by (simp add: log_open_def recover_or_create_def bind_apply cache segment_header_size_def
        record_header_size_def uint64_max_eq off_max_def s0_def segment_files_def)
  have "log_inv (s1\<lparr>opened := True\<rparr>) [[]]"
    unfolding log_inv_def
  proof (intro conjI)
    let ?s = "set_file (segment_name 1) (segment_bytes 1 0 sz [] (sz - 40)) s"
    have dir: "dir_entries (s1\<lparr>opened := True\<rparr>) = dir_entries ?s" by (simp add: s1 s0_def set_file_def)
    show "segment_files (s1\<lparr>opened := True\<rparr>) = files_from 0 [[]]"
      using segment_files_create [of s "[]" 1 "segment_bytes 1 0 sz [] (sz - 40)" "[]"] empty(1) free
        segment_files_cong [OF dir] by (simp add: s0_def maximum_segment_id_def)
    show "no_segments_after (s1\<lparr>opened := True\<rparr>) (length [[]])"
      using no_segments_after_set_file [OF empty(2), of 1 1] no_segments_after_cong [OF dir]
      by (simp add: maximum_segment_id_def)
    show "fds_ok (s1\<lparr>opened := True\<rparr>)" using ok by (fastforce simp: s1 fds_ok_def)
    show "\<exists>fd. active (s1\<lparr>opened := True\<rparr>) = active_of fd (segment_size (s1\<lparr>opened := True\<rparr>)) (length [[]])
        (entries_size (concat (butlast [[]]))) (40 + entries_size (last [[]])) \<and>
      map_of (open_fds (s1\<lparr>opened := True\<rparr>)) fd = Some (segment_name (length [[]])) \<and> 0 \<le> fd"
      using ok by (intro exI [of _ "next_fd s"]) (simp add: s1 s0_def fds_ok_def)
  qed (use sz cb_inv_new [OF cache] in \<open>simp_all add: s1 s0_def maximum_segment_id_def\<close>)
  moreover have "map fst (dir_entries s1) = map fst (dir_entries s) @ [segment_name 1]"
    using free by (auto simp: s1 s0_def set_file_def update_keys map_of_eq_None_iff)
  ultimately show ?thesis using run ok by (auto simp: s1 s0_def update_conv')
qed

section \<open>Flushing, closing and reopening\<close>

lemma flush_durable:
  assumes inv: "log_inv s segs" and ok: "script s = []"
  shows "\<exists>s'. flush s = (Inr (), s') \<and> log_inv s' segs \<and> script s' = [] \<and>
    map_of (durable s') (segment_name (length segs)) = file_content s (segment_name (length segs))"
proof -
  from inv obtain fd sz base wp c where act: "active s = active_of fd sz (length segs) base wp"
    and fd: "map_of (open_fds s) fd = Some (segment_name (length segs))"
    and cont: "file_content s (segment_name (length segs)) = Some c" and op: "opened s"
    by (auto simp: log_inv_def)
  define s' where "s' = s\<lparr>dirty := removeAll (segment_name (length segs)) (dirty s),
      durable := AList.update (segment_name (length segs)) c (durable s)\<rparr>"
  have "flush s = (Inr (), s')"
    using ok act fd cont op by (simp add: flush_def bind_apply syscalls_ok active_of_def s'_def)
  moreover have "log_inv s' segs"
    using inv disk_from_cong [of s' s] segment_files_cong [of s' s] no_segments_after_cong [of s' s] fds_ok_cong [of s' s]
    by (auto simp: log_inv_def s'_def)
  ultimately show ?thesis using ok cont by (simp add: s'_def update_conv')
qed

lemma log_close_ok:
  assumes inv: "log_inv s segs" and ok: "script s = []"
  shows "\<exists>s'. log_close s = (Inr (), s') \<and> \<not> opened s' \<and> script s' = [] \<and> fds_ok s' \<and>
    dir_entries s' = dir_entries s \<and> segment_size s' = segment_size s \<and> map_fd (active s') = -1 \<and>
    map_data (active s') = None \<and>
    map_of (durable s') (segment_name (length segs)) = file_content s (segment_name (length segs))"
proof -
  from inv obtain fd sz base wp c where act: "active s = active_of fd sz (length segs) base wp"
    and fd: "map_of (open_fds s) fd = Some (segment_name (length segs))" "0 \<le> fd"
    and cont: "file_content s (segment_name (length segs)) = Some c" and op: "opened s" and fds: "fds_ok s"
    by (auto simp: log_inv_def)
  have "log_close s = unmap_active True (s\<lparr>opened := False\<rparr>)"
    using op fd act by (simp add: log_close_def bind_apply active_of_def)
  then show ?thesis
    using unmap_active_ok [of "s\<lparr>opened := False\<rparr>" fd sz "length segs" base wp c] ok act fd cont fds
    by (auto simp: update_conv' fds_ok_def AList.delete_eq active_of_def file_content_def)
qed

lemma closed_disk_image:
  fixes s' :: log
  assumes inv: "log_inv s segs" and dir: "dir_entries s' = dir_entries s" and sz: "sz = segment_size s"
  shows "disk_image s' sz (butlast segs) (encode_entries (entries_size (concat (butlast segs))) (last segs) @
    replicate (sz - 40 - entries_size (last segs)) 0)"
proof -
  have ne: "segs \<noteq> []" using inv by (simp add: log_inv_def)
  then have n: "Suc (length segs - 1) = length segs" by simp
  have "files_from 0 (butlast segs @ [[]]) = files_from 0 segs"
    using ne by (intro files_from_length) simp
  then show ?thesis
    using inv disk_from_cong [OF dir] segment_files_cong [OF dir] no_segments_after_cong [OF dir] dir
    by (simp add: disk_image_def log_inv_def n sz segment_bytes_def file_content_def)
qed

lemma reopen_same:
  assumes inv: "log_inv s segs" and ok: "script s = []" and cap: "0 < cap"
  shows "\<exists>s1 s2. log_close s = (Inr (), s1) \<and> log_open dir (segment_size s) cap s1 = (Inr (), s2) \<and>
    log_inv s2 segs \<and> script s2 = [] \<and> cb_capacity (recent_cache s2) = cap"
proof -
  define sealed rs base sz where "sealed = butlast segs" and "rs = last segs"
    and "base = entries_size (concat sealed)" and "sz = segment_size s"
  have ne: "segs \<noteq> []" and I: "list_all entry_ok rs" "40 + entries_size rs \<le> sz" "73 \<le> sz" "sz \<le> off_max"
    "entries_size (concat segs) \<le> uint64_max"
    using inv by (auto simp: log_inv_def rs_def sz_def)
  then have off: "base + entries_size rs \<le> uint64_max"
    using entries_size_split [OF ne] by (simp add: base_def sealed_def rs_def)
  obtain s1 where close: "log_close s = (Inr (), s1)" and s1: "\<not> opened s1" "script s1 = []" "fds_ok s1"
      "dir_entries s1 = dir_entries s"
    using log_close_ok [OF inv ok] by blast
  have "scan_spec (path_join dir (segment_name (Suc (length sealed)))) True sz
      (make_segment_header (Suc (length sealed)) base sz @ encode_entries base rs @ replicate (sz - 40 - entries_size rs) 0)
      40 base = (Inr (40 + entries_size rs, base + entries_size rs, False), entry_messages base rs)"
    using scan_spec_segment_bytes [OF I(1) off, of "sz - 40 - entries_size rs" sz _ True "Suc (length sealed)"] I(2)
    by (simp add: segment_bytes_def)
  then have "\<exists>s2. log_open dir sz cap s1 = (Inr (), s2) \<and>
      log_inv s2 (sealed @ [map message_entry (entry_messages base rs)]) \<and> script s2 = [] \<and>
      cb_capacity (recent_cache s2) = cap"
    using closed_disk_image [OF inv s1(4) sz_def] off
    by (intro log_open_scanned [OF _ s1(2,3,1) I(3,4) cap]) (simp_all add: sealed_def rs_def base_def)
  moreover have "sealed @ [rs] = segs" using ne by (simp add: sealed_def rs_def)
  ultimately show ?thesis using close by (auto simp: sz_def)
qed

section \<open>Damage to a sealed segment\<close>

lemma scan_segment_bad:
  fixes s :: log
  assumes path_def: "path = path_join (directory s) name"
    and ok: "script s = []" and cont: "file_content s name = Some content"
    and hdr: "take 40 content = make_segment_header sid base (segment_size s)"
    and len: "length content \<le> segment_size s" and sz: "segment_size s < 2 ^ 64"
    and sid: "sid < 2 ^ 32" and base: "base < 2 ^ 64"
    and spec: "scan_spec path latest (segment_size s) content 40 base = (Inl ex, ms)"
  shows "fst (scan_segment name sid latest base s) = Inl ex"
proof -
  define fd where "fd = next_fd s"
  define s1 where "s1 = s\<lparr>open_fds := (fd, name) # open_fds s, next_fd := fd + 1\<rparr>"
  have len40: "40 \<le> length content" using arg_cong [OF hdr, of length] by simp
  have s1: "script s1 = []" "map_of (open_fds s1) fd = Some name" "file_content s1 name = Some content"
    "segment_size s1 = segment_size s" "directory s1 = directory s"
    using ok cont by (simp_all add: s1_def file_content_def)
  have fb: "fd_bytes s1 fd content" using s1 by (auto simp: fd_bytes_def)
  define hd where "hd = take 40 content"
  have rd: "pread_all fd 40 0 s1 = (Inr (None, hd), s1)" "length hd = 40"
    using pread_all_ok [OF s1(1) fb(1), of 40 0] len40 by (simp_all add: hd_def)
  note reads = segment_header_reads [of hd sid base "segment_size s" "[]", unfolded append_Nil2 hd_def, OF hdr,
      folded hd_def]
  have unats: "unat (of_nat sid :: u32) = sid" "unat (of_nat base :: u64) = base"
    "unat (of_nat (segment_size s) :: u64) = segment_size s"
    using sid base sz by (simp_all add: unat_of_nat)
  obtain s2 where recs: "scan_records fd path latest (length content) 40 base s1 = (Inl ex, s2)"
    using scan_records_refines [OF s1(1) fb, of path latest 40 base] spec s1(4) by simp
  have opn: "sys_open name s = (Inr (Inr fd), s1)"
    using sys_open_ok [OF ok(1) cont] by (simp add: fd_def s1_def)
  show ?thesis
    using len len40
    by (simp add: scan_segment_def bind_apply Let_def opn s1 sys_fstat_ok [OF s1(1-3)] segment_header_size_def
        rd reads unats recs flip: path_def)
qed

lemma scan_spec_damaged:
  assumes content: "content = segment_bytes sid base sz (rs1 @ r # rs2) pad"
    and good: "list_all entry_ok (rs1 @ r # rs2)" and off: "base + entries_size (rs1 @ r # rs2) \<le> uint64_max"
    and len: "length content \<le> sz" and j: "j < entry_size r" "\<not> (24 \<le> j \<and> j < 28)"
    and x: "content ! (40 + entries_size rs1 + j) \<noteq> x"
  shows "\<exists>w ms. scan_spec path False sz (content[40 + entries_size rs1 + j := x]) 40 base = (Inl (Runtime_error w), ms)"
proof -
  define pos e where "pos = 40 + entries_size rs1" and "e = base + entries_size rs1"
  define content' where "content' = content[pos + j := x]"
  define rest where "rest = encode_entries (e + entry_size r) rs2 @ replicate pad 0"
  have all: "drop 40 content = encode_entries base rs1 @ encode_entry e r @ rest"
    by (simp add: content segment_bytes_parts encode_entries_append e_def rest_def add.assoc)
  have clen: "length content = 40 + entries_size (rs1 @ r # rs2) + pad" by (simp add: content)
  have bytes: "drop pos content = encode_entry e r @ rest"
    using arg_cong [OF all, of "drop (entries_size rs1)"] by (simp add: pos_def add.commute)
  have lt: "e < 2 ^ 64" using off by (simp add: e_def uint64_max_eq)
  have okr: "entry_ok r" using good by simp
  obtain w where w: "record_spec path False sz content' pos e = Inl (Runtime_error w)"
    using record_spec_damaged [OF bytes okr lt j, of x] x by (auto simp: content'_def pos_def)
  have "pos + 32 \<le> length content'" by (simp add: content'_def clen pos_def entry_size_eq)
  with w have stop: "scan_spec path False sz content' pos e = (Inl (Runtime_error w), [])"
    by (subst scan_spec.simps) simp
  have "drop 40 content' = encode_entries base rs1 @ drop pos content'"
    using all bytes by (simp add: content'_def drop_update_swap pos_def list_update_append)
  then have "scan_spec path False sz content' 40 base =
      (let (r, ms) = scan_spec path False sz content' (40 + entries_size rs1) (base + entries_size rs1)
       in (r, entry_messages base rs1 @ ms))"
    using good off len by (intro scan_spec_prefix) (simp_all add: content'_def)
  then show ?thesis using stop by (simp add: pos_def e_def content'_def)
qed

lemma recover_segments_bad:
  assumes "fst (scan_segment name (Suc i) False base s) = Inl ex" and "rest \<noteq> []"
  shows "fst (recover_segments i ((Suc i, name) # rest) base s) = Inl ex"
  using assms by (auto split: prod.splits)

lemma recover_or_create_bad:
  assumes "script s = []" and "segment_files s = files" and "files \<noteq> []"
    and "fst (recover_segments 0 files 0 (s\<lparr>next_message_offset := 0, segment_index := []\<rparr>)) = Inl ex"
  shows "fst (recover_or_create s) = Inl ex"
  using assms by (auto simp: recover_or_create_def bind_apply split: prod.splits)

lemma log_open_bad:
  assumes "script s = []" "\<not> opened s" "73 \<le> sz" "sz \<le> off_max" "0 < cap"
    and "cb_new default_message cap = Inr cache"
    and "fst (recover_or_create (s\<lparr>directory := dir, segment_size := sz, recent_cache := cache\<rparr>)) = Inl ex"
  shows "fst (log_open dir sz cap s) = Inl ex"
  using assms
  by (auto simp: log_open_def bind_apply segment_header_size_def record_header_size_def uint64_max_eq off_max_def
      split: prod.splits)

lemma log_open_damaged:
  fixes s :: log
  assumes img: "disk_image s sz sealed body" and ok: "script s = []" "fds_ok s" and closed: "\<not> opened s"
    and sz: "73 \<le> sz" "sz \<le> off_max" and cap: "0 < cap"
    and off: "entries_size (concat sealed) \<le> uint64_max"
    and sealed: "sealed = pre @ (rs1 @ r # rs2) # post" and name: "name = segment_name (Suc (length pre))"
    and content: "file_content s name = Some content"
    and j: "j < entry_size r" "\<not> (24 \<le> j \<and> j < 28)"
    and x: "content ! (40 + entries_size rs1 + j) \<noteq> x"
  shows "\<exists>w. fst (log_open dir sz cap (set_file name (content[40 + entries_size rs1 + j := x]) s)) = Inl (Runtime_error w)"
proof -
  define k base content' where "k = length pre" and "base = entries_size (concat pre)"
    and "content' = content[40 + entries_size rs1 + j := x]"
  obtain cache where cache: "cb_new default_message cap = Inr cache" using cap by (simp add: cb_new_def)
  define s1 where "s1 = (set_file name content' s)\<lparr>directory := dir, segment_size := sz, recent_cache := cache\<rparr>"
  define s2 where "s2 = s1\<lparr>next_message_offset := 0, segment_index := []\<rparr>"
  have I: "segment_files s = files_from 0 (sealed @ [[]])" "Suc (length sealed) \<le> maximum_segment_id"
    "disk_from s sz 0 0 pre" "disk_from s sz k base [rs1 @ r # rs2]"
    using img by (simp_all add: disk_image_def sealed disk_from_append k_def base_def)
  then obtain pad where seg: "content = segment_bytes (Suc k) base sz (rs1 @ r # rs2) pad"
    and good: "list_all entry_ok (rs1 @ r # rs2)" and len: "length content \<le> sz"
    using content by (auto simp: name k_def)
  have off1: "base + entries_size (rs1 @ r # rs2) \<le> uint64_max" using off by (simp add: sealed base_def)
  have bounds: "Suc k < 2 ^ 32" "base < 2 ^ 64" "sz < 2 ^ 64" "k < 2 ^ 32"
    using I(2) off1 sz by (simp_all add: sealed k_def maximum_segment_id_def uint64_max_eq off_max_def)
  have d1: "dir_entries s2 = dir_entries (set_file name content' s)" by (simp add: s2_def s1_def)
  have disk: "disk_from s2 (segment_size s2) 0 0 pre"
    using disk_from_set_file [OF I(3), of "Suc k" content'] I(2) disk_from_cong [OF d1]
    by (simp add: s2_def s1_def sealed k_def name)
  have files: "segment_files s1 = files_from 0 pre @ (Suc k, name) # files_from (Suc k) (post @ [[]])"
    using segment_files_set_file [OF content, of content'] segment_files_cong [of s1 "set_file name content' s"] I(1)
    by (simp add: s1_def sealed files_from_append k_def name)
  define s3 where "s3 = s2\<lparr>next_fd := next_fd s2 + int k,
      recent_cache := foldl cb_push (recent_cache s2) (entry_messages 0 (concat pre)),
      segment_index := segment_index s2 @ index_from 0 0 pre\<rparr>"
  have fds: "script s2 = []" "fds_ok s2" using ok fds_ok_cong [of s2 s] by (simp_all add: s2_def s1_def)
  have step: "recover_segments 0 (segment_files s1) 0 s2 =
      recover_segments k ((Suc k, name) # files_from (Suc k) (post @ [[]])) base s3"
    unfolding files using recover_segments_intact [OF fds disk] bounds off1
    by (simp add: s3_def k_def base_def) (simp add: s2_def s1_def)
  have s3: "script s3 = []" "file_content s3 name = Some content'" "segment_size s3 = sz" "directory s3 = dir"
    using ok by (simp_all add: s3_def s2_def s1_def)
  obtain w ms where "scan_spec (path_join dir name) False sz content' 40 base = (Inl (Runtime_error w), ms)"
    using scan_spec_damaged [OF seg good off1 len j x] unfolding content'_def by blast
  moreover have "take 40 content' = make_segment_header (Suc k) base sz"
    by (simp add: content'_def seg segment_bytes_def list_update_append)
  ultimately have "fst (scan_segment name (Suc k) False base s3) = Inl (Runtime_error w)"
    using len bounds by (intro scan_segment_bad [OF refl s3(1,2)]) (simp_all add: s3 content'_def)
  then have "fst (recover_segments 0 (segment_files s1) 0 s2) = Inl (Runtime_error w)"
    unfolding step by (intro recover_segments_bad) (simp_all add: files_from_append)
  then have "fst (recover_or_create s1) = Inl (Runtime_error w)"
    using ok files by (intro recover_or_create_bad [OF _ refl]) (simp_all add: s2_def s1_def)
  then show ?thesis
    using log_open_bad [OF _ _ sz cap cache, of "set_file name content' s" dir "Runtime_error w"] ok closed
    by (auto simp: s1_def content'_def)
qed

section \<open>Failing appends\<close>

text \<open>Whatever system calls fail: an \<open>append\<close> that throws has either changed nothing or
  has closed the log, so no later \<open>append\<close> can run on a half-rolled segment.\<close>

lemma append_record_total: "\<exists>off s'. append_record now payload s = (Inr off, s')"
  by (auto simp: append_record_def bind_apply Let_def mem_write_def split: option.splits)

lemma log_append_failed:
  assumes "log_append now payload s = (Inl e, s')"
  shows "s' = s \<or> \<not> opened s'"
proof -
  have "s' = s \<or> \<not> opened s'" if "bind m (\<lambda>_. append_record now payload) s = (Inl e, s')"
    and "\<And>e' s''. m s = (Inl e', s'') \<Longrightarrow> s'' = s \<or> \<not> opened s''" for m :: "(log, unit) prog"
  proof (cases "m s")
    case (Pair r s1)
    then show ?thesis
      using that append_record_total [of now payload s1] by (cases r) (auto simp: bind_apply)
  qed
  note step = this
  from assms show ?thesis
    unfolding log_append_def Let_def
    by (auto simp: bind_apply [of "gets _"] split: if_splits
        elim!: step simp: on_exn_def split: prod.splits sum.splits)
qed

section \<open>Disk usage\<close>

lemma disk_usage_loop_ok:
  assumes "script s = []" and "\<forall>info \<in> set infos. file_content s (seg_path info) \<noteq> None"
  shows "disk_usage_loop infos acc s =
    (Inr (if infos = [] then acc
          else (acc + (\<Sum>info \<leftarrow> infos. length (the (file_content s (seg_path info))))) mod 2 ^ 64), s)"
  using assms
proof (induction infos arbitrary: acc)
  case (Cons info infos)
  then obtain bs where "file_content s (seg_path info) = Some bs" by auto
  with Cons show ?case by (auto simp: add64_def mod_simps add.assoc)
qed simp

lemma disk_from_bytes:
  assumes "disk_from s sz i base segs"
  shows "\<forall>info \<in> set (index_from i base segs). file_content s (seg_path info) \<noteq> None"
    and "(\<Sum>info \<leftarrow> index_from i base segs. length (the (file_content s (seg_path info)))) \<le> length segs * sz"
  using assms by (induction segs arbitrary: i base) (fastforce simp: scanned_info_def)+

lemma disk_usage_ok:
  assumes inv: "log_inv s segs" and ok: "script s = []" and fits: "length segs * segment_size s < 2 ^ 64"
  shows "\<exists>n. disk_usage_bytes s = (Inr n, s) \<and>
    n = (\<Sum>info \<leftarrow> segments s. length (the (file_content s (seg_path info)))) \<and> n \<le> length segs * segment_size s"
proof -
  have idx: "segment_index s = index_from 0 0 segs" "segs \<noteq> []" using inv by (auto simp: log_inv_def)
  note b = disk_from_bytes [OF log_inv_disk [OF inv], folded idx(1)]
  show ?thesis using disk_usage_loop_ok [OF ok b(1), of 0] b(2) fits idx
    by (cases "segment_index s = []") (auto simp: disk_usage_bytes_def segments_def)
qed

end
