(* ===== verification/Log_Crash.thy ===== *)
theory Log_Crash
  imports Log_Recovery "HOL-Library.Sublist" "HOL-Library.Multiset"
begin

text \<open>
  Crashes. A killed process leaves its files as they are in the page cache; a power failure leaves
  of every byte either what was last synchronised or what was written since, and may undo every
  change of the directory since the directory was last synchronised. In both cases the
  next process opens the same directory with a new log object. The theorems say which records
  it finds.
\<close>

section \<open>The next process\<close>

text \<open>A default-constructed log over a directory with the given entries; what is known to be on
  stable storage is what the process before it knew.\<close>

definition next_process :: "(string \<times> dirent) list \<Rightarrow> 'z os_scheme \<Rightarrow> log" where
  "next_process es prev = new_log \<lparr>dir_entries = es, durable = durable prev, durable_names = durable_names prev,
     dirty = dirty prev, open_fds = [], next_fd = 3, maps = [], script = []\<rparr>"

lemma next_process_simps [simp]:
  "script (next_process es prev) = []" "fds_ok (next_process es prev)" "\<not> opened (next_process es prev)"
  "dir_entries (next_process es prev) = es"
  by (simp_all add: next_process_def new_log_def os.defs fds_ok_def)

section \<open>A process killed inside an append\<close>

text \<open>A \<open>memcpy\<close> of \<open>new\<close> to position \<open>pos\<close> that was cut short: any of its bytes may have arrived.\<close>

definition torn_copy :: "nat \<Rightarrow> 'a list \<Rightarrow> 'a list \<Rightarrow> 'a list \<Rightarrow> bool" where
  "torn_copy pos new c c' \<longleftrightarrow> length c' = length c \<and>
     (\<forall>i < length c. c' ! i = c ! i \<or> pos \<le> i \<and> i < pos + length new \<and> c' ! i = new ! (i - pos))"

text \<open>The bytes of the newest segment inside \<open>append\<close>: the payload is being copied (\<open>begun = False\<close>),
  or the header behind it.\<close>

definition append_interrupted :: "nat \<Rightarrow> byte list \<Rightarrow> bool \<Rightarrow> log \<Rightarrow> byte list \<Rightarrow> bool" where
  "append_interrupted now payload begun s c' \<longleftrightarrow>
     (\<exists>c c1. file_content s (map_path (active s)) = Some c \<and>
        torn_copy (map_write_position (active s) + 32) payload c c1 \<and>
        (if begun then torn_copy (map_write_position (active s))
             (make_record_header (next_message_offset s) (now mod 2 ^ 64) payload) c1 c' else c' = c1))"

lemma torn_copy_take:
  assumes "torn_copy pos new c c'" "k \<le> pos"
  shows "take k c' = take k c"
  using assms by (intro nth_equalityI) (auto simp: torn_copy_def)

lemma torn_copy_nth: "torn_copy pos new c c' \<Longrightarrow> i < length c \<Longrightarrow> i < pos \<Longrightarrow> c' ! i = c ! i"
  by (auto simp: torn_copy_def)

lemma torn_copy_length: "torn_copy pos new c c' \<Longrightarrow> length c' = length c"
  by (simp add: torn_copy_def)

text \<open>A complete copy is a torn copy of which every byte arrived.\<close>

lemma torn_copy_complete:
  assumes "pos + length new \<le> length c"
  shows "torn_copy pos new c (overwrite pos new c)"
  using assms by (auto simp: torn_copy_def overwrite_at nth_append min_def)

lemma image_prefix:
  assumes inv: "log_inv s segs" and k: "k \<le> length (last segs)"
    and t: "take (40 + entries_size (take k (last segs))) c' = take (40 + entries_size (take k (last segs))) c"
    and c: "file_content s (segment_name (length segs)) = Some c" and len: "length c' = length c"
  shows "\<exists>tail. c' = make_segment_header (length segs) (entries_size (concat (butlast segs))) (segment_size s) @
    encode_entries (entries_size (concat (butlast segs))) (take k (last segs)) @ tail \<and>
    40 + entries_size (take k (last segs)) + length tail = segment_size s"
proof -
  let ?h = "make_segment_header (length segs) (entries_size (concat (butlast segs))) (segment_size s)"
  let ?base = "entries_size (concat (butlast segs))" and ?rs = "take k (last segs)"
  let ?m = "40 + entries_size ?rs"
  have split: "encode_entries ?base (last segs) = encode_entries ?base ?rs @ encode_entries (?base + entries_size ?rs) (drop k (last segs))"
    by (metis append_take_drop_id encode_entries_append)
  have I: "c = segment_bytes (length segs) ?base (segment_size s) (last segs) (segment_size s - 40 - entries_size (last segs))"
    "40 + entries_size (last segs) \<le> segment_size s"
    using inv c by (auto simp: log_inv_def)
  then have "length c = segment_size s" by simp
  moreover have "entries_size ?rs \<le> entries_size (last segs)"
    by (metis append_take_drop_id entries_size_simps(3) le_add1)
  moreover have "take ?m c = ?h @ encode_entries ?base ?rs" using I by (simp add: segment_bytes_def split)
  moreover have "c' = take ?m c @ drop ?m c'" using t by (metis append_take_drop_id)
  ultimately show ?thesis using len I(2) by (intro exI [of _ "drop ?m c'"]) (simp add: append.assoc)
qed

text \<open>A directory in which only the bytes of the newest segment may differ from those of an open log.\<close>

definition tail_damaged :: "log \<Rightarrow> entry list list \<Rightarrow> 'z os_scheme \<Rightarrow> byte list \<Rightarrow> bool" where
  "tail_damaged s segs p c' \<longleftrightarrow> segment_files p = segment_files s \<and> no_segments_after p (length segs) \<and>
     (\<forall>i < length segs - 1. file_content p (segment_name (Suc i)) = file_content s (segment_name (Suc i))) \<and>
     file_content p (segment_name (length segs)) = Some c'"

lemma log_inv_length: "log_inv s segs \<Longrightarrow> length segs \<le> maximum_segment_id"
  by (simp add: log_inv_def)

lemma sealed_name: "i < n - 1 \<Longrightarrow> n \<le> maximum_segment_id \<Longrightarrow> segment_name (Suc i) \<noteq> segment_name n"
  using segment_name_inject [of "Suc i" n] by auto

lemma tail_damaged_set_file:
  assumes inv: "log_inv s segs" and es: "es = dir_entries (set_file (segment_name (length segs)) c' s)"
  shows "tail_damaged s segs (next_process es prev) c'"
proof -
  let ?p = "next_process es prev" and ?name = "segment_name (length segs)"
  have I: "no_segments_after s (length segs)" "file_content s ?name \<noteq> None" using inv by (auto simp: log_inv_def)
  have dir: "dir_entries ?p = dir_entries (set_file ?name c' s)" by (simp add: es)
  have "file_content ?p name = (if name = ?name then Some c' else file_content s name)" for name
    by (simp add: file_content_def es set_file_def update_conv')
  moreover have "segment_files ?p = segment_files s"
    using I(2) segment_files_set_file [of s ?name] segment_files_cong [OF dir] by auto
  moreover have "no_segments_after ?p (length segs)"
    using no_segments_after_set_file [OF I(1) log_inv_length [OF inv], of "length segs"] no_segments_after_cong [OF dir] by simp
  ultimately show ?thesis using sealed_name [OF _ log_inv_length [OF inv]] by (simp add: tail_damaged_def)
qed

lemma disk_from_files:
  "(\<And>j. j < length segs \<Longrightarrow> file_content p (segment_name (Suc (i + j))) = file_content s (segment_name (Suc (i + j)))) \<Longrightarrow>
    disk_from s sz i base segs \<Longrightarrow> disk_from p sz i base segs"
proof (induction segs arbitrary: i base)
  case (Cons rs segs)
  have "disk_from p sz (Suc i) (base + entries_size rs) segs"
    using Cons.prems(1) [of "Suc _"] Cons.prems(2) by (intro Cons.IH) simp_all
  then show ?case using Cons.prems(1) [of 0] Cons.prems(2) by simp
qed simp

lemma tail_damaged_image:
  assumes inv: "log_inv s segs" and len: "40 + length body \<le> segment_size s"
    and dmg: "tail_damaged s segs p (make_segment_header (length segs) (entries_size (concat (butlast segs))) (segment_size s) @ body)"
  shows "disk_image p (segment_size s) (butlast segs) body"
proof -
  have ne: "segs \<noteq> []" "disk_from s (segment_size s) 0 0 (butlast segs)" "segment_files s = files_from 0 segs"
    using inv by (auto simp: log_inv_def)
  then have n: "Suc (length segs - 1) = length segs" by simp
  have "files_from 0 (butlast segs @ [[]]) = files_from 0 segs" using ne by (intro files_from_length) simp
  moreover have "disk_from p (segment_size s) 0 0 (butlast segs)"
    using dmg ne(2) by (intro disk_from_files [of _ p 0 s]) (simp_all add: tail_damaged_def)
  ultimately show ?thesis using dmg ne(3) len n log_inv_length [OF inv] by (simp add: disk_image_def tail_damaged_def)
qed

text \<open>However the bytes behind the first \<open>k\<close> records of the newest segment were damaged, the next
  process finds all records up to there.\<close>

lemma open_damaged_tail:
  assumes inv: "log_inv s segs" and k: "k \<le> length (last segs)"
    and t: "take (40 + entries_size (take k (last segs))) c' = take (40 + entries_size (take k (last segs))) c"
    and c: "file_content s (segment_name (length segs)) = Some c" and len: "length c' = length c"
    and dmg: "tail_damaged s segs (next_process es prev) c'"
    and cap: "0 < cap" and off: "entries_size (concat segs) + segment_size s \<le> uint64_max"
  shows "\<exists>s' more. log_open dir (segment_size s) cap (next_process es prev) = (Inr (), s') \<and>
    log_inv s' (butlast segs @ [take k (last segs) @ more]) \<and> script s' = [] \<and> cb_capacity (recent_cache s') = cap \<and>
    (tail_stops (drop (40 + entries_size (take k (last segs))) c') \<longrightarrow> more = [])"
proof -
  let ?base = "entries_size (concat (butlast segs))" and ?rs = "take k (last segs)"
  obtain tail where tl: "c' = make_segment_header (length segs) ?base (segment_size s) @ encode_entries ?base ?rs @ tail"
      "40 + entries_size ?rs + length tail = segment_size s"
    using image_prefix [OF inv k t c len] by blast
  have img: "disk_image (next_process es prev) (segment_size s) (butlast segs) (encode_entries ?base ?rs @ tail)"
    using tail_damaged_image [OF inv, of "encode_entries ?base ?rs @ tail" "next_process es prev"] dmg tl by simp
  have sz: "73 \<le> segment_size s" "segment_size s \<le> off_max" and ne: "segs \<noteq> []" and good: "list_all entry_ok (last segs)"
    using inv by (simp_all add: log_inv_def)
  have "?base + length (encode_entries ?base ?rs @ tail) \<le> uint64_max"
    using off entries_size_split [OF ne] tl(2) by simp
  from log_open_image [OF img next_process_simps(1-3) sz cap this, of dir]
  obtain s' rs where s': "log_open dir (segment_size s) cap (next_process es prev) = (Inr (), s')" "log_inv s' (butlast segs @ [rs])"
      "script s' = []" "cb_capacity (recent_cache s') = cap" and rs: "recovered_tail ?base (encode_entries ?base ?rs @ tail) rs" by blast
  have "list_all entry_ok ?rs" using good by (auto simp: list_all_iff dest: in_set_takeD)
  then have "(\<exists>more. rs = ?rs @ more) \<and> (tail_stops tail \<longrightarrow> rs = ?rs)" using rs unfolding recovered_tail_def by blast
  moreover have "drop (40 + entries_size ?rs) c' = tail" by (simp add: tl(1))
  ultimately show ?thesis using s' by auto
qed

lemma append_killed:
  assumes inv: "log_inv s segs" and int: "append_interrupted now payload begun s c'"
    and fits: "40 + entries_size (last segs) + 32 + length payload \<le> segment_size s"
    and es: "es = dir_entries (set_file (segment_name (length segs)) c' s)"
    and cap: "0 < cap" and off: "entries_size (concat segs) + segment_size s \<le> uint64_max"
  shows "\<exists>s' more. log_open dir (segment_size s) cap (next_process es prev) = (Inr (), s') \<and>
    log_inv s' (butlast segs @ [last segs @ more]) \<and> script s' = [] \<and> cb_capacity (recent_cache s') = cap \<and> (\<not> begun \<longrightarrow> more = [])"
proof -
  let ?wp = "40 + entries_size (last segs)"
  have act: "map_path (active s) = segment_name (length segs)" "map_write_position (active s) = ?wp"
    using inv by (auto simp: log_inv_def active_of_def)
  from int obtain c c1 where c: "file_content s (segment_name (length segs)) = Some c" and t1: "torn_copy (?wp + 32) payload c c1"
    and t2: "if begun then torn_copy ?wp (make_record_header (next_message_offset s) (now mod 2 ^ 64) payload) c1 c' else c' = c1"
    unfolding append_interrupted_def act by blast
  have "take ?wp c1 = take ?wp c" using torn_copy_take [OF t1] by simp
  moreover have "take ?wp c' = take ?wp c1" using t2 torn_copy_take [of ?wp _ c1 c' ?wp] by (auto split: if_splits)
  moreover have "length c' = length c" using t2 torn_copy_length [OF t1] torn_copy_length [of ?wp _ c1 c'] by (auto split: if_splits)
  ultimately obtain s' more where s': "log_open dir (segment_size s) cap (next_process es prev) = (Inr (), s')"
      "log_inv s' (butlast segs @ [last segs @ more])" "script s' = []" "cb_capacity (recent_cache s') = cap" "tail_stops (drop ?wp c') \<longrightarrow> more = []"
    using open_damaged_tail [OF inv le_refl _ c _ tail_damaged_set_file [OF inv es] cap off, of dir prev] by auto
  have "tail_stops (drop ?wp c')" if "\<not> begun"
  proof -
    have cc: "c = segment_bytes (length segs) (entries_size (concat (butlast segs))) (segment_size s) (last segs)
        (segment_size s - 40 - entries_size (last segs))" using inv c by (auto simp: log_inv_def)
    have z: "c' ! (?wp + i) = 0" if i: "i < 4" for i
    proof -
      have "c1 ! (?wp + i) = c ! (?wp + i)" using torn_copy_nth [OF t1] i fits by (simp add: cc)
      also have "\<dots> = 0" using i fits by (simp add: cc segment_bytes_def nth_append)
      finally show ?thesis using t2 \<open>\<not> begun\<close> by simp
    qed
    have "length c' = segment_size s" using \<open>length c' = length c\<close> fits by (simp add: cc)
    then have "take 4 (drop ?wp c') = [0, 0, 0, 0]"
      using z [of 0] z [of 1] z [of 2] z [of 3] fits by (intro nth_equalityI) (auto simp: less_Suc_eq numeral_eq_Suc)
    then show ?thesis by (simp add: tail_stops_def)
  qed
  then show ?thesis using s' by blast
qed

text \<open>The bytes of the newest segment at a moment of the log's life outside of a rollover: no \<open>append\<close> is
  running, or one is copying its record, which fits into the segment.\<close>

definition in_flight :: "log \<Rightarrow> bool \<Rightarrow> byte list \<Rightarrow> bool" where
  "in_flight s begun c' \<longleftrightarrow> \<not> begun \<and> file_content s (map_path (active s)) = Some c' \<or>
     (\<exists>now payload. append_interrupted now payload begun s c' \<and>
        map_write_position (active s) + 32 + length payload \<le> segment_size s)"

lemma in_flight_prefix:
  assumes inv: "log_inv s segs" and fl: "in_flight s begun c'"
  shows "\<exists>c. file_content s (segment_name (length segs)) = Some c \<and> length c' = length c \<and>
    take (40 + entries_size (last segs)) c' = take (40 + entries_size (last segs)) c"
proof -
  let ?wp = "40 + entries_size (last segs)"
  have act: "map_path (active s) = segment_name (length segs)" "map_write_position (active s) = ?wp"
    using inv by (auto simp: log_inv_def active_of_def)
  have "\<exists>c. file_content s (segment_name (length segs)) = Some c \<and> length c' = length c \<and> take ?wp c' = take ?wp c"
    if int: "append_interrupted now payload begun s c'" for now payload
  proof -
    from int obtain c c1 h where c: "file_content s (segment_name (length segs)) = Some c" and t: "torn_copy (?wp + 32) payload c c1"
      "if begun then torn_copy ?wp h c1 c' else c' = c1" unfolding append_interrupted_def act by blast
    have "take ?wp c1 = take ?wp c" using torn_copy_take [OF t(1)] by simp
    then show ?thesis using c t torn_copy_length [OF t(1)] torn_copy_length [of ?wp h c1 c'] torn_copy_take [of ?wp h c1 c' ?wp]
      by (auto split: if_splits)
  qed
  then show ?thesis using fl by (auto simp: in_flight_def act)
qed

lemma in_flight_killed:
  assumes inv: "log_inv s segs" and fl: "in_flight s begun c'"
    and es: "es = dir_entries (set_file (segment_name (length segs)) c' s)"
    and cap: "0 < cap" and off: "entries_size (concat segs) + segment_size s \<le> uint64_max"
  shows "\<exists>s' more. log_open dir (segment_size s) cap (next_process es prev) = (Inr (), s') \<and>
    log_inv s' (butlast segs @ [last segs @ more]) \<and> script s' = [] \<and> cb_capacity (recent_cache s') = cap \<and> (\<not> begun \<longrightarrow> more = [])"
proof -
  let ?wp = "40 + entries_size (last segs)"
  have act: "map_path (active s) = segment_name (length segs)" "map_write_position (active s) = ?wp"
    using inv by (auto simp: log_inv_def active_of_def)
  consider "\<not> begun" "file_content s (segment_name (length segs)) = Some c'"
    | now payload where "append_interrupted now payload begun s c'" "?wp + 32 + length payload \<le> segment_size s"
    using fl unfolding in_flight_def act by blast
  then show ?thesis
  proof cases
    case 1
    then have "drop ?wp c' = replicate (segment_size s - ?wp) 0" using inv by (simp add: log_inv_def segment_bytes_parts)
    then have "tail_stops (drop ?wp c')" by (auto simp: tail_stops_def min_def numeral_eq_Suc)
    then obtain s' where "log_open dir (segment_size s) cap (next_process es prev) = (Inr (), s')"
        "log_inv s' (butlast segs @ [last segs @ []])" "script s' = []" "cb_capacity (recent_cache s') = cap"
      using open_damaged_tail [OF inv le_refl refl 1(2) refl tail_damaged_set_file [OF inv es] cap off, of dir prev] by auto
    then show ?thesis by blast
  next
    case 2
    then show ?thesis using append_killed [OF inv 2 es cap off] by blast
  qed
qed

text \<open>The rollover of \<open>append\<close>, behind which the record is copied into the new segment.\<close>

definition rolled_over :: "log \<Rightarrow> log \<Rightarrow> bool" where
  "rolled_over l l' \<longleftrightarrow> map_segment_id (active l) < maximum_segment_id \<and>
     bind (unmap_active True) (\<lambda>_. create_segment (map_segment_id (active l) + 1) (next_message_offset l)) l = (Inr (), l')"

lemma rolled_over_inv:
  assumes inv: "log_inv l segs" and ok: "script l = []" and roll: "rolled_over l l'"
  shows "log_inv l' (segs @ [[]]) \<and> segment_size l' = segment_size l"
proof -
  have "map_segment_id (active l) = length segs" "next_message_offset l = entries_size (concat segs)"
    using inv by (auto simp: log_inv_def active_of_def)
  then show ?thesis using roll rollover_ok [OF inv ok] by (auto simp: rolled_over_def)
qed

section \<open>A process killed while it creates a segment\<close>

text \<open>A segment file without a header is an error, also for the newest segment.\<close>

lemma scan_segment_headerless:
  fixes s :: log
  assumes ok: "script s = []" and cont: "file_content s name = Some content"
    and bad: "length content < 40 \<or> take 8 content \<noteq> segment_magic"
  shows "\<exists>w. fst (scan_segment name sid latest base s) = Inl (Runtime_error w)"
proof -
  define fd where "fd = next_fd s"
  define s1 where "s1 = s\<lparr>open_fds := (fd, name) # open_fds s, next_fd := fd + 1\<rparr>"
  have s1: "script s1 = []" "map_of (open_fds s1) fd = Some name" "file_content s1 name = Some content"
    using ok cont by (simp_all add: s1_def file_content_def)
  have opn: "sys_open name s = (Inr (Inr fd), s1)" using sys_open_ok [OF ok cont] by (simp add: fd_def s1_def)
  have cl: "fst (close_throw fd e s1) = Inl e" for e using s1(1) by (simp add: close_throw_def bind_apply sys_close_ok)
  note run = scan_segment_def bind_apply Let_def opn sys_fstat_ok [OF s1] segment_header_size_def
  show ?thesis
  proof (cases "length content < 40")
    case True
    then show ?thesis by (simp add: run cl)
  next
    case False
    have "pread_all fd 40 0 s1 = (Inr (None, take 40 content), s1)"
      using pread_all_ok [OF s1(1), of fd content 40 0] s1 by (simp add: fd_bytes_def)
    then show ?thesis using False bad by (simp add: run cl min_def)
  qed
qed

lemma open_headerless:
  assumes inv: "log_inv s segs" and n: "length segs < maximum_segment_id" and cap: "0 < cap"
    and es: "es = dir_entries (set_file (segment_name (Suc (length segs))) content s)"
    and bad: "length content < 40 \<or> take 8 content \<noteq> segment_magic"
  shows "\<exists>w. fst (log_open dir (segment_size s) cap (next_process es prev)) = Inl (Runtime_error w)"
proof -
  let ?n = "length segs" and ?name = "segment_name (Suc (length segs))" and ?sz = "segment_size s"
  obtain cache where cache: "cb_new default_message cap = Inr cache" using cap by (simp add: cb_new_def)
  define p where "p = (next_process es prev)\<lparr>directory := dir, segment_size := ?sz, recent_cache := cache\<rparr>"
  define p0 where "p0 = p\<lparr>next_message_offset := 0, segment_index := []\<rparr>"
  have I: "map_of (dir_entries s) ?name = None" "segment_files s = files_from 0 segs" "73 \<le> ?sz" "?sz \<le> off_max"
    "entries_size (concat segs) \<le> uint64_max" "segs \<noteq> []"
    using inv n by (auto simp: log_inv_def no_segments_after_def)
  have dir: "dir_entries p = dir_entries (set_file ?name content s)" "dir_entries p0 = dir_entries (set_file ?name content s)"
    by (simp_all add: p0_def p_def es)
  have ok: "script p0 = []" "fds_ok p0" "segment_size p0 = ?sz" "script p = []"
    using fds_ok_cong [of p0 "next_process es prev"] by (simp_all add: p0_def p_def)
  have disk: "disk_from p0 ?sz 0 0 segs"
    using disk_from_set_file [OF log_inv_disk [OF inv], of "Suc ?n" content] disk_from_cong [OF dir(2)] n by simp
  have files: "segment_files p = files_from 0 segs @ [(Suc ?n, ?name)]"
    using segment_files_create [of s segs "Suc ?n" content "[]"] segment_files_cong [OF dir(1)] I(1,2) n
    by (simp add: files_from_append)
  define q where "q = p0\<lparr>next_fd := next_fd p0 + int ?n,
      recent_cache := foldl cb_push (recent_cache p0) (entry_messages 0 (concat segs)),
      segment_index := segment_index p0 @ index_from 0 0 segs\<rparr>"
  have step: "recover_segments 0 (segment_files p) 0 p0 = recover_segments ?n [(Suc ?n, ?name)] (entries_size (concat segs)) q"
    unfolding files using recover_segments_intact [OF ok(1,2) disk [folded ok(3)], of "[(Suc ?n, ?name)]"] n I ok(3)
    by (simp add: q_def maximum_segment_id_def off_max_def)
  have "script q = []" "file_content q ?name = Some content"
    using ok dir by (simp_all add: q_def file_content_def set_file_def update_conv')
  then obtain w where "fst (scan_segment ?name (Suc ?n) True (entries_size (concat segs)) q) = Inl (Runtime_error w)"
    using scan_segment_headerless bad by blast
  then have "fst (recover_segments 0 (segment_files p) 0 p0) = Inl (Runtime_error w)"
    unfolding step by (auto split: prod.splits)
  then have "fst (recover_or_create p) = Inl (Runtime_error w)"
    using ok files by (intro recover_or_create_bad [OF _ refl]) (simp_all add: p0_def)
  then show ?thesis
    using log_open_bad [OF next_process_simps(1,3) I(3,4) cap cache, of dir es prev "Runtime_error w"] by (auto simp: p_def)
qed

text \<open>The rollover of \<open>append\<close> up to the two points at which the new file has no header yet: behind
  \<open>open(O_CREAT | O_EXCL)\<close> and behind \<open>ftruncate\<close>.\<close>

definition rollover_opened :: "nat \<Rightarrow> (log, errno + int) prog" where
  "rollover_opened segment_id = bind (unmap_active True) (\<lambda>_. sys_open_excl (segment_name segment_id))"

definition rollover_sized :: "nat \<Rightarrow> (log, errno + unit) prog" where
  "rollover_sized segment_id = bind (rollover_opened segment_id) (\<lambda>r. case r of Inl e \<Rightarrow> ret (Inl e)
     | Inr fd \<Rightarrow> bind (gets segment_size) (\<lambda>size. sys_ftruncate fd size))"

lemma rollover_files:
  assumes inv: "log_inv s segs" and ok: "script s = []" and n: "length segs < maximum_segment_id"
  shows "dir_entries (snd (rollover_opened (Suc (length segs)) s)) = dir_entries (set_file (segment_name (Suc (length segs))) [] s)"
    and "dir_entries (snd (rollover_sized (Suc (length segs)) s)) =
      dir_entries (set_file (segment_name (Suc (length segs))) (replicate (segment_size s) 0) s)"
proof -
  let ?name = "segment_name (Suc (length segs))"
  from inv obtain fd c where act: "active s = active_of fd (segment_size s) (length segs) (entries_size (concat (butlast segs)))
      (40 + entries_size (last segs))" and fd: "map_of (open_fds s) fd = Some (segment_name (length segs))" "0 \<le> fd"
    and c: "file_content s (segment_name (length segs)) = Some c" and free: "map_of (dir_entries s) ?name = None"
    using n by (auto simp: log_inv_def no_segments_after_def)
  obtain u where u: "unmap_active True s = (Inr (), u)" "script u = []" "dir_entries u = dir_entries s" "segment_size u = segment_size s"
    using unmap_active_ok [OF ok act _ fd(1) c] fd(2) ok by simp
  define v where "v = snd (alloc_fd ?name (set_file ?name [] u))"
  have o: "rollover_opened (Suc (length segs)) s = (Inr (Inr (next_fd u)), v)"
    using u free by (simp add: rollover_opened_def bind_apply sys_open_excl_def syscall_def next_out_def alloc_fd_def v_def set_file_def)
  then show "dir_entries (snd (rollover_opened (Suc (length segs)) s)) = dir_entries (set_file ?name [] s)"
    using u by (simp add: v_def alloc_fd_def set_file_def)
  have "script v = []" "map_of (open_fds v) (next_fd u) = Some ?name" "file_content v ?name = Some []" "segment_size v = segment_size s"
    "dir_entries v = dir_entries (set_file ?name [] s)"
    using u by (simp_all add: v_def alloc_fd_def set_file_def file_content_def update_conv')
  then show "dir_entries (snd (rollover_sized (Suc (length segs)) s)) = dir_entries (set_file ?name (replicate (segment_size s) 0) s)"
    using sys_ftruncate_ok [of v "next_fd u" ?name "[]" "segment_size s"]
    by (simp add: rollover_sized_def bind_apply o resize_def) (simp add: set_file_def update_last)
qed

section \<open>What is on stable storage\<close>

text \<open>The directory and the sealed segments are on stable storage, and so are the first \<open>m\<close> bytes of
  the newest segment.\<close>

definition synced :: "'z os_scheme \<Rightarrow> nat \<Rightarrow> nat \<Rightarrow> bool" where
  "synced s n m \<longleftrightarrow> set (durable_names s) = fst ` set (dir_entries s) \<and>
     (\<forall>i < n - 1. file_content s (segment_name (Suc i)) \<noteq> None \<and>
        map_of (durable s) (segment_name (Suc i)) = file_content s (segment_name (Suc i))) \<and>
     (\<exists>c u. file_content s (segment_name n) = Some c \<and> map_of (durable s) (segment_name n) = Some u \<and>
        length u = length c \<and> take m u = take m c)"

text \<open>The records \<open>es\<close> are on stable storage.\<close>

definition safe :: "log \<Rightarrow> entry list list \<Rightarrow> entry list \<Rightarrow> bool" where
  "safe s segs es \<longleftrightarrow> (\<exists>k \<le> length (last segs). synced s (length segs) (40 + entries_size (take k (last segs))) \<and>
     prefix es (concat (butlast segs) @ take k (last segs)))"

lemma concat_last: "segs \<noteq> [] \<Longrightarrow> concat segs = concat (butlast segs) @ last segs"
  by (induction segs) auto

lemma synced_all:
  assumes "synced s n m" "map_of (durable s') = (map_of (durable s))(segment_name n := file_content s (segment_name n))"
    and "dir_entries s' = dir_entries s" "n \<le> maximum_segment_id" "0 < n" and "durable_names s' = durable_names s"
  shows "synced s' n k"
proof -
  have "segment_name (Suc i) \<noteq> segment_name n" if "i < n - 1" for i
    using that assms(4) sealed_name by blast
  then show ?thesis using assms(1-3,6) by (auto simp: synced_def file_content_def)
qed

lemma set_file_names:
  assumes "file_content s name = Some c"
  shows "fst ` set (dir_entries (set_file name c' s)) = fst ` set (dir_entries s)"
proof -
  have "name \<in> set (map fst (dir_entries s))" using assms map_of_SomeD [of "dir_entries s"] by (force simp: file_content_Some)
  then have "map fst (AList.update name (Regular c') (dir_entries s)) = map fst (dir_entries s)" by (simp add: update_keys)
  then show ?thesis by (simp add: set_file_def flip: set_map)
qed

lemma append_record_synced:
  assumes inv: "log_inv s segs" and sync: "synced s (length segs) m" and m: "m \<le> 40 + entries_size (last segs)"
  shows "synced (snd (append_record now payload s)) (length segs) m"
proof -
  let ?n = "length segs" and ?wp = "40 + entries_size (last segs)" and ?t = "snd (append_record now payload s)"
  from inv obtain fd c where act: "active s = active_of fd (segment_size s) ?n (entries_size (concat (butlast segs))) ?wp"
    and c: "file_content s (segment_name ?n) = Some c" by (auto simp: log_inv_def)
  define c' where "c' = overwrite ?wp (make_record_header (next_message_offset s) (now mod 2 ^ 64) payload) (overwrite (?wp + 32) payload c)"
  have t: "dir_entries ?t = dir_entries (set_file (segment_name ?n) c' s)" "durable ?t = durable s" "durable_names ?t = durable_names s"
    by (simp_all add: append_record_run [OF act c] Let_def c'_def)
  have "file_content ?t name = (if name = segment_name ?n then Some c' else file_content s name)" for name
    using t(1) by (simp add: file_content_def set_file_def update_conv')
  moreover have "segment_name (Suc i) \<noteq> segment_name ?n" if "i < ?n - 1" for i
    using that sealed_name log_inv_length [OF inv] by blast
  moreover have "take m c' = take m c" "length c' = length c" using m by (simp_all add: c'_def)
  ultimately show ?thesis using sync c t(2,3) set_file_names [OF c, of c'] by (auto simp: synced_def t(1))
qed

lemma rollover_synced:
  assumes inv: "log_inv s segs" and ok: "script s = []" and n: "length segs < maximum_segment_id"
    and sync: "synced s (length segs) m"
    and s1: "bind (unmap_active True) (\<lambda>_. create_segment (length segs + 1) (entries_size (concat segs))) s = (Inr (), s1)"
  shows "log_inv s1 (segs @ [[]]) \<and> script s1 = [] \<and> synced s1 (Suc (length segs)) 40"
proof -
  let ?n = "length segs"
  define new where "new = segment_bytes (Suc ?n) (entries_size (concat segs)) (segment_size s) [] (segment_size s - 40)"
  have r: "log_inv s1 (segs @ [[]])" "script s1 = []" "dir_entries s1 = dir_entries (set_file (segment_name (Suc ?n)) new s)"
    "map_of (durable s1) = (map_of (durable s))(segment_name ?n := file_content s (segment_name ?n), segment_name (Suc ?n) \<mapsto> new)"
    "durable_names s1 = map fst (dir_entries s1)"
    using rollover_ok [OF inv ok n] s1 by (auto simp: new_def)
  have f: "file_content s1 name = (if name = segment_name (Suc ?n) then Some new else file_content s name)" for name
    using r(3) by (simp add: file_content_def set_file_def update_conv')
  have "synced s1 (Suc ?n) 40"
    unfolding synced_def
  proof (intro conjI allI impI)
    fix i assume "i < Suc ?n - 1"
    then have "segment_name (Suc i) \<noteq> segment_name (Suc ?n)" "Suc i = ?n \<or> i < ?n - 1 \<and> segment_name (Suc i) \<noteq> segment_name ?n"
      using n segment_name_inject [of "Suc i" "Suc ?n"] segment_name_inject [of "Suc i" ?n] by auto
    then show "file_content s1 (segment_name (Suc i)) \<noteq> None" "map_of (durable s1) (segment_name (Suc i)) = file_content s1 (segment_name (Suc i))"
      using sync f r(4) by (auto simp: synced_def)
  qed (simp_all add: f r(4,5))
  then show ?thesis using r by blast
qed

text \<open>No \<open>append\<close> takes a record off stable storage.\<close>

lemma log_append_safe:
  assumes inv: "log_inv s segs" and ok: "script s = []" and sf: "safe s segs es"
    and run: "log_append now payload s = (Inr off, s')"
  shows "\<exists>segs'. log_inv s' segs' \<and> script s' = [] \<and> safe s' segs' es \<and> segment_size s' = segment_size s \<and>
    append_spec (segment_size s) segs now payload = Inr segs'"
proof -
  let ?r = "(now mod 2 ^ 64, payload)" and ?n = "32 + length payload"
  note ref = log_append_refines [OF inv ok, of now payload]
  have ne: "segs \<noteq> []" using inv by (simp add: log_inv_def)
  obtain segs' where spec: "append_spec (segment_size s) segs now payload = Inr segs'" and s': "log_inv s' segs'" "script s' = []"
    "segment_size s' = segment_size s"
    using ref run by (cases "append_spec (segment_size s) segs now payload") auto
  have good: "length payload \<le> uint32_max" "?n \<le> segment_size s - 40" "entries_size (concat segs) + ?n \<le> uint64_max"
    using spec by (auto simp: append_spec_def log_entries_def append_sizes split: if_splits)
  note body = log_append_passed [OF inv refl good, of now]
  obtain k where k: "k \<le> length (last segs)" "synced s (length segs) (40 + entries_size (take k (last segs)))"
    "prefix es (concat (butlast segs) @ take k (last segs))" using sf by (auto simp: safe_def)
  have "safe s' segs' es"
  proof (cases "40 + entries_size (last segs) > segment_size s - ?n")
    case False
    then have "log_append now payload s = append_record now payload s" using body by (simp add: bind_apply)
    moreover have "entries_size (take k (last segs)) \<le> entries_size (last segs)"
      by (metis append_take_drop_id entries_size_simps(3) le_add1)
    ultimately have "synced s' (length segs) (40 + entries_size (take k (last segs)))"
      using append_record_synced [OF inv k(2), of now payload] run by (metis add_le_cancel_left snd_conv)
    moreover have "segs' = add_entry segs ?r" using spec False good
      by (auto simp: append_spec_def log_entries_def append_sizes split: if_splits)
    ultimately show ?thesis using k(1,3) ne by (auto simp: safe_def add_entry_simps intro!: exI [of _ k])
  next
    case True
    then have n: "length segs < maximum_segment_id" and segs': "segs' = segs @ [[?r]]"
      using spec good by (auto simp: append_spec_def log_entries_def append_sizes split: if_splits)
    then obtain s1 where s1: "bind (unmap_active True) (\<lambda>_. create_segment (length segs + 1) (entries_size (concat segs))) s = (Inr (), s1)"
      using rollover_ok [OF inv ok n] by blast
    note r = rollover_synced [OF inv ok n k(2) s1]
    have "append_record now payload s1 = (Inr off, s')" using body run True n s1 by (simp add: bind_apply on_exn_apply)
    then have "synced s' (Suc (length segs)) 40"
      using append_record_synced [of s1 "segs @ [[]]" 40 now payload] r by simp
    moreover have "prefix es (concat segs)"
      using prefix_order.order_trans [OF k(3)] by (simp add: concat_last [OF ne] take_is_prefix)
    ultimately show ?thesis by (auto simp: safe_def segs' intro!: exI [of _ 0])
  qed
  then show ?thesis using s' spec by blast
qed

lemma flush_safe:
  assumes inv: "log_inv s segs" and ok: "script s = []" and sf: "safe s segs es"
  shows "\<exists>s'. flush s = (Inr (), s') \<and> log_inv s' segs \<and> script s' = [] \<and> safe s' segs (concat segs) \<and> segment_size s' = segment_size s"
proof -
  from inv obtain fd sz base wp c where act: "active s = active_of fd sz (length segs) base wp"
    and fd: "map_of (open_fds s) fd = Some (segment_name (length segs))"
    and cont: "file_content s (segment_name (length segs)) = Some c" and op: "opened s" "segs \<noteq> []" "length segs \<le> maximum_segment_id"
    by (auto simp: log_inv_def)
  define s' where "s' = s\<lparr>dirty := removeAll (segment_name (length segs)) (dirty s),
      durable := AList.update (segment_name (length segs)) c (durable s)\<rparr>"
  have run: "flush s = (Inr (), s')"
    using ok act fd cont op by (simp add: flush_def bind_apply syscalls_ok active_of_def s'_def)
  obtain s2 where "flush s = (Inr (), s2)" "log_inv s2 segs" "script s2 = []" using flush_durable [OF inv ok] by blast
  moreover obtain m where m: "synced s (length segs) m" using sf by (auto simp: safe_def)
  have "synced s' (length segs) k" for k
  proof (rule synced_all [OF m _ _ op(3)])
    show "map_of (durable s') = (map_of (durable s))(segment_name (length segs) := file_content s (segment_name (length segs)))"
      by (simp add: s'_def update_conv' cont)
  qed (use op in \<open>simp_all add: s'_def\<close>)
  then have "safe s' segs (concat segs)"
    using concat_last [OF op(2)] by (auto simp: safe_def intro!: exI [of _ "length (last segs)"])
  ultimately show ?thesis using run by (auto simp: s'_def)
qed

section \<open>Power loss\<close>

text \<open>What becomes of a directory entry: a file that was synchronised at its present length has of every
  byte the synchronised or the present value; of any other file the bytes are lost.\<close>

fun survives :: "byte list option \<Rightarrow> dirent \<Rightarrow> dirent \<Rightarrow> bool" where
  "survives d (Regular c) (Regular c') =
     (case d of None \<Rightarrow> True | Some u \<Rightarrow> length u = length c \<longrightarrow>
        length c' = length c \<and> (\<forall>i < length c. c' ! i = c ! i \<or> c' ! i = u ! i))"
| "survives d Other Other = True"
| "survives d _ _ = False"

text \<open>A name that is on stable storage stays, or comes back if it was removed since; a name that is
  not may be gone. The order of the entries is not fixed.\<close>

definition power_loss :: "'z os_scheme \<Rightarrow> (string \<times> dirent) list \<Rightarrow> bool" where
  "power_loss s es \<longleftrightarrow> distinct (map fst es) \<and>
     (\<forall>name. case (map_of (dir_entries s) name, map_of es name) of
        (None, None) \<Rightarrow> True
      | (None, Some _) \<Rightarrow> name \<in> set (durable_names s)
      | (Some _, None) \<Rightarrow> name \<notin> set (durable_names s)
      | (Some e, Some e') \<Rightarrow> survives (map_of (durable s) name) e e')"

text \<open>A power failure at a moment of the log's life outside of a rollover.\<close>

definition power_fails :: "log \<Rightarrow> (string \<times> dirent) list \<Rightarrow> bool" where
  "power_fails s es \<longleftrightarrow> (\<exists>l begun c'. (l = s \<or> rolled_over s l) \<and> in_flight l begun c' \<and>
     power_loss (set_file (map_path (active l)) c' l) es)"

lemma survives_regular: "survives d (Regular c) e \<Longrightarrow> \<exists>c'. e = Regular c' \<and> survives d (Regular c) (Regular c')"
  by (cases e) simp_all

lemma power_loss_entry:
  assumes loss: "power_loss s es" and names: "set (durable_names s) = fst ` set (dir_entries s)"
  shows "map_of (dir_entries s) name = None \<Longrightarrow> map_of es name = None"
    and "map_of (dir_entries s) name = Some e \<Longrightarrow> \<exists>e'. map_of es name = Some e' \<and> survives (map_of (durable s) name) e e'"
proof -
  have cases: "case (map_of (dir_entries s) name, map_of es name) of (None, None) \<Rightarrow> True
      | (None, Some _) \<Rightarrow> name \<in> set (durable_names s) | (Some _, None) \<Rightarrow> name \<notin> set (durable_names s)
      | (Some e, Some e') \<Rightarrow> survives (map_of (durable s) name) e e'"
    using loss unfolding power_loss_def by blast
  show "map_of es name = None" if "map_of (dir_entries s) name = None"
    using cases that names map_of_eq_None_iff [of "dir_entries s" name] by (auto split: option.splits)
  show "\<exists>e'. map_of es name = Some e' \<and> survives (map_of (durable s) name) e e'" if "map_of (dir_entries s) name = Some e"
    using cases that names map_of_eq_None_iff [of "dir_entries s" name] by (auto split: option.splits)
qed

lemma map_filter_distinct:
  "distinct (map fst es) \<Longrightarrow> distinct (List.map_filter segment_entry es)"
proof (induction es)
  case (Cons x es)
  have "snd y \<in> fst ` set es" if "y \<in> set (List.map_filter segment_entry es)" for y
    using that by (force simp: List.map_filter_def segment_entry_def split: dirent.splits)
  moreover have "snd y = fst x" if "segment_entry x = Some y" for y
    using that by (auto simp: segment_entry_def split: prod.splits dirent.splits)
  ultimately show ?case using Cons by (fastforce simp: List.map_filter_simps split: option.splits)
qed (simp add: List.map_filter_simps)

lemma in_map_filter_entry:
  "(i, name) \<in> set (List.map_filter segment_entry es) \<longleftrightarrow> (\<exists>c. (name, Regular c) \<in> set es) \<and> parse_segment_id name = Some i"
  by (force simp: List.map_filter_def segment_entry_def split: dirent.splits prod.splits)

lemma files_from_ids: "map fst (files_from i xs) = [Suc i ..< Suc i + length xs]"
  by (induction xs arbitrary: i) (simp_all add: upt_rec)

text \<open>With the directory on stable storage the same segment files are found.\<close>

lemma power_loss_files:
  assumes loss: "power_loss s es" and names: "set (durable_names s) = fst ` set (dir_entries s)"
    and files: "segment_files s = files_from 0 segs" and there: "\<And>i. i < length segs \<Longrightarrow> file_content s (segment_name (Suc i)) \<noteq> None"
  shows "sort_key fst (List.map_filter segment_entry es) = files_from 0 segs"
proof (rule sort_key_inj_key_eq)
  note kept = power_loss_entry [OF loss names]
  have dist: "distinct (map fst es)" using loss by (simp add: power_loss_def)
  have old: "set (List.map_filter segment_entry (dir_entries s)) = set (files_from 0 segs)"
    using files unfolding segment_files_eq by (metis set_sort)
  have "(i, name) \<in> set (List.map_filter segment_entry es) \<longleftrightarrow> (i, name) \<in> set (files_from 0 segs)" for i name
  proof
    assume "(i, name) \<in> set (List.map_filter segment_entry es)"
    then obtain c where c: "map_of es name = Some (Regular c)" "parse_segment_id name = Some i"
      using dist by (auto simp: in_map_filter_entry)
    then obtain e where e: "map_of (dir_entries s) name = Some e" using kept(1) by (metis option.distinct(1) option.exhaust)
    then have "\<exists>c0. e = Regular c0" using kept(2) [OF e] c(1) by (cases e) auto
    then show "(i, name) \<in> set (files_from 0 segs)"
      using e c(2) by (auto simp: in_map_filter_entry dest: map_of_SomeD simp flip: old)
  next
    assume mem: "(i, name) \<in> set (files_from 0 segs)"
    then have id: "parse_segment_id name = Some i" by (simp add: in_map_filter_entry flip: old)
    have "file_content s name \<noteq> None" using mem there by (auto simp: set_files_from)
    then obtain c where "map_of (dir_entries s) name = Some (Regular c)" by (auto simp: file_content_Some)
    then obtain c' where "map_of es name = Some (Regular c')" using kept(2) survives_regular by blast
    then show "(i, name) \<in> set (List.map_filter segment_entry es)" using id by (auto simp: in_map_filter_entry dest: map_of_SomeD)
  qed
  then have same: "set (List.map_filter segment_entry es) = set (files_from 0 segs)" by auto
  moreover have ids: "distinct (files_from 0 segs)" using files_from_ids [of 0 segs] by (metis distinct_map distinct_upt)
  ultimately show "mset (List.map_filter segment_entry es) = mset (files_from 0 segs)"
    using map_filter_distinct [OF dist] by (simp add: set_eq_iff_mset_eq_distinct)
  have "distinct (map fst (files_from 0 segs))" by (simp add: files_from_ids)
  then show "inj_on fst (set (List.map_filter segment_entry es))" by (simp add: same distinct_map)
  show "sorted (map fst (files_from 0 segs))" unfolding files_from_ids by (rule sorted_upt)
qed

lemma survives_same: "survives (Some c) (Regular c) (Regular c') \<Longrightarrow> c' = c"
  by (auto intro: nth_equalityI)

lemma survives_take:
  assumes "survives (Some u) (Regular c) (Regular c')" "length u = length c" "take m u = take m c"
  shows "take m c' = take m c"
proof (intro nth_equalityI)
  show "length (take m c') = length (take m c)" using assms(1,2) by simp
  fix i assume "i < length (take m c')"
  then have "i < m" "i < length c" using assms(1,2) by simp_all
  then show "take m c' ! i = take m c ! i" using assms nth_take [of i m u] nth_take [of i m c] by auto
qed

lemma power_loss_damage:
  assumes inv: "log_inv s segs" and sync: "synced s (length segs) m"
    and c: "file_content s (segment_name (length segs)) = Some c" and d: "length d = length c" "take m d = take m c"
    and loss: "power_loss (set_file (segment_name (length segs)) d s) es"
  shows "\<exists>c'. length c' = length c \<and> take m c' = take m c \<and> tail_damaged s segs (next_process es prev) c'"
proof -
  let ?n = "length segs" and ?p = "next_process es prev" and ?s = "set_file (segment_name (length segs)) d s"
  have names: "set (durable_names ?s) = fst ` set (dir_entries ?s)" using sync set_file_names [OF c] by (simp add: synced_def)
  note kept = power_loss_entry [OF loss names]
  have sv: "\<exists>b'. file_content ?p name = Some b' \<and> survives (map_of (durable s) name) (Regular b) (Regular b')"
    if "file_content ?s name = Some b" for name b
    using kept(2) [of name "Regular b"] that survives_regular unfolding file_content_Some next_process_simps by auto
  have I: "no_segments_after s ?n" "segment_files s = files_from 0 segs" using inv by (simp_all add: log_inv_def)
  have "no_segments_after ?s ?n" using no_segments_after_set_file [OF I(1) log_inv_length [OF inv], of ?n] by simp
  then have none: "no_segments_after ?p ?n" using kept(1) by (simp add: no_segments_after_def)
  have "file_content ?s (segment_name (Suc i)) \<noteq> None" if "i < ?n" for i
    using that sync by (cases "Suc i = ?n") (auto simp: synced_def)
  moreover have "segment_files ?s = files_from 0 segs" using segment_files_set_file [OF c] I(2) by simp
  ultimately have "sort_key fst (List.map_filter segment_entry es) = files_from 0 segs"
    by (intro power_loss_files [OF loss names])
  then have files: "segment_files ?p = segment_files s" using I(2) by (simp add: segment_files_eq)
  have sealed: "file_content ?p (segment_name (Suc i)) = file_content s (segment_name (Suc i))" if i: "i < ?n - 1" for i
  proof -
    obtain b where b: "file_content s (segment_name (Suc i)) = Some b" "map_of (durable s) (segment_name (Suc i)) = Some b"
      using sync i by (fastforce simp: synced_def)
    have "file_content ?s (segment_name (Suc i)) = Some b" using b(1) sealed_name [OF i log_inv_length [OF inv]] by simp
    from sv [OF this] obtain b' where "file_content ?p (segment_name (Suc i)) = Some b'" "survives (Some b) (Regular b) (Regular b')"
      unfolding b(2) by blast
    then show ?thesis using survives_same b(1) by simp
  qed
  obtain u where u: "map_of (durable s) (segment_name ?n) = Some u" "length u = length c" "take m u = take m c"
    using sync c by (auto simp: synced_def)
  obtain c' where c': "file_content ?p (segment_name ?n) = Some c'" "survives (Some u) (Regular d) (Regular c')"
    using sv [of "segment_name ?n" d] u(1) by auto
  moreover have "take m c' = take m c" using survives_take [OF c'(2), of m] u(2,3) d by simp
  moreover have "length c' = length c" using c'(2) u(2) d(1) by simp
  ultimately show ?thesis using sealed files none by (auto simp: tail_damaged_def)
qed

text \<open>The records on stable storage are found again.\<close>

lemma open_after_power_loss:
  assumes inv: "log_inv s segs" and sf: "safe s segs es" and fl: "in_flight s begun d"
    and loss: "power_loss (set_file (segment_name (length segs)) d s) ds"
    and cap: "0 < cap" and off: "entries_size (concat segs) + segment_size s \<le> uint64_max"
  shows "\<exists>s' segs'. log_open dir (segment_size s) cap (next_process ds prev) = (Inr (), s') \<and> log_inv s' segs' \<and>
    script s' = [] \<and> cb_capacity (recent_cache s') = cap \<and> prefix es (concat segs')"
proof -
  obtain k where k: "k \<le> length (last segs)" "synced s (length segs) (40 + entries_size (take k (last segs)))"
    "prefix es (concat (butlast segs) @ take k (last segs))" using sf by (auto simp: safe_def)
  let ?m = "40 + entries_size (take k (last segs))" and ?wp = "40 + entries_size (last segs)"
  obtain c where c: "file_content s (segment_name (length segs)) = Some c" "length d = length c" "take ?wp d = take ?wp c"
    using in_flight_prefix [OF inv fl] by blast
  have "entries_size (take k (last segs)) \<le> entries_size (last segs)"
    by (metis append_take_drop_id entries_size_simps(3) le_add1)
  then have "?m \<le> ?wp" by simp
  then have "take ?m d = take ?m c" using arg_cong [OF c(3), of "take ?m"] by (simp add: min_absorb1)
  then obtain c' where c': "length c' = length c" "take ?m c' = take ?m c" "tail_damaged s segs (next_process ds prev) c'"
    using power_loss_damage [OF inv k(2) c(1,2) _ loss] by blast
  obtain s' more where s': "log_open dir (segment_size s) cap (next_process ds prev) = (Inr (), s')"
    "log_inv s' (butlast segs @ [take k (last segs) @ more])" "script s' = []" "cb_capacity (recent_cache s') = cap"
    using open_damaged_tail [OF inv k(1) c'(2) c(1) c'(1,3) cap off, of dir] by blast
  have "prefix es (concat (butlast segs @ [take k (last segs) @ more]))" using prefix_prefix [OF k(3), of more] by simp
  then show ?thesis using s' by blast
qed

lemma rolled_over_safe:
  assumes inv: "log_inv s segs" and ok: "script s = []" and sf: "safe s segs es" and roll: "rolled_over s l"
  shows "log_inv l (segs @ [[]]) \<and> segment_size l = segment_size s \<and> safe l (segs @ [[]]) es"
proof -
  have ne: "segs \<noteq> []" using inv by (simp add: log_inv_def)
  obtain k where k: "synced s (length segs) (40 + entries_size (take k (last segs)))"
    "prefix es (concat (butlast segs) @ take k (last segs))" using sf by (auto simp: safe_def)
  have "map_segment_id (active s) = length segs" "next_message_offset s = entries_size (concat segs)"
    using inv by (auto simp: log_inv_def active_of_def)
  then have "synced l (Suc (length segs)) 40"
    using roll rollover_synced [OF inv ok _ k(1)] by (auto simp: rolled_over_def)
  moreover have "prefix es (concat segs)"
    using prefix_order.order_trans [OF k(2)] by (simp add: concat_last [OF ne] take_is_prefix)
  ultimately show ?thesis using rolled_over_inv [OF inv ok roll] by (auto simp: safe_def)
qed

lemma open_after_power_fails:
  assumes inv: "log_inv s segs" and ok: "script s = []" and sf: "safe s segs es" and fails: "power_fails s ds"
    and cap: "0 < cap" and off: "entries_size (concat segs) + segment_size s \<le> uint64_max"
  shows "\<exists>s' segs'. log_open dir (segment_size s) cap (next_process ds prev) = (Inr (), s') \<and> log_inv s' segs' \<and>
    script s' = [] \<and> cb_capacity (recent_cache s') = cap \<and> prefix es (concat segs')"
proof -
  obtain l begun c' where l: "l = s \<or> rolled_over s l" and fl: "in_flight l begun c'"
    and loss: "power_loss (set_file (map_path (active l)) c' l) ds" using fails by (auto simp: power_fails_def)
  obtain segs1 where l1: "log_inv l segs1" "segment_size l = segment_size s" "safe l segs1 es" "concat segs1 = concat segs"
    using l inv sf rolled_over_safe [OF inv ok sf] by fastforce
  have "map_path (active l) = segment_name (length segs1)" using l1(1) by (auto simp: log_inv_def active_of_def)
  then show ?thesis
    using open_after_power_loss [OF l1(1,3) fl _ cap, of ds dir prev] loss off l1(2,4) by simp
qed

end
