(* ===== verification/Log_Properties.thy ===== *)
theory Log_Properties
  imports Log_Crash
begin

text \<open>
  The properties of the log, stated over the operations of \<open>Mmap_Log\<close>, with an example
  log to which each of them is applied. \<open>append_each\<close> is a client that appends a list of
  timestamped payloads.
\<close>

section \<open>A client and an example log\<close>

fun append_each :: "(nat \<times> byte list) list \<Rightarrow> (log, nat list) prog" where
  "append_each [] = ret []"
| "append_each ((now, payload) # ws) =
     bind (log_append now payload) (\<lambda>off. bind (append_each ws) (\<lambda>offs. ret (off # offs)))"

definition stamped :: "nat \<times> byte list \<Rightarrow> entry" where
  "stamped w = (fst w mod 2 ^ 64, snd w)"

fun offsets_from :: "nat \<Rightarrow> (nat \<times> byte list) list \<Rightarrow> nat list" where
  "offsets_from off [] = []"
| "offsets_from off (w # ws) = off # offsets_from (off + 32 + length (snd w)) ws"

definition empty_os :: os where
  "empty_os = \<lparr>dir_entries = [], durable = [], durable_names = [], dirty = [], open_fds = [], next_fd = 3, maps = [], script = []\<rparr>"

definition example_log :: log where
  "example_log = snd (log_open ''data'' 128 4 (new_log empty_os))"

text \<open>A directory after a crash inside an \<open>append\<close>, and one with a sealed segment.\<close>

definition torn_os :: os where
  "torn_os = empty_os\<lparr>dir_entries := [(segment_name 1, Regular (make_segment_header 1 0 128 @
     encode_entries 0 [(5, [1, 2])] @ [0, 0, 0, 0, 9, 9]))]\<rparr>"

definition sealed_os :: os where
  "sealed_os = empty_os\<lparr>dir_entries := [(segment_name 1, Regular (segment_bytes 1 0 128 [(5, [1, 2])] 0)),
     (segment_name 2, Regular (make_segment_header 2 34 128))]\<rparr>"

lemma new_log_empty:
  "segment_files (new_log empty_os) = []" "no_segments_after (new_log empty_os) 0"
  "script (new_log empty_os) = []" "fds_ok (new_log empty_os)" "\<not> opened (new_log empty_os)"
  by (simp_all add: new_log_def empty_os_def os.defs segment_files_def no_segments_after_def fds_ok_def
      List.map_filter_simps)

lemma open_empty:
  assumes "73 \<le> sz" "sz \<le> off_max" "0 < cap"
  shows "\<exists>s'. log_open dir sz cap (new_log empty_os) = (Inr (), s') \<and> log_inv s' [[]] \<and> script s' = [] \<and>
    segment_size s' = sz"
  using log_open_fresh [OF new_log_empty assms, of dir] by blast

lemma example_log_inv: "log_inv example_log [[]]" "script example_log = []" "segment_size example_log = 128"
proof -
  obtain s' where "log_open ''data'' 128 4 (new_log empty_os) = (Inr (), s')" "log_inv s' [[]]" "script s' = []"
    "segment_size s' = 128"
    using open_empty [of 128 4 "''data''"] by (auto simp: off_max_def)
  then show "log_inv example_log [[]]" "script example_log = []" "segment_size example_log = 128"
    by (simp_all add: example_log_def)
qed

lemma append_each_ok:
  assumes "log_inv s segs" and "script s = []"
    and "\<forall>w \<in> set ws. 32 + length (snd w) \<le> segment_size s - 40 \<and> length (snd w) \<le> uint32_max"
    and "entries_size (concat segs) + entries_size (map stamped ws) \<le> uint64_max"
    and "length segs + length ws \<le> maximum_segment_id"
  shows "\<exists>s' segs'. append_each ws s = (Inr (offsets_from (entries_size (concat segs)) ws), s') \<and>
    log_inv s' segs' \<and> script s' = [] \<and> concat segs' = concat segs @ map stamped ws \<and>
    segment_size s' = segment_size s"
  using assms
proof (induction ws arbitrary: s segs)
  case (Cons w ws)
  obtain now payload where w: "w = (now, payload)" by fastforce
  define r where "r = stamped w"
  have r: "r = (now mod 2 ^ 64, payload)" by (simp add: r_def stamped_def w)
  have ne: "segs \<noteq> []" using Cons.prems(1) by (simp add: log_inv_def)
  define segs1 where "segs1 = (if 40 + entries_size (last segs) + (32 + length payload) \<le> segment_size s
      then add_entry segs r else segs @ [[r]])"
  have spec: "append_spec (segment_size s) segs now payload = Inr segs1"
    using Cons.prems(3-5) by (auto simp: append_spec_def Let_def record_header_size_def segment_header_size_def
        w segs1_def log_entries_def r entry_size_eq stamped_def)
  then obtain s1 where s1: "log_append now payload s = (Inr (entries_size (concat segs)), s1)"
      "log_inv s1 segs1" "script s1 = []" "segment_size s1 = segment_size s"
    using log_append_refines [OF Cons.prems(1,2), of now payload] by (auto simp: log_entries_def)
  have c1: "concat segs1 = concat segs @ [r]" and n1: "length segs1 \<le> Suc (length segs)"
    using concat_add_entry [OF ne] ne by (simp_all add: segs1_def add_entry_simps)
  obtain s' segs' where s': "append_each ws s1 = (Inr (offsets_from (entries_size (concat segs1)) ws), s')"
      "log_inv s' segs'" "script s' = []" "concat segs' = concat segs1 @ map stamped ws"
      "segment_size s' = segment_size s1"
    using Cons.IH [OF s1(2,3)] Cons.prems(3-5) s1(4) c1 n1 by (auto simp: r_def)
  then show ?case
    using s1 by (intro exI [of _ s'] exI [of _ segs'])
      (simp add: w bind_apply c1 r_def [symmetric] entry_size_eq r add.assoc stamped_def [of "(now, payload)"])
qed auto

lemma get_recent_inv:
  "log_inv s segs \<Longrightarrow> get_recent s n = last_n (min n (cb_capacity (recent_cache s))) (entry_messages 0 (concat segs))"
  by (simp add: get_recent_def ring.recent_contents log_inv_def)

section \<open>Properties\<close>

text \<open>C2. \<open>append\<close> implements the abstract append. On an open log that holds the records
  \<open>segs\<close> (grouped by segment) and without failing system calls, a payload that is too long,
  does not fit an empty segment, or exhausts offsets or segment ids is rejected with the
  source's exception and nothing changes; any other payload becomes the last record of the
  newest segment, or the first record of a new one when the newest has no room, its offset is
  the sum of the sizes of all earlier records, and files, index, cache and mapping again
  represent the new contents.\<close>

theorem append_refines:
  assumes "log_inv s segs" and "script s = []"
  shows "case append_spec (segment_size s) segs now payload of
      Inl e \<Rightarrow> log_append now payload s = (Inl e, s)
    | Inr segs' \<Rightarrow> \<exists>s'. log_append now payload s = (Inr (entries_size (log_entries segs)), s') \<and>
        log_inv s' segs' \<and> script s' = [] \<and> segment_size s' = segment_size s"
  using log_append_refines [OF assms] .

theorem append_refines_witness:
  "\<exists>s'. log_append 7 [1, 2, 3] example_log = (Inr 0, s') \<and> log_inv s' [[(7, [1, 2, 3])]]"
  using append_refines [OF example_log_inv(1,2), of 7 "[1, 2, 3]"] example_log_inv(3)
  by (auto simp: append_spec_def record_header_size_def segment_header_size_def add_entry_def log_entries_def
      uint64_max_def uint32_max_def)

text \<open>C5. The whole life of a log: opened on an empty directory, every payload that a client
  appends gets the running offset, and after closing the log and opening the directory again
  (with any cache capacity) the log continues at the same offset and \<open>get_recent\<close> returns the
  last \<open>min n cap'\<close> messages, oldest first, with their offsets, timestamps and payloads.\<close>

theorem append_close_reopen:
  assumes size: "73 \<le> sz" "sz \<le> off_max" and cap: "0 < cap" "0 < cap'"
    and payloads: "\<forall>w \<in> set ws. 32 + length (snd w) \<le> sz - 40 \<and> length (snd w) \<le> uint32_max"
    and room: "entries_size (map stamped ws) \<le> uint64_max" "Suc (length ws) \<le> maximum_segment_id"
  shows "\<exists>s1 s2 s3 s4. log_open dir sz cap (new_log empty_os) = (Inr (), s1) \<and>
    append_each ws s1 = (Inr (offsets_from 0 ws), s2) \<and> log_close s2 = (Inr (), s3) \<and>
    log_open dir sz cap' s3 = (Inr (), s4) \<and> next_offset s4 = next_offset s2 \<and>
    next_offset s4 = entries_size (map stamped ws) \<and>
    get_recent s4 n = last_n (min n cap') (entry_messages 0 (map stamped ws))"
proof -
  obtain s1 where s1: "log_open dir sz cap (new_log empty_os) = (Inr (), s1)" "log_inv s1 [[]]" "script s1 = []"
    "segment_size s1 = sz"
    using open_empty [OF size cap(1), of dir] by blast
  obtain s2 segs where s2: "append_each ws s1 = (Inr (offsets_from 0 ws), s2)" "log_inv s2 segs" "script s2 = []"
    "concat segs = map stamped ws" "segment_size s2 = sz"
    using append_each_ok [OF s1(2,3), of ws] s1(4) payloads room by auto
  obtain s3 s4 where s4: "log_close s2 = (Inr (), s3)" "log_open dir sz cap' s3 = (Inr (), s4)" "log_inv s4 segs"
    "cb_capacity (recent_cache s4) = cap'"
    using reopen_same [OF s2(2,3) cap(2), of dir] s2(5) by auto
  have "next_offset s4 = entries_size (map stamped ws)" "next_offset s2 = entries_size (map stamped ws)"
    using s2(2,4) s4(3) by (simp_all add: next_offset_def log_inv_def)
  then show ?thesis using s1(1) s2(1) s4 get_recent_inv [OF s4(3), of n] s2(4) by auto
qed

theorem append_close_reopen_witness:
  "\<exists>s1 s2 s3 s4. log_open ''data'' 128 4 (new_log empty_os) = (Inr (), s1) \<and>
    append_each [(5, [1, 2]), (6, []), (7, [3])] s1 = (Inr [0, 34, 66], s2) \<and> log_close s2 = (Inr (), s3) \<and>
    log_open ''data'' 128 1 s3 = (Inr (), s4) \<and> next_offset s4 = 99 \<and>
    get_recent s4 10 = [entry_message 66 (7, [3])]"
  using append_close_reopen [of 128 4 1 "[(5, [1, 2]), (6, []), (7, [3])]" "''data''" 10]
  by (auto simp: off_max_def uint32_max_def uint64_max_def maximum_segment_id_def stamped_def entry_size_eq
      last_n_def entry_message_def)

text \<open>C6. Crash recovery. Opening a directory with intact sealed segments and a newest segment
  with a valid header and any bytes behind it succeeds. The sealed segments keep their records;
  the newest one keeps at least every record that was completely written, and nothing else when
  less than a record header follows or the next record's magic number is still zero, which is
  the state of the file in every moment of an \<open>append\<close> before its header write.\<close>

theorem open_recovers:
  fixes s :: log
  assumes "disk_image s sz sealed body" and "script s = []" "fds_ok s" "\<not> opened s"
    and "73 \<le> sz" "sz \<le> off_max" "0 < cap"
    and "entries_size (concat sealed) + length body \<le> uint64_max"
  shows "\<exists>s' rs. log_open dir sz cap s = (Inr (), s') \<and> log_inv s' (sealed @ [rs]) \<and>
    recovered_tail (entries_size (concat sealed)) body rs \<and> script s' = [] \<and> cb_capacity (recent_cache s') = cap"
  using log_open_image [OF assms] .

lemma torn_disk_image: "disk_image (new_log torn_os) 128 [] (encode_entries 0 [(5, [1, 2])] @ [0, 0, 0, 0, 9, 9])"
  using parse_segment_name [of 1] segment_name_inject [of _ 1]
  by (auto simp: disk_image_def torn_os_def empty_os_def new_log_def os.defs segment_files_def List.map_filter_simps
      file_content_def no_segments_after_def maximum_segment_id_def entry_size_eq)

theorem open_recovers_witness:
  "\<exists>s'. log_open ''data'' 128 4 (new_log torn_os) = (Inr (), s') \<and> log_inv s' [[(5, [1, 2])]]"
proof -
  have "script (new_log torn_os) = []" "fds_ok (new_log torn_os)" "\<not> opened (new_log torn_os)"
    by (simp_all add: torn_os_def empty_os_def new_log_def os.defs fds_ok_def)
  then obtain s' rs where s': "log_open ''data'' 128 4 (new_log torn_os) = (Inr (), s')" "log_inv s' [rs]"
    and tail: "recovered_tail 0 (encode_entries 0 [(5, [1, 2])] @ [0, 0, 0, 0, 9, 9]) rs"
    using open_recovers [OF torn_disk_image, of 4 "''data''"]
    by (auto simp: off_max_def entry_size_eq uint64_max_def)
  then have "rs = [(5, [1, 2])]"
    unfolding recovered_tail_def
    by (elim conjE allE [of _ "[(5, [1, 2])]"]) (simp add: tail_stops_def entry_ok_def)
  then show ?thesis using s' by auto
qed

text \<open>C17. Damage to a sealed segment is detected. When one byte of one record of a sealed segment
  is changed (anywhere in its header but in the length field, or in its payload), opening the log
  throws \<open>runtime_error\<close> instead of dropping or altering records.\<close>

theorem open_detects_damage:
  fixes s :: log
  assumes "disk_image s sz sealed body" and "script s = []" "fds_ok s" and "\<not> opened s"
    and "73 \<le> sz" "sz \<le> off_max" and "0 < cap" and "entries_size (concat sealed) \<le> uint64_max"
    and "sealed = pre @ (rs1 @ r # rs2) # post" and "name = segment_name (Suc (length pre))"
    and "file_content s name = Some content"
    and "j < entry_size r" "\<not> (24 \<le> j \<and> j < 28)"
    and "content ! (40 + entries_size rs1 + j) \<noteq> x"
  shows "\<exists>w. fst (log_open dir sz cap (set_file name (content[40 + entries_size rs1 + j := x]) s)) = Inl (Runtime_error w)"
  using log_open_damaged [OF assms] .

lemma example_entry_ok: "entry_ok (5, [1, 2])"
  by (simp add: entry_ok_def)

lemma sealed_disk_image: "disk_image (new_log sealed_os) 128 [[(5, [1, 2])]] []"
  using parse_segment_name [of 1] parse_segment_name [of 2] segment_name_inject [of _ 1] segment_name_inject [of _ 2]
    segment_name_inject [of 2 1]
  by (auto simp: disk_image_def sealed_os_def empty_os_def new_log_def os.defs segment_files_def List.map_filter_simps
      file_content_def no_segments_after_def maximum_segment_id_def entry_size_eq numeral_2_eq_2
      example_entry_ok [unfolded numeral_2_eq_2])

theorem open_detects_damage_witness:
  "\<exists>w. fst (log_open ''data'' 128 4 (set_file (segment_name 1)
      ((segment_bytes 1 0 128 [(5, [1, 2])] 0)[40 + entries_size [] + 33 := 3]) (new_log sealed_os))) = Inl (Runtime_error w)"
proof -
  have s: "script (new_log sealed_os) = []" "fds_ok (new_log sealed_os)" "\<not> opened (new_log sealed_os)"
    "file_content (new_log sealed_os) (segment_name 1) = Some (segment_bytes 1 0 128 [(5, [1, 2])] 0)"
    by (simp_all add: sealed_os_def empty_os_def new_log_def os.defs fds_ok_def file_content_def)
  show ?thesis
  proof (rule open_detects_damage [OF sealed_disk_image s(1-3)])
    show "[[(5, [1, 2])]] = [] @ ([] @ (5, [1, 2]) # []) # []" by simp
    show "segment_bytes 1 0 128 [(5, [1, 2])] 0 ! (40 + entries_size [] + 33) \<noteq> 3"
      by (simp add: segment_bytes_def encode_entry_def nth_append)
  qed (use s(4) in \<open>simp_all add: off_max_def uint64_max_def entry_size_eq\<close>)
qed

text \<open>C18. Failing system calls. Whatever calls fail, an \<open>append\<close> that throws has left the log
  as it was, or has closed it: no later \<open>append\<close> runs on a half-finished rollover.\<close>

theorem append_failure_closes:
  assumes "log_append now payload s = (Inl e, s')"
  shows "s' = s \<or> \<not> is_open s'"
  using log_append_failed [OF assms] by (simp add: is_open_def)

theorem append_failure_closes_witness:
  "fst (log_append 7 (replicate 100 1) example_log) = Inl (Length_error ''record is too large to fit in an empty segment'') \<and>
   snd (log_append 7 (replicate 100 1) example_log) = example_log"
proof -
  obtain r s' where run: "log_append 7 (replicate 100 1) example_log = (r, s')" by fastforce
  have "r = Inl (Length_error ''record is too large to fit in an empty segment'') \<and> is_open s'"
    using log_append_refines [OF example_log_inv(1,2), of 7 "replicate 100 1"] example_log_inv run
    by (simp add: append_spec_def record_header_size_def segment_header_size_def Let_def uint32_max_def
        is_open_def log_inv_def)
  then show ?thesis using append_failure_closes [of 7 "replicate 100 1" example_log _ s'] run by auto
qed

text \<open>C20. The record scan of a segment computes the reference decoder: it delivers to the recent
  cache the messages of the records that the decoder accepts, in order, stops where the decoder
  stops, and throws (with the descriptor closed) where the decoder fails.\<close>

theorem scan_is_decoder:
  assumes "script s = []" and "fd_bytes s fd content"
  shows "scan_records fd path latest (length content) pos expected s =
    (case scan_spec path latest (segment_size s) content pos expected of
       (Inl e, ms) \<Rightarrow> (Inl e, s\<lparr>recent_cache := foldl cb_push (recent_cache s) ms,
                              open_fds := AList.delete fd (open_fds s)\<rparr>)
     | (Inr r, ms) \<Rightarrow> (Inr r, s\<lparr>recent_cache := foldl cb_push (recent_cache s) ms\<rparr>))"
  using scan_records_refines [OF assms] .

theorem scan_is_decoder_witness:
  "scan_records 3 ''p'' True 40 40 0 (new_log (empty_os\<lparr>dir_entries := [(''f'', Regular (replicate 40 7))],
      open_fds := [(3, ''f'')]\<rparr>)) =
   (Inr (40, 0, False), new_log (empty_os\<lparr>dir_entries := [(''f'', Regular (replicate 40 7))], open_fds := [(3, ''f'')]\<rparr>))"
  using scan_is_decoder [of "new_log (empty_os\<lparr>dir_entries := [(''f'', Regular (replicate 40 7))],
      open_fds := [(3, ''f'')]\<rparr>)" 3 "replicate 40 7" "''p''" True 40 0]
  by (simp add: new_log_def empty_os_def os.defs fd_bytes_def file_content_def scan_spec.simps [of _ _ _ _ 40 0])

text \<open>C21. Whatever the pattern of short and interrupted reads, \<open>pread_all\<close> that reports no error
  returns exactly the requested bytes that the file has.\<close>

theorem pread_all_complete:
  assumes "fd_bytes s fd content" and "pread_all fd len off s = (Inr (None, got), s')"
  shows "got = take len (drop off content)"
  using assms pread_loop_result [of content len off "[]"]
  by (auto simp: pread_all_def fd_bytes_def split: prod.splits)

theorem pread_all_complete_witness:
  "pread_all 3 3 1 (empty_os\<lparr>dir_entries := [(''f'', Regular [1, 2, 3, 4, 5])], open_fds := [(3, ''f'')],
      script := [Short 1, Err EINTR, Short 1]\<rparr>) =
     (Inr (None, [2, 3, 4]), empty_os\<lparr>dir_entries := [(''f'', Regular [1, 2, 3, 4, 5])], open_fds := [(3, ''f'')]\<rparr>)"
proof -
  let ?s = "empty_os\<lparr>dir_entries := [(''f'', Regular [1, 2, 3, 4, 5])], open_fds := [(3, ''f'')]\<rparr>"
  obtain got where "pread_all 3 3 1 (?s\<lparr>script := [Short 1, Err EINTR, Short 1]\<rparr>) = (Inr (None, got), ?s)"
    by (simp add: pread_all_def empty_os_def file_content_def pread_loop.simps sys_pread_def EINTR_def)
  moreover have "fd_bytes (?s\<lparr>script := [Short 1, Err EINTR, Short 1]\<rparr>) 3 [1, 2, 3, 4, 5]"
    by (simp add: fd_bytes_def file_content_def)
  ultimately show ?thesis using pread_all_complete [of "?s\<lparr>script := [Short 1, Err EINTR, Short 1]\<rparr>" 3 _ 3 1 got ?s] by simp
qed

text \<open>C22. \<open>disk_usage_bytes\<close> of an open log is the total size of its segment files, at most the
  configured segment size for each.\<close>

theorem disk_usage_exact:
  assumes "log_inv s segs" and "script s = []" and "length segs * segment_size s < 2 ^ 64"
  shows "\<exists>n. disk_usage_bytes s = (Inr n, s) \<and>
    n = (\<Sum>info \<leftarrow> segments s. length (the (file_content s (seg_path info)))) \<and> n \<le> length segs * segment_size s"
  using disk_usage_ok [OF assms] .

theorem disk_usage_exact_witness: "\<exists>n \<le> 128. disk_usage_bytes example_log = (Inr n, example_log)"
  using disk_usage_exact [OF example_log_inv(1,2)] example_log_inv(3) by auto

text \<open>The ring buffer is a sliding window: after any sequence of pushes on a new buffer of
  capacity \<open>c\<close>, \<open>get_recent(n)\<close> returns the last \<open>min n c\<close> pushed elements, oldest first.\<close>

lemma ring_window:
  assumes "cb_new dflt c = Inr b"
  shows "cb_get_recent (foldl cb_push b xs) n = last_n (min n c) xs"
  using cb_inv_new [OF assms] ring.recent_after_push_all [of b xs n] by simp

end
