(* ===== verification/Crash_Properties.thy ===== *)
theory Crash_Properties
  imports Log_Properties
begin

text \<open>
  What a client of the log can rely on when its process is killed or the machine loses power,
  stated over the operations of \<open>Mmap_Log\<close> and the crash model of \<open>Log_Crash\<close>.
\<close>

lemma next_offset_inv: "log_inv s segs \<Longrightarrow> next_offset s = entries_size (concat segs)"
  by (simp add: next_offset_def log_inv_def)

section \<open>A client and power loss\<close>

lemma append_each_safe:
  assumes "log_inv s segs" and "script s = []" and "safe s segs es" and "append_each ws s = (Inr offs, s')"
  shows "\<exists>segs'. log_inv s' segs' \<and> script s' = [] \<and> safe s' segs' es \<and> segment_size s' = segment_size s \<and>
    concat segs' = concat segs @ map stamped ws \<and> length segs' \<le> length segs + length ws"
  using assms
proof (induction ws arbitrary: s segs offs)
  case (Cons w ws)
  obtain now payload where w: "w = (now, payload)" by fastforce
  have ne: "segs \<noteq> []" using Cons.prems(1) by (simp add: log_inv_def)
  from Cons.prems(4) obtain off s1 offs' where run: "log_append now payload s = (Inr off, s1)" "append_each ws s1 = (Inr offs', s')"
    by (auto simp: w bind_apply split: prod.splits sum.splits)
  obtain segs1 where s1: "log_inv s1 segs1" "script s1 = []" "safe s1 segs1 es" "segment_size s1 = segment_size s"
    "append_spec (segment_size s) segs now payload = Inr segs1"
    using log_append_safe [OF Cons.prems(1-3) run(1)] by blast
  have "concat segs1 = concat segs @ [stamped w]" using append_spec_Inr [OF s1(5) ne] by (simp add: w stamped_def)
  then show ?case using Cons.IH [OF s1(1-3) run(2)] s1(4) append_spec_length [OF s1(5) ne] by auto
qed auto

lemma open_empty_safe:
  assumes "73 \<le> sz" "sz \<le> off_max" "0 < cap"
  shows "\<exists>s'. log_open dir sz cap (new_log empty_os) = (Inr (), s') \<and> log_inv s' [[]] \<and> script s' = [] \<and>
    segment_size s' = sz \<and> safe s' [[]] []"
proof -
  obtain s' where s': "log_open dir sz cap (new_log empty_os) = (Inr (), s')" "log_inv s' [[]]" "script s' = []"
      "segment_size s' = sz" "map_of (durable s') (segment_name 1) = file_content s' (segment_name 1)"
      "durable_names s' = map fst (dir_entries s')"
    using log_open_fresh [OF new_log_empty assms, of dir] by blast
  have "synced s' (length [[]]) 40" using s'(2,5,6) by (auto simp: synced_def log_inv_def)
  then have "safe s' [[]] []" by (simp add: safe_def)
  then show ?thesis using s' by blast
qed

text \<open>A power failure between two operations, when everything had been written back, loses nothing.\<close>

lemma power_fails_none:
  assumes "log_inv s segs"
  shows "power_fails s (AList.clearjunk (dir_entries s))"
proof -
  obtain c where c: "file_content s (map_path (active s)) = Some c" using assms by (auto simp: log_inv_def active_of_def)
  have "survives d e e" for d e by (cases e) (simp_all split: option.split)
  moreover have "map_of (dir_entries (set_file (map_path (active s)) c s)) = map_of (dir_entries s)"
    using c by (auto simp: set_file_def update_conv' file_content_Some)
  ultimately have "power_loss (set_file (map_path (active s)) c s) (AList.clearjunk (dir_entries s))"
    by (auto simp: power_loss_def map_of_clearjunk distinct_clearjunk split: option.split)
  then show ?thesis using c by (auto simp: power_fails_def in_flight_def intro!: exI [of _ s])
qed

text \<open>C4. \<open>flush\<close> is the durability barrier. A client opens a log on an empty directory, appends
  \<open>ws\<close>, calls \<open>flush\<close> and appends \<open>ws'\<close>, in any number of segments; then the power fails, when no
  operation is running or while a further \<open>append\<close> copies its record into the active segment or, behind
  its completed rollover, into the new one (\<open>power_fails\<close>; a failure inside the rollover itself, while
  the new segment file has no header yet, is left out: the last property of this theory shows that
  it can make the directory unusable). Of every byte written since its file was last synchronised either value may be on the
  disk, and every directory entry that was made since the directory was last synchronised may be gone.
  The log opened on that disk starts with the records \<open>ws\<close>: its next offset lies behind them, and
  \<open>get_recent\<close> returns them and the records that follow them on the disk.\<close>

theorem flush_survives_power_loss:
  assumes size: "73 \<le> sz" "sz \<le> off_max" and cap: "0 < cap" "0 < cap'"
    and payloads: "\<forall>w \<in> set (ws @ ws'). 32 + length (snd w) \<le> sz - 40 \<and> length (snd w) \<le> uint32_max"
    and room: "entries_size (map stamped (ws @ ws')) + sz \<le> uint64_max" "Suc (length (ws @ ws')) \<le> maximum_segment_id"
  shows "\<exists>s1 s2 s3 s4. log_open dir sz cap (new_log empty_os) = (Inr (), s1) \<and>
    append_each ws s1 = (Inr (offsets_from 0 ws), s2) \<and> flush s2 = (Inr (), s3) \<and>
    append_each ws' s3 = (Inr (offsets_from (entries_size (map stamped ws)) ws'), s4) \<and>
    (\<forall>ds. power_fails s4 ds \<longrightarrow> (\<exists>s5 more. log_open dir sz cap' (next_process ds s4) = (Inr (), s5) \<and>
       next_offset s5 = entries_size (map stamped ws @ more) \<and>
       (\<forall>n. get_recent s5 n = last_n (min n cap') (entry_messages 0 (map stamped ws @ more)))))"
proof -
  obtain s1 where s1: "log_open dir sz cap (new_log empty_os) = (Inr (), s1)" "log_inv s1 [[]]" "script s1 = []"
    "segment_size s1 = sz" "safe s1 [[]] []"
    using open_empty_safe [OF size cap(1), of dir] by blast
  obtain s2 where a2: "append_each ws s1 = (Inr (offsets_from 0 ws), s2)"
    using append_each_ok [OF s1(2,3), of ws] s1(4) payloads room by auto
  obtain segs2 where s2: "log_inv s2 segs2" "script s2 = []" "safe s2 segs2 []" "segment_size s2 = sz" "concat segs2 = map stamped ws"
    "length segs2 \<le> Suc (length ws)"
    using append_each_safe [OF s1(2,3,5) a2] s1(4) by auto
  obtain s3 where s3: "flush s2 = (Inr (), s3)" "log_inv s3 segs2" "script s3 = []" "safe s3 segs2 (map stamped ws)" "segment_size s3 = sz"
    using flush_safe [OF s2(1-3)] s2(4,5) by auto
  obtain s4 where a4: "append_each ws' s3 = (Inr (offsets_from (entries_size (map stamped ws)) ws'), s4)"
    using append_each_ok [OF s3(2,3), of ws'] s3(5) s2(5) s2(6) payloads room by auto
  obtain segs4 where s4: "log_inv s4 segs4" "script s4 = []" "safe s4 segs4 (map stamped ws)" "segment_size s4 = sz"
    "concat segs4 = map stamped ws @ map stamped ws'"
    using append_each_safe [OF s3(2-4) a4] s3(5) s2(5) by auto
  have "\<exists>s5 more. log_open dir sz cap' (next_process ds s4) = (Inr (), s5) \<and>
      next_offset s5 = entries_size (map stamped ws @ more) \<and>
      (\<forall>n. get_recent s5 n = last_n (min n cap') (entry_messages 0 (map stamped ws @ more)))"
    if fails: "power_fails s4 ds" for ds
  proof -
    obtain s5 segs5 more where s5: "log_open dir sz cap' (next_process ds s4) = (Inr (), s5)" "log_inv s5 segs5"
        "cb_capacity (recent_cache s5) = cap'" "concat segs5 = map stamped ws @ more"
      using open_after_power_fails [OF s4(1-3) fails cap(2), of dir s4] s4(4,5) room(1) by (auto simp: prefix_def)
    then show ?thesis using get_recent_inv [OF s5(2)] s5(3) by (auto simp: next_offset_def log_inv_def)
  qed
  then show ?thesis using s1(1) a2 s3(1) a4 by blast
qed

text \<open>A log of which two records are flushed and a third is not, on a disk to which nothing had still to be
  written.\<close>

theorem flush_survives_power_loss_witness:
  "\<exists>s1 s2 s3 s4 s5 ds more. log_open ''data'' 128 4 (new_log empty_os) = (Inr (), s1) \<and>
    append_each [(5, [1, 2]), (6, [9])] s1 = (Inr [0, 34], s2) \<and> flush s2 = (Inr (), s3) \<and>
    append_each [(7, [3])] s3 = (Inr [67], s4) \<and> power_fails s4 ds \<and>
    log_open ''data'' 128 2 (next_process ds s4) = (Inr (), s5) \<and>
    next_offset s5 = entries_size ([(5, [1, 2]), (6, [9])] @ more)"
proof -
  have room: "entries_size (map stamped ([(5, [1, 2]), (6, [9])] @ [(7, [3])])) + 128 \<le> uint64_max"
    by (simp add: stamped_def entry_size_eq uint64_max_def)
  then obtain s1 s2 s3 s4 where s: "log_open ''data'' 128 4 (new_log empty_os) = (Inr (), s1)"
    "append_each [(5, [1, 2]), (6, [9])] s1 = (Inr [0, 34], s2)" "flush s2 = (Inr (), s3)" "append_each [(7, [3])] s3 = (Inr [67], s4)"
    and loss: "\<forall>ds. power_fails s4 ds \<longrightarrow> (\<exists>s5 more. log_open ''data'' 128 2 (next_process ds s4) = (Inr (), s5) \<and>
       next_offset s5 = entries_size ([(5, [1, 2]), (6, [9])] @ more))"
    using flush_survives_power_loss [of 128 4 2 "[(5, [1, 2]), (6, [9])]" "[(7, [3])]" "''data''"]
    by (fastforce simp: off_max_def uint32_max_def maximum_segment_id_def stamped_def entry_size_eq)
  have "\<exists>t. log_open ''data'' 128 4 (new_log empty_os) = (Inr (), t) \<and> log_inv t [[]] \<and> script t = [] \<and>
      segment_size t = 128 \<and> safe t [[]] []"
    by (rule open_empty_safe) (simp_all add: off_max_def)
  then have s1: "log_inv s1 [[]]" "script s1 = []" "safe s1 [[]] []" unfolding s(1) by simp_all
  from append_each_safe [OF s1 s(2)] obtain segs2 where s2: "log_inv s2 segs2" "script s2 = []" "safe s2 segs2 []" by blast
  from flush_safe [OF s2] have s3: "log_inv s3 segs2" "script s3 = []" "safe s3 segs2 (concat segs2)" unfolding s(3) by simp_all
  from append_each_safe [OF s3 s(4)] obtain segs4 where "log_inv s4 segs4" by blast
  then show ?thesis using power_fails_none [of s4] s loss by blast
qed

section \<open>A killed process\<close>

text \<open>The interrupted copies include the complete ones: an \<open>append\<close> that returned is the case in which
  every byte arrived.\<close>

lemma append_interrupted_complete:
  assumes inv: "log_inv s segs" and fits: "40 + entries_size (last segs) + 32 + length payload \<le> segment_size s"
    and run: "append_record now payload s = (Inr off, s')"
  shows "\<exists>c'. file_content s' (segment_name (length segs)) = Some c' \<and> append_interrupted now payload True s c'"
proof -
  let ?wp = "40 + entries_size (last segs)" and ?name = "segment_name (length segs)"
  from inv obtain fd c where act: "active s = active_of fd (segment_size s) (length segs) (entries_size (concat (butlast segs))) ?wp"
    and c: "file_content s ?name = Some c" "length c = segment_size s" by (auto simp: log_inv_def)
  let ?hdr = "make_record_header (next_message_offset s) (now mod 2 ^ 64) payload"
  define c1 c2 where "c1 = overwrite (?wp + 32) payload c" and "c2 = overwrite ?wp ?hdr c1"
  have "dir_entries s' = dir_entries (set_file ?name c2 s)"
    using arg_cong [OF run, of "\<lambda>r. dir_entries (snd r)"] by (simp add: append_record_run [OF act c(1)] Let_def c2_def c1_def)
  then have "file_content s' ?name = Some c2" by (simp add: file_content_def set_file_def update_conv')
  moreover have "torn_copy (?wp + 32) payload c c1" "torn_copy ?wp ?hdr c1 c2"
    using fits c(2) by (simp_all add: c1_def c2_def torn_copy_complete)
  ultimately show ?thesis using c(1) act by (auto simp: append_interrupted_def active_of_def)
qed

text \<open>C23. A process killed while \<open>append\<close> copies its record into the active segment (behind the rollover,
  if the record needed one; a kill inside the rollover is the subject of the next property): any of the bytes of
  the payload, and once its copy has begun any of the bytes of the record header, may have reached
  the mapped file. The next process opens the directory and finds every record whose \<open>append\<close>
  had returned, in order and unchanged; and as long as the copy of the header had not begun, it
  finds nothing else.\<close>

theorem killed_append_recovers:
  assumes "log_inv s segs" and "append_interrupted now payload begun s c'"
    and "40 + entries_size (last segs) + 32 + length payload \<le> segment_size s"
    and "0 < cap" and "entries_size (concat segs) + segment_size s \<le> uint64_max"
  shows "\<exists>s' more. log_open dir (segment_size s) cap
      (next_process (dir_entries (set_file (segment_name (length segs)) c' s)) s) = (Inr (), s') \<and>
    log_inv s' (butlast segs @ [last segs @ more]) \<and> (\<not> begun \<longrightarrow> more = []) \<and>
    next_offset s' = entries_size (concat segs @ more) \<and>
    get_recent s' n = last_n (min n cap) (entry_messages 0 (concat segs @ more))"
proof -
  have ne: "segs \<noteq> []" using assms(1) by (simp add: log_inv_def)
  obtain s' more where s': "log_open dir (segment_size s) cap
        (next_process (dir_entries (set_file (segment_name (length segs)) c' s)) s) = (Inr (), s')"
      "log_inv s' (butlast segs @ [last segs @ more])" "cb_capacity (recent_cache s') = cap" "\<not> begun \<longrightarrow> more = []"
    using append_killed [OF assms(1-3) refl assms(4,5), of dir s] by blast
  have "concat (butlast segs @ [last segs @ more]) = concat segs @ more" using concat_last [OF ne] by simp
  moreover note next_offset_inv [OF s'(2)]
  ultimately show ?thesis using s' get_recent_inv [OF s'(2), of n] by metis
qed

text \<open>An \<open>append\<close> of two bytes to the example log, of which the first has been copied.\<close>

lemma example_interrupted:
  "\<exists>c. file_content example_log (segment_name 1) = Some c \<and> append_interrupted 7 [1, 2] False example_log (overwrite 72 [1] c) \<and>
    map_path (active example_log) = segment_name 1 \<and> map_write_position (active example_log) = 40"
proof -
  obtain c where c: "file_content example_log (segment_name 1) = Some c" "length c = 128"
    using example_log_inv by (auto simp: log_inv_def)
  have "map_path (active example_log) = segment_name 1" "map_write_position (active example_log) = 40"
    using example_log_inv(1) by (auto simp: log_inv_def active_of_def)
  then show ?thesis
    using c by (auto simp: append_interrupted_def torn_copy_def overwrite_at nth_append nth_Cons' not_less)
qed

theorem killed_append_recovers_witness:
  "\<exists>c s'. append_interrupted 7 [1, 2] False example_log (overwrite 72 [1] c) \<and>
    log_open ''data'' 128 4 (next_process (dir_entries (set_file (segment_name 1) (overwrite 72 [1] c) example_log))
      example_log) = (Inr (), s') \<and> next_offset s' = 0"
proof -
  obtain c where int: "append_interrupted 7 [1, 2] False example_log (overwrite 72 [1] c)" using example_interrupted by blast
  then show ?thesis
    using killed_append_recovers [OF example_log_inv(1) int, of 4 "''data''" 0] example_log_inv(3) by (auto simp: uint64_max_def)
qed

text \<open>C24. A process killed while it starts a new segment. Between the \<open>open\<close> that creates the file and
  the copy of the segment header into it the newest segment has no header: it is empty, or after the
  \<open>ftruncate\<close> all zeros. Every later \<open>open\<close> of the directory throws \<open>runtime_error\<close>, although all
  records of the earlier segments are intact.\<close>

theorem rollover_crash_blocks_open:
  assumes "log_inv s segs" and "script s = []" and "length segs < maximum_segment_id" and "0 < cap"
  shows "(\<exists>w. fst (log_open dir (segment_size s) cap
      (next_process (dir_entries (snd (rollover_opened (Suc (length segs)) s))) s)) = Inl (Runtime_error w)) \<and>
    (\<exists>w. fst (log_open dir (segment_size s) cap
      (next_process (dir_entries (snd (rollover_sized (Suc (length segs)) s))) s)) = Inl (Runtime_error w))"
proof -
  have "73 \<le> segment_size s" using assms(1) by (simp add: log_inv_def)
  then have "take 8 (replicate (segment_size s) 0) = replicate 8 0" by simp
  moreover have "replicate 8 0 \<noteq> segment_magic" by code_simp
  ultimately have "take 8 (replicate (segment_size s) 0) \<noteq> segment_magic" by metis
  then show ?thesis
    using open_headerless [OF assms(1,3,4) rollover_files(1) [OF assms(1-3)], of dir s]
      open_headerless [OF assms(1,3,4) rollover_files(2) [OF assms(1-3)], of dir s] by simp
qed

theorem rollover_crash_blocks_open_witness:
  "\<exists>w. fst (log_open ''data'' 128 4 (next_process (dir_entries (snd (rollover_sized 2 example_log))) example_log)) =
    Inl (Runtime_error w)"
  using rollover_crash_blocks_open [OF example_log_inv(1,2), of 4 "''data''"] example_log_inv(3)
  by (simp add: maximum_segment_id_def numeral_2_eq_2)

end
