(* ===== verification/Json.thy ===== *)
theory Json
  imports Mmap_Log Metrics
begin

text \<open>
  The JSON texts of \<open>src/src/network/tcp_server.cpp\<close>: \<open>json_escape\<close> and
  \<open>recent_messages_json\<close>. A reader for such documents, written from the JSON grammar (RFC 8259),
  is the reference: it takes back from a text exactly the messages that were printed. The reader
  works on bytes, as the printer does, and passes bytes from \<open>0x80\<close> on through unchecked. That JSON
  exchanged between systems has to be UTF-8 is stated apart, by a recogniser of well-formed byte
  sequences (RFC 3629): the printed text is UTF-8, and so conforming JSON, exactly when the
  payloads are.
\<close>

unbundle bit_operations_syntax

section \<open>Printing\<close>

definition hex :: string where "hex = ''0123456789abcdef''"

text \<open>The body of the loop of \<open>json_escape\<close>; \<open>CHR 0x5C\<close> is the backslash.\<close>

definition escape_byte :: "char \<Rightarrow> string" where
  "escape_byte c =
     (let byte = (of_char c :: nat) in
      if c = CHR 0x22 then [CHR 0x5C, CHR 0x22]
      else if c = CHR 0x5C then [CHR 0x5C, CHR 0x5C]
      else if c = CHR 0x08 then [CHR 0x5C, CHR ''b'']
      else if c = CHR 0x0C then [CHR 0x5C, CHR ''f'']
      else if c = CHR 0x0A then [CHR 0x5C, CHR ''n'']
      else if c = CHR 0x0D then [CHR 0x5C, CHR ''r'']
      else if c = CHR 0x09 then [CHR 0x5C, CHR ''t'']
      else if byte < 0x20 then CHR 0x5C # ''u00'' @ [hex ! drop_bit 4 byte, hex ! (byte AND 0x0f)]
      else [c])"

definition json_escape :: "string \<Rightarrow> string" where
  "json_escape value = foldl (\<lambda>escaped byte. escaped @ escape_byte byte) [] value"

definition quoted :: "string \<Rightarrow> string" where
  "quoted name = dq @ name @ dq"

definition message_json :: "message \<Rightarrow> string" where
  "message_json message =
     ''{'' @ quoted ''offset'' @ '':'' @ to_string (msg_offset message) @
     '','' @ quoted ''timestamp_ns'' @ '':'' @ to_string (msg_timestamp_ns message) @
     '','' @ quoted ''payload_length'' @ '':'' @ to_string (msg_payload_length message) @
     '','' @ quoted ''payload'' @ '':'' @ dq @ json_escape (bytes_string (msg_payload message)) @ dq @ ''}''"

fun json_messages :: "message list \<Rightarrow> bool \<Rightarrow> string \<Rightarrow> string" where
  "json_messages [] first json = json"
| "json_messages (message # messages) first json =
     (let json = (if \<not> first then json @ '','' else json)
      in json_messages messages False (json @ message_json message))"

definition recent_messages_json :: "nat \<Rightarrow> log \<Rightarrow> string" where
  "recent_messages_json count l = json_messages (get_recent l count) True ''['' @ '']''"

section \<open>Reading\<close>

definition hex_val :: "char \<Rightarrow> nat option" where
  "hex_val c =
     (let n = (of_char c :: nat) in
      if 48 \<le> n \<and> n \<le> 57 then Some (n - 48)
      else if 97 \<le> n \<and> n \<le> 102 then Some (n - 87)
      else if 65 \<le> n \<and> n \<le> 70 then Some (n - 55) else None)"

text \<open>The two-character escapes of JSON.\<close>

definition short_escapes :: "(char \<times> char) list" where
  "short_escapes = [(CHR 0x22, CHR 0x22), (CHR 0x5C, CHR 0x5C), (CHR ''/'', CHR ''/''), (CHR ''b'', CHR 0x08),
     (CHR ''f'', CHR 0x0C), (CHR ''n'', CHR 0x0A), (CHR ''r'', CHR 0x0D), (CHR ''t'', CHR 0x09)]"

text \<open>Four hexadecimal digits; only code points below \<open>0x80\<close> are a single byte.\<close>

definition code_point :: "char \<Rightarrow> char \<Rightarrow> char \<Rightarrow> char \<Rightarrow> char option" where
  "code_point a b c d =
     (case (hex_val a, hex_val b, hex_val c, hex_val d) of
        (Some i, Some j, Some k, Some l) \<Rightarrow>
          (let n = ((i * 16 + j) * 16 + k) * 16 + l in if n < 128 then Some (char_of n) else None)
      | _ \<Rightarrow> None)"

definition push :: "'a \<Rightarrow> ('a list \<times> 'b) option \<Rightarrow> ('a list \<times> 'b) option" where
  "push x r = map_option (\<lambda>(xs, rest). (x # xs, rest)) r"

text \<open>The rest of a string literal, up to its closing quote, and the text behind it.\<close>

fun read_string :: "string \<Rightarrow> (string \<times> string) option" where
  "read_string [] = None"
| "read_string (c # cs) =
     (if c = CHR 0x22 then Some ([], cs)
      else if c = CHR 0x5C then
        (case cs of
           [] \<Rightarrow> None
         | e # es \<Rightarrow>
             if e = CHR ''u'' then
               (case es of
                  h1 # h2 # h3 # h4 # rest \<Rightarrow>
                    (case code_point h1 h2 h3 h4 of None \<Rightarrow> None | Some x \<Rightarrow> push x (read_string rest))
                | _ \<Rightarrow> None)
             else (case map_of short_escapes e of None \<Rightarrow> None | Some x \<Rightarrow> push x (read_string es)))
      else if (of_char c :: nat) < 0x20 then None
      else push c (read_string cs))"

definition expect :: "string \<Rightarrow> string \<Rightarrow> string option" where
  "expect p s = (if starts_with p s then Some (drop (length p) s) else None)"

definition read_number :: "string \<Rightarrow> (nat \<times> string) option" where
  "read_number s = (case takeWhile is_digit s of [] \<Rightarrow> None
     | ds \<Rightarrow> Some (digits_value 0 ds, dropWhile is_digit s))"

text \<open>A member of an object, by its key and the reader of its value.\<close>

definition read_member :: "string \<Rightarrow> (string \<Rightarrow> ('v \<times> string) option) \<Rightarrow> string \<Rightarrow> ('v \<times> string) option" where
  "read_member key read s = Option.bind (expect (quoted key @ '':'') s) read"

definition read_literal :: "string \<Rightarrow> (string \<times> string) option" where
  "read_literal s = Option.bind (expect dq s) read_string"

definition read_message :: "string \<Rightarrow> (message \<times> string) option" where
  "read_message s =
     Option.bind (expect ''{'' s) (\<lambda>s. Option.bind (read_member ''offset'' read_number s) (\<lambda>(off, s).
     Option.bind (expect '','' s) (\<lambda>s. Option.bind (read_member ''timestamp_ns'' read_number s) (\<lambda>(ts, s).
     Option.bind (expect '','' s) (\<lambda>s. Option.bind (read_member ''payload_length'' read_number s) (\<lambda>(len, s).
     Option.bind (expect '','' s) (\<lambda>s. Option.bind (read_member ''payload'' read_literal s) (\<lambda>(v, s).
     Option.bind (expect ''}'' s) (\<lambda>s.
       Some (\<lparr>msg_offset = off, msg_timestamp_ns = ts, msg_payload_length = len, msg_payload = string_bytes v\<rparr>, s))))))))))"

text \<open>The elements of a non-empty array, up to the closing bracket; the fuel bounds their number.\<close>

fun read_elements :: "nat \<Rightarrow> string \<Rightarrow> (message list \<times> string) option" where
  "read_elements 0 s = None"
| "read_elements (Suc fuel) s =
     Option.bind (read_message s) (\<lambda>(m, s).
       case expect '','' s of
         Some s' \<Rightarrow> push m (read_elements fuel s')
       | None \<Rightarrow> map_option (Pair [m]) (expect '']'' s))"

definition read_array :: "string \<Rightarrow> (message list \<times> string) option" where
  "read_array s = Option.bind (expect ''['' s) (\<lambda>s.
     case expect '']'' s of Some rest \<Rightarrow> Some ([], rest) | None \<Rightarrow> read_elements (length s) s)"

section \<open>The reader inverts the printer\<close>

lemma json_escape_concat: "json_escape v = concat (map escape_byte v)"
proof -
  have "foldl (\<lambda>escaped byte. escaped @ escape_byte byte) acc v = acc @ concat (map escape_byte v)" for acc
    by (induction v arbitrary: acc) simp_all
  then show ?thesis by (simp add: json_escape_def)
qed

lemma json_messages_append: "json_messages ms first json = json @ json_messages ms first []"
proof (induction ms arbitrary: first json)
  case (Cons m ms)
  show ?case
    using Cons [of False "json @ '','' @ message_json m"] Cons [of False "json @ message_json m"]
      Cons [of False "'','' @ message_json m"] Cons [of False "message_json m"] by simp
qed simp

lemma hex_nibbles:
  assumes "n < 0x20"
  shows "code_point (CHR ''0'') (CHR ''0'') (hex ! drop_bit 4 n) (hex ! (n AND 0x0f)) = Some (char_of n)"
proof -
  have "n AND 0x0f = n mod 16" using take_bit_eq_mask [of 4 n] by (simp add: mask_eq_exp_minus_1 take_bit_eq_mod)
  moreover have "drop_bit 4 n = n div 16" by (simp add: drop_bit_eq_div)
  moreover have "n div 16 < 2" using assms by simp
  moreover have "hex_val (hex ! k) = Some k" if "k < 16" for k
  proof -
    have "\<forall>k < 16. hex_val (hex ! k) = Some k" by code_simp
    then show ?thesis using that by blast
  qed
  ultimately show ?thesis using assms by (simp add: code_point_def hex_val_def [of "CHR ''0''"] Let_def)
qed

lemma read_escaped_byte: "read_string (escape_byte c @ rest) = push c (read_string rest)"
proof -
  show ?thesis using hex_nibbles [of "of_char c"] by (auto simp: escape_byte_def Let_def short_escapes_def)
qed

lemma read_escaped: "read_string (json_escape v @ CHR 0x22 # rest) = Some (v, rest)"
  by (induction v) (simp_all add: json_escape_concat read_escaped_byte push_def)

lemma expect_append [simp]: "expect p (p @ s) = Some s"
  by (simp add: expect_def)

lemma read_number_to_string:
  assumes "s \<noteq> []" "\<not> is_digit (hd s)"
  shows "read_number (to_string n @ s) = Some (n, s)"
proof -
  have "takeWhile is_digit (to_string n @ s) = to_string n" "dropWhile is_digit (to_string n @ s) = s"
    using to_string_digits [of n] assms by (auto simp: list_all_iff takeWhile_append dropWhile_append neq_Nil_conv)
  moreover obtain d ds where "to_string n = d # ds" using to_string_nonempty [of n] by (cases "to_string n") auto
  moreover have "digits_value 0 (to_string n) = n" by simp
  ultimately show ?thesis by (simp only: read_number_def list.case)
qed

lemma read_member_number:
  "s \<noteq> [] \<Longrightarrow> \<not> is_digit (hd s) \<Longrightarrow> read_member key read_number (quoted key @ '':'' @ to_string n @ s) = Some (n, s)"
  using expect_append [of "quoted key @ '':''" "to_string n @ s"] by (simp add: read_member_def read_number_to_string)

lemma read_member_literal:
  "read_member key read_literal (quoted key @ '':'' @ dq @ json_escape v @ dq @ s) = Some (v, s)"
  using expect_append [of "quoted key @ '':''" "dq @ json_escape v @ dq @ s"] expect_append [of dq "json_escape v @ dq @ s"]
  by (simp add: read_member_def read_literal_def read_escaped dq_def)

lemma read_message_json: "read_message (message_json m @ s) = Some (m, s)"
proof -
  have nd: "\<not> is_digit (CHR '','')" by (simp add: is_digit_def)
  have step: "expect [c] (c # t) = Some t" for c t using expect_append [of "[c]" t] by simp
  show ?thesis
    using nd by (simp add: read_message_def message_json_def step read_member_number [simplified] read_member_literal [simplified])
qed

lemma json_messages_False: "json_messages ms False [] = concat (map (\<lambda>m. CHR '','' # message_json m) ms)"
proof (induction ms)
  case (Cons m ms)
  then show ?case using json_messages_append [of ms False "'','' @ message_json m"] by simp
qed simp

lemma read_elements_json:
  "length ms < fuel \<Longrightarrow> read_elements fuel (message_json m @ json_messages ms False [] @ CHR '']'' # rest) = Some (m # ms, rest)"
proof (induction ms arbitrary: m fuel)
  case Nil
  then show ?case by (cases fuel) (simp_all add: read_message_json expect_def)
next
  case (Cons m' ms)
  then obtain k where "fuel = Suc k" "length ms < k" by (cases fuel) auto
  then show ?case using Cons.IH [of k m'] by (simp add: read_message_json json_messages_False expect_def push_def)
qed

lemma length_json_messages: "length ms \<le> length (json_messages ms False [])"
  by (induction ms) (simp_all add: json_messages_False)

lemma read_array_json: "read_array (json_messages ms True ''['' @ '']'' @ rest) = Some (ms, rest)"
proof (cases ms)
  case Nil
  then show ?thesis by (simp add: read_array_def expect_def)
next
  case (Cons m ms')
  let ?t = "message_json m @ json_messages ms' False [] @ CHR '']'' # rest"
  have "json_messages ms True ''['' @ '']'' @ rest = CHR ''['' # ?t"
    using Cons json_messages_append [of ms' False "''['' @ message_json m"] by simp
  moreover have "expect '']'' ?t = None" by (simp add: message_json_def expect_def)
  moreover have "read_elements (length ?t) ?t = Some (m # ms', rest)"
    using length_json_messages [of ms'] by (intro read_elements_json) simp
  ultimately show ?thesis using Cons by (simp add: read_array_def expect_def)
qed

section \<open>Which texts are UTF-8\<close>

text \<open>The ranges that the bytes behind a leading byte must lie in (RFC 3629, section 4); no leading
  byte has one below \<open>0x80\<close>.\<close>

definition utf8_tails :: "nat \<Rightarrow> (nat \<times> nat) list option" where
  "utf8_tails b =
     (if b < 0x80 then Some []
      else if 0xC2 \<le> b \<and> b \<le> 0xDF then Some [(0x80, 0xBF)]
      else if b = 0xE0 then Some [(0xA0, 0xBF), (0x80, 0xBF)]
      else if b = 0xED then Some [(0x80, 0x9F), (0x80, 0xBF)]
      else if 0xE1 \<le> b \<and> b \<le> 0xEF then Some [(0x80, 0xBF), (0x80, 0xBF)]
      else if b = 0xF0 then Some [(0x90, 0xBF), (0x80, 0xBF), (0x80, 0xBF)]
      else if 0xF1 \<le> b \<and> b \<le> 0xF3 then Some [(0x80, 0xBF), (0x80, 0xBF), (0x80, 0xBF)]
      else if b = 0xF4 then Some [(0x80, 0x8F), (0x80, 0xBF), (0x80, 0xBF)]
      else None)"

fun utf8_from :: "(nat \<times> nat) list \<Rightarrow> string \<Rightarrow> bool" where
  "utf8_from due [] = (due = [])"
| "utf8_from [] (c # cs) = (case utf8_tails (of_char c) of None \<Rightarrow> False | Some due \<Rightarrow> utf8_from due cs)"
| "utf8_from ((lo, hi) # due) (c # cs) = (lo \<le> of_char c \<and> of_char c \<le> hi \<and> utf8_from due cs)"

definition utf8 :: "string \<Rightarrow> bool" where "utf8 s = utf8_from [] s"

definition ascii :: "string \<Rightarrow> bool" where "ascii s = list_all (\<lambda>c. (of_char c :: nat) < 0x80) s"

definition high :: "(nat \<times> nat) list \<Rightarrow> bool" where "high due = list_all (\<lambda>(lo, hi). 0x80 \<le> lo) due"

lemma ascii_simps [simp]:
  "ascii []" "ascii (c # s) = ((of_char c :: nat) < 0x80 \<and> ascii s)" "ascii (s @ t) = (ascii s \<and> ascii t)"
  by (simp_all add: ascii_def)

lemma high_simps [simp]: "high []" "high ((lo, hi) # due) = (0x80 \<le> lo \<and> high due)"
  by (simp_all add: high_def)

lemma utf8_tails_high: "utf8_tails b = Some due \<Longrightarrow> high due"
  by (auto simp: utf8_tails_def split: if_splits)

lemma utf8_from_ascii:
  assumes "high due" "ascii (c # a)"
  shows "utf8_from due ((c # a) @ s) = (due = [] \<and> utf8 s)"
proof -
  have "utf8_from [] (a @ s) = utf8 s" using assms(2) by (induction a) (simp_all add: utf8_def utf8_tails_def)
  then show ?thesis using assms by (cases due) (auto simp: utf8_tails_def)
qed

lemma ascii_escape_byte:
  assumes "(of_char c :: nat) < 0x80"
  shows "ascii (escape_byte c)"
proof -
  have hex: "(of_char (hex ! k) :: nat) < 0x80" if "k < 16" for k
  proof -
    have "\<forall>k < 16. (of_char (hex ! k) :: nat) < 0x80" by code_simp
    then show ?thesis using that by blast
  qed
  have "(of_char c AND 0x0f :: nat) < 16"
    using take_bit_eq_mask [of 4 "of_char c :: nat"] by (simp add: mask_eq_exp_minus_1 take_bit_eq_mod)
  moreover have "drop_bit 4 (of_char c :: nat) < 16" using assms by (simp add: drop_bit_eq_div)
  ultimately show ?thesis using assms hex by (simp add: escape_byte_def Let_def)
qed

lemma escape_byte_nonempty: "escape_byte c \<noteq> []"
  by (simp add: escape_byte_def Let_def)

lemma escape_byte_high:
  assumes "0x80 \<le> (of_char c :: nat)"
  shows "escape_byte c = [c]"
proof -
  have "c \<noteq> d" if "(of_char d :: nat) < 0x80" for d using assms that by (metis not_less)
  then have "c \<noteq> CHR 0x22" "c \<noteq> CHR 0x5C" "c \<noteq> CHR 0x08" "c \<noteq> CHR 0x0C" "c \<noteq> CHR 0x0A" "c \<noteq> CHR 0x0D" "c \<noteq> CHR 0x09"
    by simp_all
  then show ?thesis using assms by (simp only: escape_byte_def Let_def if_False) simp
qed

text \<open>Escaping keeps the bytes of multi-byte characters and replaces ASCII characters by ASCII text,
  so it neither makes nor breaks UTF-8.\<close>

lemma utf8_from_escaped:
  "high due \<Longrightarrow> utf8_from due (json_escape v @ CHR 0x22 # s) = (utf8_from due v \<and> utf8 s)"
proof (induction v arbitrary: due)
  case Nil
  then show ?case using utf8_from_ascii [of due "CHR 0x22" "[]" s] by (simp add: json_escape_concat)
next
  case (Cons c v)
  let ?t = "json_escape v @ CHR 0x22 # s"
  have split: "json_escape (c # v) @ CHR 0x22 # s = escape_byte c @ ?t" by (simp add: json_escape_concat)
  show ?case
  proof (cases "(of_char c :: nat) < 0x80")
    case True
    obtain e es where e: "escape_byte c = e # es" using escape_byte_nonempty [of c] by (cases "escape_byte c") auto
    have "utf8_from due (escape_byte c @ ?t) = (due = [] \<and> utf8 ?t)"
      using utf8_from_ascii [of due e es ?t] ascii_escape_byte [OF True] Cons.prems e by simp
    moreover have "utf8_from due (c # v) = (due = [] \<and> utf8 v)"
      using utf8_from_ascii [of due c "[]" v] Cons.prems True by simp
    moreover have "utf8 ?t = (utf8 v \<and> utf8 s)" using Cons.IH [of "[]"] by (simp add: utf8_def)
    ultimately show ?thesis by (simp only: split) blast
  next
    case False
    then have "escape_byte c = [c]" by (intro escape_byte_high) simp
    then show ?thesis using Cons.prems unfolding split
      by (cases due) (auto simp: Cons.IH utf8_tails_high split: option.splits)
  qed
qed

lemma ascii_to_string: "ascii (to_string n)"
  using to_string_digits [of n] unfolding ascii_def list_all_iff is_digit_def by fastforce

lemma utf8_message_json: "utf8 (message_json m @ s) = (utf8 (bytes_string (msg_payload m)) \<and> utf8 s)"
proof -
  obtain a where a: "message_json m = (CHR ''{'' # a) @ json_escape (bytes_string (msg_payload m)) @ CHR 0x22 # ''}''"
    and "ascii a"
    by (rule that [of "quoted ''offset'' @ '':'' @ to_string (msg_offset m) @
      '','' @ quoted ''timestamp_ns'' @ '':'' @ to_string (msg_timestamp_ns m) @
      '','' @ quoted ''payload_length'' @ '':'' @ to_string (msg_payload_length m) @
      '','' @ quoted ''payload'' @ '':'' @ dq"]) (simp_all add: message_json_def quoted_def dq_def ascii_to_string)
  let ?p = "json_escape (bytes_string (msg_payload m)) @ CHR 0x22 # CHR ''}'' # s"
  have "utf8 (message_json m @ s) = utf8 ?p"
    using utf8_from_ascii [of "[]" "CHR ''{''" a ?p] \<open>ascii a\<close> by (simp add: a utf8_def)
  also have "\<dots> = (utf8 (bytes_string (msg_payload m)) \<and> utf8 (CHR ''}'' # s))"
    using utf8_from_escaped [of "[]"] by (simp add: utf8_def)
  also have "utf8 (CHR ''}'' # s) = utf8 s" by (simp add: utf8_def utf8_tails_def)
  finally show ?thesis .
qed

lemma utf8_json_messages:
  "utf8 (json_messages ms False [] @ s) = (list_all (\<lambda>m. utf8 (bytes_string (msg_payload m))) ms \<and> utf8 s)"
proof (induction ms)
  case (Cons m ms)
  have "utf8 (CHR '','' # t) = utf8 t" for t by (simp add: utf8_def utf8_tails_def)
  then show ?case using Cons by (simp add: json_messages_False utf8_message_json)
qed (simp add: json_messages_False)

lemma utf8_array:
  "utf8 (json_messages ms True ''['' @ '']'') = list_all (\<lambda>m. utf8 (bytes_string (msg_payload m))) ms"
proof -
  have ends: "utf8 (CHR ''['' # t) = utf8 t" "utf8 '']''" for t by (simp_all add: utf8_def utf8_tails_def)
  show ?thesis
  proof (cases ms)
    case (Cons m ms')
    have "json_messages ms True ''['' @ '']'' = CHR ''['' # message_json m @ json_messages ms' False [] @ '']''"
      using Cons json_messages_append [of ms' False "''['' @ message_json m"] by simp
    then show ?thesis by (simp only: Cons ends utf8_message_json utf8_json_messages list.pred_inject) simp
  qed (use ends in simp)
qed

text \<open>C19. Round trip. The text of \<open>recent_messages_json\<close> is one array of the JSON grammar, and a reader
  that works on bytes takes back from it exactly the messages that \<open>get_recent\<close> returns: every
  offset, timestamp, length and payload, whatever bytes the payloads have (quotes, backslashes,
  control characters, NUL, and bytes from \<open>0x80\<close> on, which the code does not escape). The text is
  UTF-8, as JSON exchanged between systems has to be, exactly when every payload in it is: one
  payload that is not makes the whole answer unreadable for a conforming reader.\<close>

theorem recent_json_roundtrip:
  "read_array (recent_messages_json n l @ rest) = Some (get_recent l n, rest) \<and>
   (utf8 (recent_messages_json n l) \<longleftrightarrow> list_all (\<lambda>m. utf8 (bytes_string (msg_payload m))) (get_recent l n))"
  using read_array_json [of "get_recent l n" rest] by (simp add: recent_messages_json_def utf8_array [simplified])

end
