(* ===== verification/Logger.thy ===== *)
theory Logger
  imports Prelude
begin

text \<open>
  \<open>src/src/core/logger.h\<close>: the process-wide log of informational messages. Both operations hold the
  mutex from beginning to end, so concurrent calls are calls in some order. The state is that of the
  two streams and of the text files. \<open>openable\<close> says which files the system opens for appending;
  \<open>taken\<close> is how many characters of a message the system takes when the stream is flushed (a full
  disk takes fewer than all, which puts the stream into a failed state in which it drops what it is
  given); \<open>ctime\<close> is the text of a time in the local time zone.
\<close>

section \<open>State and operations\<close>

record ofstream =
  open_path :: "string option"
  stream_failed :: bool

record logger =
  log_file :: ofstream
  text_files :: "string \<rightharpoonup> string"
  console :: string
  console_failed :: bool

definition new_logger :: "(string \<rightharpoonup> string) \<Rightarrow> logger" where
  "new_logger fs = \<lparr>log_file = \<lparr>open_path = None, stream_failed = False\<rparr>, text_files = fs, console = [], console_failed = False\<rparr>"

text \<open>\<open>ofstream::close\<close> and \<open>ofstream::open(path, ios::out | ios::app)\<close>. Closing a stream that is not
  open and opening one that is set the fail bit; a successful \<open>open\<close> clears it and creates the file.\<close>

definition ofs_close :: "logger \<Rightarrow> logger" where
  "ofs_close lg = (case open_path (log_file lg) of
      None \<Rightarrow> lg\<lparr>log_file := (log_file lg)\<lparr>stream_failed := True\<rparr>\<rparr>
    | Some _ \<Rightarrow> lg\<lparr>log_file := (log_file lg)\<lparr>open_path := None\<rparr>\<rparr>)"

definition ofs_open :: "(string \<Rightarrow> bool) \<Rightarrow> string \<Rightarrow> logger \<Rightarrow> logger" where
  "ofs_open openable path lg =
     (if open_path (log_file lg) \<noteq> None \<or> \<not> openable path
      then lg\<lparr>log_file := (log_file lg)\<lparr>stream_failed := True\<rparr>\<rparr>
      else lg\<lparr>log_file := \<lparr>open_path = Some path, stream_failed = False\<rparr>,
        text_files := (text_files lg)(path \<mapsto> (case text_files lg path of None \<Rightarrow> [] | Some old \<Rightarrow> old))\<rparr>)"

definition logger_set_file :: "(string \<Rightarrow> bool) \<Rightarrow> string \<Rightarrow> (logger, unit) prog" where
  "logger_set_file openable path =
     (if path = [] then modify ofs_close
      else bind (modify (ofs_open openable path)) (\<lambda>_.
           bind (gets (\<lambda>lg. stream_failed (log_file lg))) (\<lambda>failed.
           if failed then throw (Runtime_error (''Unable to open log file: '' @ path)) else ret ())))"

definition log_line :: "(int \<Rightarrow> string) \<Rightarrow> int \<Rightarrow> string \<Rightarrow> string" where
  "log_line ctime now message = ''['' @ ctime now @ ''] [INFO] '' @ message @ [CHR 0x0A]"

definition stream_put :: "nat \<Rightarrow> string \<Rightarrow> bool \<Rightarrow> string \<Rightarrow> string \<times> bool" where
  "stream_put taken x failed content =
     (if failed then (content, True) else (content @ take taken x, taken < length x))"

definition info :: "(int \<Rightarrow> string) \<Rightarrow> nat \<Rightarrow> int \<Rightarrow> string \<Rightarrow> logger \<Rightarrow> logger" where
  "info ctime taken now message lg =
     (let x = log_line ctime now message in
      case open_path (log_file lg) of
        Some p \<Rightarrow>
          (let (c, f) = stream_put taken x (stream_failed (log_file lg)) (case text_files lg p of None \<Rightarrow> [] | Some c \<Rightarrow> c)
           in lg\<lparr>text_files := (text_files lg)(p \<mapsto> c), log_file := (log_file lg)\<lparr>stream_failed := f\<rparr>\<rparr>)
      | None \<Rightarrow>
          (let (c, f) = stream_put taken x (console_failed lg) (console lg)
           in lg\<lparr>console := c, console_failed := f\<rparr>))"

text \<open>A sequence of calls, and the case in which the system takes all of a message.\<close>

fun info_all :: "(int \<Rightarrow> string) \<Rightarrow> (int \<times> string) list \<Rightarrow> logger \<Rightarrow> logger" where
  "info_all ctime [] lg = lg"
| "info_all ctime ((now, message) # ws) lg =
     info_all ctime ws (info ctime (length (log_line ctime now message)) now message lg)"

definition log_lines :: "(int \<Rightarrow> string) \<Rightarrow> (int \<times> string) list \<Rightarrow> string" where
  "log_lines ctime ws = concat (map (\<lambda>(now, message). log_line ctime now message) ws)"

section \<open>Where the messages go\<close>

lemma log_lines_simps [simp]:
  "log_lines ctime [] = []" "log_lines ctime ((now, message) # ws) = log_line ctime now message @ log_lines ctime ws"
  by (simp_all add: log_lines_def)

lemma info_all_file:
  assumes "log_file lg = \<lparr>open_path = Some p, stream_failed = False\<rparr>" "text_files lg p = Some c"
  shows "info_all ctime ws lg = lg\<lparr>text_files := (text_files lg)(p \<mapsto> c @ log_lines ctime ws)\<rparr>"
  using assms
proof (induction ws arbitrary: lg c)
  case (Cons w ws)
  obtain now message where w: "w = (now, message)" by fastforce
  let ?lg = "lg\<lparr>text_files := (text_files lg)(p \<mapsto> c @ log_line ctime now message)\<rparr>"
  have "info ctime (length (log_line ctime now message)) now message lg = ?lg"
    using Cons.prems by (simp add: info_def stream_put_def)
  then show ?case using Cons.IH [of ?lg "c @ log_line ctime now message"] Cons.prems by (simp add: w cong: if_cong)
qed (simp add: fun_upd_idem)

lemma info_all_console:
  assumes "open_path (log_file lg) = None" "\<not> console_failed lg"
  shows "info_all ctime ws lg = lg\<lparr>console := console lg @ log_lines ctime ws\<rparr>"
  using assms
proof (induction ws arbitrary: lg)
  case (Cons w ws)
  obtain now message where w: "w = (now, message)" by fastforce
  let ?lg = "lg\<lparr>console := console lg @ log_line ctime now message\<rparr>"
  have "info ctime (length (log_line ctime now message)) now message lg = ?lg"
    using Cons.prems by (simp add: info_def stream_put_def)
  then show ?case using Cons.IH [of ?lg] Cons.prems by (simp add: w)
qed simp

lemma set_file_sink:
  "logger_set_file openable path (new_logger fs) =
     (if path = [] then (Inr (), (new_logger fs)\<lparr>log_file := \<lparr>open_path = None, stream_failed = True\<rparr>\<rparr>)
      else if openable path then (Inr (), (new_logger fs)\<lparr>log_file := \<lparr>open_path = Some path, stream_failed = False\<rparr>,
        text_files := fs(path \<mapsto> (case fs path of None \<Rightarrow> [] | Some old \<Rightarrow> old))\<rparr>)
      else (Inl (Runtime_error (''Unable to open log file: '' @ path)),
        (new_logger fs)\<lparr>log_file := \<lparr>open_path = None, stream_failed = True\<rparr>\<rparr>))"
  by (simp add: logger_set_file_def modify_def gets_def bind_apply ofs_open_def ofs_close_def new_logger_def)

lemma set_file_chosen:
  "path = [] \<or> openable path \<Longrightarrow> \<exists>lg. logger_set_file openable path (new_logger fs) = (Inr (), lg) \<and>
     (\<forall>ctime ws. (if path = [] then console (info_all ctime ws lg) else the (text_files (info_all ctime ws lg) path)) =
        (if path = [] then [] else case fs path of None \<Rightarrow> [] | Some old \<Rightarrow> old) @ log_lines ctime ws)"
proof -
  let ?old = "case fs path of None \<Rightarrow> [] | Some old \<Rightarrow> old"
  let ?lg = "(new_logger fs)\<lparr>log_file := \<lparr>open_path = Some path, stream_failed = False\<rparr>, text_files := fs(path \<mapsto> ?old)\<rparr>"
  let ?off = "(new_logger fs)\<lparr>log_file := \<lparr>open_path = None, stream_failed = True\<rparr>\<rparr>"
  assume "path = [] \<or> openable path"
  then show ?thesis
    using info_all_file [of ?lg path ?old] info_all_console [of ?off]
    by (auto simp: set_file_sink) (simp_all add: new_logger_def)
qed

text \<open>C38. The log of messages. \<open>main\<close> chooses the sink once: without a path messages go to the standard
  output and no file is touched; with a path that can be opened they go to the end of that file,
  behind what earlier runs wrote there, one after the other in the order of the calls, and nothing
  appears on the standard output; a path that cannot be opened is an exception that names it.\<close>

theorem log_sink_exact:
  "case logger_set_file openable path (new_logger fs) of
     (Inl e, lg) \<Rightarrow> path \<noteq> [] \<and> \<not> openable path \<and> e = Runtime_error (''Unable to open log file: '' @ path) \<and> text_files lg = fs
   | (Inr _, lg) \<Rightarrow>
       let lg' = info_all ctime ws lg in
       if path = [] then text_files lg' = fs \<and> console lg' = log_lines ctime ws
       else openable path \<and> console lg' = [] \<and>
         text_files lg' = fs(path \<mapsto> (case fs path of None \<Rightarrow> [] | Some old \<Rightarrow> old) @ log_lines ctime ws)"
proof -
  let ?old = "case fs path of None \<Rightarrow> [] | Some old \<Rightarrow> old"
  let ?lg = "(new_logger fs)\<lparr>log_file := \<lparr>open_path = Some path, stream_failed = False\<rparr>, text_files := fs(path \<mapsto> ?old)\<rparr>"
  let ?off = "(new_logger fs)\<lparr>log_file := \<lparr>open_path = None, stream_failed = True\<rparr>\<rparr>"
  show ?thesis
    using info_all_file [of ?lg path ?old ctime ws] info_all_console [of ?off ctime ws]
    by (simp add: set_file_sink) (simp add: new_logger_def Let_def)
qed

text \<open>The text of \<open>ctime\<close> ends with a line feed, so that a message takes two lines and none of them
  has the format that the comment at \<open>info\<close> gives.\<close>

lemma log_line_broken:
  assumes "ctime now = date @ [CHR 0x0A]"
  shows "log_line ctime now message = (''['' @ date @ [CHR 0x0A]) @ (''] [INFO] '' @ message @ [CHR 0x0A])"
  using assms by (simp add: log_line_def)

section \<open>Nothing that was logged is lost\<close>

text \<open>The calls that threads make, with any outcome of the system's calls.\<close>

inductive logger_step :: "logger \<Rightarrow> logger \<Rightarrow> bool" where
  call_set_file: "logger_set_file openable path lg = (r, lg') \<Longrightarrow> logger_step lg lg'"
| call_info: "logger_step lg (info ctime taken now message lg)"

inductive_cases logger_step_cases: "logger_step lg lg'"

text \<open>Every text of the start state is still there, as the beginning of what is there now.\<close>

definition texts_kept :: "logger \<Rightarrow> logger \<Rightarrow> bool" where
  "texts_kept lg0 lg \<longleftrightarrow> (\<forall>p c. text_files lg0 p = Some c \<longrightarrow> (\<exists>x. text_files lg p = Some (c @ x))) \<and>
     (\<exists>x. console lg = console lg0 @ x)"

lemma texts_kept_refl: "texts_kept lg lg"
  by (simp add: texts_kept_def)

lemma texts_kept_trans: "texts_kept a b \<Longrightarrow> texts_kept b c \<Longrightarrow> texts_kept a c"
  unfolding texts_kept_def by (metis append.assoc)

lemma stream_put_extends: "\<exists>x. fst (stream_put taken t failed content) = content @ x"
  by (simp add: stream_put_def)

lemma info_kept: "texts_kept lg (info ctime taken now message lg)"
  using stream_put_extends
  by (auto simp: info_def texts_kept_def Let_def split_beta split: option.splits)

lemma set_file_kept: "logger_set_file openable path lg = (r, lg') \<Longrightarrow> texts_kept lg lg'"
  by (auto simp: logger_set_file_def modify_def gets_def bind_apply ofs_close_def ofs_open_def texts_kept_def split: if_splits option.splits)

lemma logger_step_kept: "logger_step lg lg' \<Longrightarrow> texts_kept lg lg'"
  by (auto elim!: logger_step_cases intro: info_kept set_file_kept)

interpretation log_texts: transition_system "\<lambda>lg. lg = lg0" logger_step "texts_kept lg0" for lg0
  by unfold_locales (auto intro: texts_kept_refl texts_kept_trans logger_step_kept)

lemma logged_text_kept:
  assumes "logger_step\<^sup>*\<^sup>* lg0 lg" "text_files lg0 p = Some c"
  shows "\<exists>x. text_files lg p = Some (c @ x)"
  using log_texts.inv_reachable [OF refl assms(1)] assms(2) by (simp add: texts_kept_def)

end
