(* ===== verification/Gateway.thy ===== *)
theory Gateway
  imports Tcp_Shutdown Config Crash_Properties Json Logger
begin

text \<open>
  \<open>src/src/main.cpp\<close> and the rest of \<open>TCPServer\<close>: the request handlers, the construction and
  the start of the server. The application state of the server is its \<open>storage_log\<close>; \<open>clock\<close> and
  \<open>uptimes\<close> are the readings that \<open>system_clock\<close> and the uptime of the process will give (one per
  call). \<open>fmt\<close> is how an \<open>ostream\<close> prints a \<open>double\<close>. A failure to create a thread is not
  modelled, nor is the text on the standard error stream.
\<close>

section \<open>Handlers\<close>

record storage =
  storage_log :: log
  clock :: "nat list"
  uptimes :: "real list"

definition next_reading :: "'r \<Rightarrow> 'r list \<Rightarrow> 'r \<times> 'r list" where
  "next_reading dflt rs = (case rs of [] \<Rightarrow> (dflt, []) | r # rs \<Rightarrow> (r, rs))"

text \<open>\<open>TCPServer::append_message\<close> and \<open>TCPServer::metrics_text\<close>. A null \<open>thread_pool\<close> is a pool
  without threads, whose figures are all zero.\<close>

fun append_message :: "string \<Rightarrow> (storage view, nat) prog" where
  "append_message payload (m, p, a) =
     (let (now, ck) = next_reading 0 (clock a);
          (r, l) = log_append now (string_bytes payload) (storage_log a)
      in (r, (m, p, a\<lparr>storage_log := l, clock := ck\<rparr>)))"

fun metrics_text :: "(real \<Rightarrow> string) \<Rightarrow> (storage view, string) prog" where
  "metrics_text fmt (m, p, a) =
     (let (worker_count, busy, queue_length, high_water) = stats p;
          (r, l) = disk_usage_bytes (storage_log a);
          a = a\<lparr>storage_log := l\<rparr>
      in case r of
           Inl e \<Rightarrow> (Inl e, (m, p, a))
         | Inr disk \<Rightarrow>
             (let (uptime, ups) = next_reading 0 (uptimes a)
              in (Inr (prometheus_text fmt uptime worker_count busy queue_length disk high_water m),
                  (m, p, a\<lparr>uptimes := ups\<rparr>))))"

definition typed_response :: "string \<Rightarrow> string \<Rightarrow> http_response" where
  "typed_response content_type text =
     \<lparr>status_code = 200, reason = ''OK'', resp_headers = [(''Content-Type'', content_type)], resp_body = text\<rparr>"

definition recent_messages_response :: "http_request \<Rightarrow> log \<Rightarrow> http_response" where
  "recent_messages_response req l =
     (let bad = plain_response 400 ''Bad Request'' ''Invalid recent count query'';
          good = (\<lambda>num. typed_response ''application/json'' (recent_messages_json num l));
          q = query req in
      if q = [] then good 100
      else if take 6 q \<noteq> ''count='' \<or> find_char (CHR ''&'') q \<noteq> None then bad
      else let value = drop 6 q in
      if value = [] then bad
      else case from_chars value of
             None \<Rightarrow> bad
           | Some (num, rest) \<Rightarrow> if rest \<noteq> [] \<or> num > 1000 then bad else good num)"

text \<open>The lambdas of \<open>main\<close>, in its order.\<close>

definition health :: "storage view handler" where
  "health req = ret (typed_response ''application/json'' (''{'' @ quoted ''status'' @ '':'' @ quoted ''ok'' @ ''}''))"

definition connections_page :: "storage view handler" where
  "connections_page req = bind (gets (\<lambda>(m, p, a). active_connections m)) (\<lambda>num.
     ret (typed_response ''application/json'' (''{'' @ quoted ''connections'' @ '':'' @ to_string num @ ''}'')))"

definition metrics_page :: "(real \<Rightarrow> string) \<Rightarrow> storage view handler" where
  "metrics_page fmt req = bind (metrics_text fmt) (\<lambda>text.
     ret (typed_response ''text/plain; version=0.0.4; charset=utf-8'' text))"

definition recent :: "storage view handler" where
  "recent req = gets (\<lambda>(m, p, a). recent_messages_response req (storage_log a))"

definition publish :: "storage view handler" where
  "publish req =
     (if body req = [] then ret (plain_response 400 ''Bad Request'' ''Request body is required'')
      else bind (append_message (body req)) (\<lambda>offset. ret (plain_response 201 ''Created'' (to_string offset))))"

definition large_response :: "storage view handler" where
  "large_response req = ret (plain_response 200 ''OK'' (replicate (512 * 1024) (CHR ''x'')))"

text \<open>The handler of the test mode sleeps before it answers.\<close>

definition hold :: "storage view handler" where
  "hold req = ret (plain_response 200 ''OK'' ''held'')"

definition main_routes :: "(real \<Rightarrow> string) \<Rightarrow> bool \<Rightarrow> storage view router \<Rightarrow> storage view router" where
  "main_routes fmt test_mode r =
     (let r = add_route ''GET'' ''/health'' health r;
          r = add_route ''GET'' ''/connections'' connections_page r;
          r = add_route ''GET'' ''/metrics'' (metrics_page fmt) r;
          r = add_route ''GET'' ''/recent'' recent r;
          r = add_route ''POST'' ''/publish'' publish r;
          r = add_route ''GET'' ''/large-response'' large_response r
      in if test_mode then add_route ''GET'' ''/test/hold'' hold r else r)"

section \<open>Construction and start\<close>

record tcp_server =
  config_of :: config
  worker_total :: nat
  members :: "storage server"

definition finite_value :: "double \<Rightarrow> real" where
  "finite_value d = (case d of Finite r \<Rightarrow> r | Not_finite \<Rightarrow> 0)"

text \<open>The constructor. \<open>hardware\<close> is \<open>thread::hardware_concurrency()\<close>, \<open>began\<close> the clock reading of
  the metrics, \<open>st\<close> the storage with a default-constructed log.\<close>

definition new_tcp_server :: "nat \<Rightarrow> int \<Rightarrow> storage \<Rightarrow> config \<Rightarrow> exn + tcp_server" where
  "new_tcp_server hardware began st c =
     (let total = (if cfg_epoll_worker_count c = 0 then max 1 hardware else cfg_epoll_worker_count c);
          r = new_router (finite_value (rate_limit_capacity c)) (finite_value (rate_limit_refill_rate c)) in
      case validate c of
        Inl e \<Rightarrow> Inl e
      | Inr _ \<Rightarrow> Inr \<lparr>config_of = c, worker_total = total,
          members = \<lparr>metrics = new_metrics began, thread_pool = new_pool 0 0, shutdown_requested = False,
            worker_failed = False, router = r, app = st\<rparr>\<rparr>)"

text \<open>\<open>start\<close> up to the creation of the worker threads; \<open>False\<close> is its early \<open>return false\<close>.\<close>

definition start_prepare :: "tcp_server \<Rightarrow> bool \<times> tcp_server" where
  "start_prepare t =
     (let c = config_of t;
          sv = (members t)\<lparr>shutdown_requested := False, worker_failed := False,
            metrics := set_epoll_worker_count (worker_total t) (metrics (members t))\<rparr>;
          (r, l) = log_open (storage_directory c) (storage_segment_size c) (recent_message_capacity c) (storage_log (app sv));
          sv = sv\<lparr>app := (app sv)\<lparr>storage_log := l\<rparr>\<rparr>
      in case r of
           Inl _ \<Rightarrow> (False, t\<lparr>members := sv\<rparr>)
         | Inr _ \<Rightarrow> (True, t\<lparr>members := sv\<lparr>thread_pool := new_pool (thread_pool_size c) (task_queue_capacity c)\<rparr>\<rparr>))"

text \<open>The threads that \<open>start\<close> creates, each through its set-up. A set-up reads nothing that another
  one writes, so their order does not matter; a failed one asks all workers to stop.\<close>

fun launch :: "(setup_calls \<times> bool list \<times> net) list \<Rightarrow> config \<Rightarrow> nat \<Rightarrow> storage server \<Rightarrow>
    (bool \<times> loop_state) list \<times> storage server" where
  "launch [] c i sv = ([], sv)"
| "launch ((u, cs, nt) # us) c i sv =
     (let (ok, n) = worker_setup u cs (port c) (backlog c) i (new_node nt sv);
          (rest, sv) = launch us c (i + 1) (srv n)
      in ((ok, loop_state.truncate n) # rest, sv))"

text \<open>The message with which a worker announces itself behind its set-up, and the messages of several
  workers, in the order and at the times at which they come.\<close>

definition worker_announcement :: "config \<Rightarrow> nat \<Rightarrow> string" where
  "worker_announcement c wid = ''Epoll worker '' @ to_string wid @ '' listening on port '' @
     to_string_int (port c) @ '' with backlog '' @ to_string_int (backlog c)"

definition announce :: "(int \<Rightarrow> string) \<Rightarrow> config \<Rightarrow> (nat \<times> int) list \<Rightarrow> logger \<Rightarrow> logger" where
  "announce ctime c ws lg = info_all ctime (map (\<lambda>(wid, now). (now, worker_announcement c wid)) ws) lg"

definition announcements :: "(int \<Rightarrow> string) \<Rightarrow> config \<Rightarrow> (nat \<times> int) list \<Rightarrow> string" where
  "announcements ctime c ws = log_lines ctime (map (\<lambda>(wid, now). (now, worker_announcement c wid)) ws)"

text \<open>The rest of \<open>start\<close>, behind the joined workers; \<open>join\<close> on the pool then waits for \<open>joined\<close>.\<close>

definition start_finish :: "storage server \<Rightarrow> bool \<times> storage server" where
  "start_finish sv = (\<not> worker_failed sv, sv\<lparr>thread_pool := begin_shutdown (thread_pool sv)\<rparr>)"

text \<open>What \<open>main\<close> returns.\<close>

definition exit_code :: "bool \<Rightarrow> int" where
  "exit_code served = (if \<not> served then 1 else 0)"

text \<open>The destructor stops the (already joined) workers; then the members are destroyed, from the last
  to the first: the log is closed before the pool is shut down.\<close>

definition destroy_server :: "storage server \<Rightarrow> storage server" where
  "destroy_server sv =
     (let sv = server_stop sv;
          sv = sv\<lparr>app := (app sv)\<lparr>storage_log := log_destroy (storage_log (app sv))\<rparr>\<rparr>
      in sv\<lparr>thread_pool := destroy_pool (thread_pool sv)\<rparr>)"

text \<open>\<open>main\<close> up to \<open>server.start()\<close>; \<open>lg\<close> is the logger of the process. An exception of the constructor
  leaves \<open>main\<close>.\<close>

datatype main_state = Exit_failure | Uncaught exn | Constructed tcp_server logger

definition gateway_main :: "(string \<rightharpoonup> string) \<Rightarrow> (string \<Rightarrow> bool) \<Rightarrow> (real \<Rightarrow> string) \<Rightarrow> bool \<Rightarrow> nat \<Rightarrow> int \<Rightarrow> storage \<Rightarrow>
    logger \<Rightarrow> string list \<Rightarrow> main_state" where
  "gateway_main files openable fmt test_mode hardware began st lg args =
     (case from_args files args of
        Inl e \<Rightarrow> Exit_failure
      | Inr c \<Rightarrow>
          (case logger_set_file openable (log_path c) lg of
             (Inl e, lg) \<Rightarrow> Exit_failure
           | (Inr _, lg) \<Rightarrow>
               (case new_tcp_server hardware began st c of
                  Inl e \<Rightarrow> Uncaught e
                | Inr t \<Rightarrow> Constructed (t\<lparr>members := (members t)\<lparr>router := main_routes fmt test_mode (router (members t))\<rparr>\<rparr>) lg)))"

section \<open>The recent messages\<close>

text \<open>The queries that \<open>/recent\<close> understands, with the number of messages they ask for.\<close>

definition wanted :: "string \<Rightarrow> nat \<Rightarrow> bool" where
  "wanted q k \<longleftrightarrow> q = [] \<and> k = 100 \<or>
     (\<exists>ds. q = ''count='' @ ds \<and> ds \<noteq> [] \<and> list_all is_digit ds \<and> k = digits_value 0 ds \<and> k \<le> 1000)"

lemma find_char_None: "find_char c s = None \<longleftrightarrow> c \<notin> set s"
  by (induction s) auto

lemma from_chars_all:
  "from_chars v = Some (k, []) \<longleftrightarrow> v \<noteq> [] \<and> list_all is_digit v \<and> k = digits_value 0 v \<and> k \<le> uint64_max"
  by (auto simp: from_chars_def Let_def takeWhile_digits dropWhile_digits dropWhile_eq_Nil_conv list_all_iff
      takeWhile_eq_all_conv [THEN iffD2] split: if_splits)

lemma count_query: "take 6 q = ''count='' \<Longrightarrow> q = ''count='' @ drop 6 q"
  by (metis append_take_drop_id)

lemma wanted_count:
  "wanted (''count='' @ v) k \<longleftrightarrow> from_chars v = Some (k, []) \<and> k \<le> 1000"
  by (auto simp: wanted_def from_chars_all uint64_max_def)

lemma no_ampersand: "list_all is_digit v \<Longrightarrow> CHR ''&'' \<notin> set (''count='' @ v)"
  by (auto simp: list_all_iff is_digit_def)

text \<open>C39. \<open>GET /recent\<close> on every query. Without a query it serves 100 messages, with
  \<open>count=\<close> followed by decimal digits for a number up to 1000 it serves that many, and anything else
  (another parameter, a sign, blanks, a trailing character, a larger number) gets 400. What it serves
  is JSON that reads back as the most recent messages of the log.\<close>

theorem recent_response_exact:
  "if \<exists>k. wanted (query req) k
   then \<exists>k \<le> 1000. wanted (query req) k \<and>
     recent_messages_response req l = typed_response ''application/json'' (recent_messages_json k l) \<and>
     read_array (resp_body (recent_messages_response req l)) = Some (get_recent l k, [])
   else recent_messages_response req l = plain_response 400 ''Bad Request'' ''Invalid recent count query''"
proof -
  let ?q = "query req"
  have rt: "read_array (recent_messages_json k l) = Some (get_recent l k, [])" for k
    using read_array_json [of "get_recent l k" "[]"] by (simp add: recent_messages_json_def)
  consider "?q = []" | v where "?q = ''count='' @ v" | "?q \<noteq> []" "take 6 ?q \<noteq> ''count=''"
    using count_query [of ?q] by metis
  then show ?thesis
  proof cases
    case 1
    then have "wanted ?q k \<longleftrightarrow> k = 100" for k by (simp add: wanted_def)
    then show ?thesis using 1 rt by (auto simp: recent_messages_response_def typed_response_def)
  next
    case 2
    have w: "wanted ?q k \<longleftrightarrow> from_chars v = Some (k, []) \<and> k \<le> 1000" for k unfolding 2 by (rule wanted_count)
    show ?thesis
    proof (cases "\<exists>k. wanted ?q k")
      case True
      then obtain k where k: "from_chars v = Some (k, [])" "k \<le> 1000" using w by blast
      then have "find_char (CHR ''&'') ?q = None" "v \<noteq> []"
        using no_ampersand [of v] by (auto simp: from_chars_all find_char_None 2)
      then show ?thesis using k w 2 rt by (auto simp: recent_messages_response_def typed_response_def)
    next
      case False
      then have "from_chars v = Some (k, []) \<longrightarrow> 1000 < k" for k using w by (meson not_le)
      then show ?thesis using False 2 by (auto simp: recent_messages_response_def Let_def split: option.split)
    qed
  next
    case 3
    then have "\<not> wanted ?q k" for k by (auto simp: wanted_def)
    then show ?thesis using 3 by (simp add: recent_messages_response_def Let_def)
  qed
qed

section \<open>Publishing\<close>

definition gateway_routes :: "(real \<Rightarrow> string) \<Rightarrow> bool \<Rightarrow> route_key \<rightharpoonup> storage view handler" where
  "gateway_routes fmt test_mode = routes (main_routes fmt test_mode (new_router 0 0))"

lemma gateway_routes_main: "routes r = Map.empty \<Longrightarrow> routes (main_routes fmt test_mode r) = gateway_routes fmt test_mode"
  by (simp add: gateway_routes_def main_routes_def add_route_def new_router_def Let_def)

lemma gateway_routes_cases:
  assumes "gateway_routes fmt test_mode k = Some h"
  shows "h \<in> {health, connections_page, metrics_page fmt, recent, publish, large_response, hold}"
  using assms by (auto simp: gateway_routes_def main_routes_def add_route_def new_router_def Let_def split: if_splits)

text \<open>What the client is told when its message was stored: 201.\<close>

definition created_response :: "nat \<Rightarrow> http_response" where
  "created_response offset = plain_response 201 ''Created'' (to_string offset)"

definition acked :: "string \<Rightarrow> bool" where
  "acked x \<longleftrightarrow> starts_with ''HTTP/1.1 201 '' x"

lemma response_prefix: "\<exists>rest. response_to_string r = ''HTTP/1.1 '' @ to_string_int (status_code r) @ '' '' @ rest"
  by (simp add: response_to_string_def Let_def split_beta serialize_headers_eq)

lemma acked_created: "acked (response_to_string (created_response off))"
proof -
  have "to_string_int 201 = ''201''" by code_simp
  then show ?thesis using response_prefix [of "created_response off"]
    by (auto simp: acked_def created_response_def plain_response_def)
qed

lemma acked_other:
  assumes "status_code r \<in> {200, 400, 404, 429, 500}"
  shows "\<not> acked (response_to_string r)"
proof -
  have "to_string_int 200 = ''200''" "to_string_int 400 = ''400''" "to_string_int 404 = ''404''"
    "to_string_int 429 = ''429''" "to_string_int 500 = ''500''" by code_simp+
  then show ?thesis using response_prefix [of r] assms by (auto simp: acked_def)
qed

lemma disk_usage_state: "script s = [] \<Longrightarrow> snd (disk_usage_bytes s) = s"
proof -
  have "script s = [] \<Longrightarrow> snd (disk_usage_loop infos acc s) = s" for infos acc
    by (induction infos arbitrary: acc) (auto simp: next_out_def split: option.split)
  then show "script s = [] \<Longrightarrow> snd (disk_usage_bytes s) = s" by (simp add: disk_usage_bytes_def)
qed

text \<open>What holds of the log between requests: it represents the records \<open>es\<close>, and no storage call
  has been made to fail.\<close>

definition holds :: "log \<Rightarrow> entry list \<Rightarrow> bool" where
  "holds l es \<longleftrightarrow> script l = [] \<and> (\<exists>segs. log_inv l segs \<and> concat segs = es)"

lemma publish_cases:
  assumes "holds (storage_log a) es"
  obtains (stored) a' now where "publish req (m, p, a) = (Inr (created_response (entries_size es)), (m, p, a'))"
      "body req \<noteq> []" "holds (storage_log a') (es @ [(now, string_bytes (body req))])"
  | (refused) r a' where "publish req (m, p, a) = (r, (m, p, a'))" "storage_log a' = storage_log a"
      "case r of Inl e \<Rightarrow> True | Inr resp \<Rightarrow> status_code resp = 400"
proof (cases "body req = []")
  case True
  then show ?thesis by (intro refused [of _ a]) (auto simp: publish_def plain_response_def)
next
  case False
  obtain segs where inv: "script (storage_log a) = []" "log_inv (storage_log a) segs" "concat segs = es"
    using assms by (auto simp: holds_def)
  obtain now ck where ck: "next_reading 0 (clock a) = (now, ck)" by fastforce
  note ref = log_append_refines [OF inv(2,1), of now "string_bytes (body req)"]
  show ?thesis
  proof (cases "append_spec (segment_size (storage_log a)) segs now (string_bytes (body req))")
    case (Inl e)
    then have "log_append now (string_bytes (body req)) (storage_log a) = (Inl e, storage_log a)" using ref by simp
    then show ?thesis using False ck by (intro refused [of "Inl e" "a\<lparr>clock := ck\<rparr>"]) (auto simp: publish_def bind_apply)
  next
    case (Inr segs')
    then obtain l where l: "log_append now (string_bytes (body req)) (storage_log a) = (Inr (entries_size es), l)"
        "log_inv l segs'" "script l = []"
      using ref inv(3) by (auto simp: log_entries_def)
    have "concat segs' = es @ [(now mod 2 ^ 64, string_bytes (body req))]"
      using append_spec_Inr [OF Inr] inv(2,3) by (simp add: log_inv_def)
    then have "holds l (es @ [(now mod 2 ^ 64, string_bytes (body req))])" using l by (auto simp: holds_def)
    then show ?thesis using False ck l(1)
      by (intro stored [of "a\<lparr>storage_log := l, clock := ck\<rparr>"]) (auto simp: publish_def bind_apply created_response_def)
  qed
qed

lemma recent_status: "status_code (recent_messages_response req l) \<in> {200, 400}"
  by (auto simp: recent_messages_response_def typed_response_def plain_response_def Let_def split: option.split)

lemma handler_cases:
  assumes "h \<in> {health, connections_page, metrics_page fmt, recent, publish, large_response, hold}"
    and es: "holds (storage_log a) es" and run: "h req (m, p, a) = (r, v)"
  shows "r = Inr (created_response (entries_size es)) \<and>
      (\<exists>now. holds (storage_log (snd (snd v))) (es @ [(now, string_bytes (body req))])) \<or>
    storage_log (snd (snd v)) = storage_log a \<and> (case r of Inl e \<Rightarrow> True | Inr resp \<Rightarrow> status_code resp \<in> {200, 400})"
proof (cases "h = publish")
  case True
  from es show ?thesis
    by (cases rule: publish_cases [of a es req m p]) (use run True in \<open>auto split: sum.splits\<close>)
next
  case False
  have "snd (disk_usage_bytes (storage_log a)) = storage_log a" using es disk_usage_state by (simp add: holds_def)
  then have "h = metrics_page fmt \<Longrightarrow> ?thesis" using run
    by (auto simp: metrics_page_def bind_apply typed_response_def Let_def split: prod.splits sum.splits)
  then show ?thesis using assms(1) False run recent_status [of req "storage_log a"]
    by (auto simp: health_def connections_page_def recent_def large_response_def hold_def typed_response_def plain_response_def bind_apply)
qed

lemma respond_stored:
  assumes rt: "routes (router sv) = gateway_routes fmt test_mode" and es: "holds (storage_log (app sv)) es"
    and run: "respond created now t sv = (resp, sv')"
  shows "routes (router sv') = gateway_routes fmt test_mode \<and>
    (\<exists>es'. holds (storage_log (app sv')) es' \<and>
      (if acked (response_to_string resp)
       then resp = created_response (entries_size es) \<and> (\<exists>ts. es' = es @ [(ts, string_bytes (body (task_request t)))])
       else es' = es))"
proof -
  let ?req = "task_request t" and ?v = "(metrics sv, thread_pool sv, app sv)"
  obtain res r v where route: "route created now ?req (task_ip t) (router sv) ?v = (res, r, v)" by (metis prod.collapse)
  then have r: "routes r = routes (router sv)" by (auto simp: route_def Let_def split: prod.splits if_splits option.splits)
  have sv': "router sv' = r" "app sv' = snd (snd v)"
    using run route by (auto simp: respond_def Let_def split: sum.splits)
  have "res = Inr (created_response (entries_size es)) \<and>
      (\<exists>now. holds (storage_log (snd (snd v))) (es @ [(now, string_bytes (body ?req))])) \<or>
    storage_log (snd (snd v)) = storage_log (app sv) \<and>
      (case res of Inl e \<Rightarrow> True | Inr resp \<Rightarrow> status_code resp \<in> {200, 400, 404, 429})"
  proof (cases "fst (check created now (task_ip t) (limiter (router sv)))")
    case True
    show ?thesis
    proof (cases "routes (router sv) (req_method ?req, path ?req)")
      case None
      then show ?thesis using True route by (auto simp: route_def Let_def plain_response_def split: prod.splits)
    next
      case (Some h)
      then have "h ?req ?v = (res, v)" using True route by (auto simp: route_def Let_def split: prod.splits)
      then show ?thesis using handler_cases [OF _ es, of h fmt ?req "metrics sv" "thread_pool sv" res v] gateway_routes_cases Some rt
        by (auto split: sum.splits)
    qed
  next
    case False
    then show ?thesis using route by (auto simp: route_def Let_def plain_response_def split: prod.splits)
  qed
  then show ?thesis
  proof
    assume "res = Inr (created_response (entries_size es)) \<and>
      (\<exists>now. holds (storage_log (snd (snd v))) (es @ [(now, string_bytes (body ?req))]))"
    moreover from this have "resp = created_response (entries_size es)" using run route by (auto simp: respond_def)
    ultimately show ?thesis using rt r sv' acked_created by auto
  next
    assume *: "storage_log (snd (snd v)) = storage_log (app sv) \<and>
      (case res of Inl e \<Rightarrow> True | Inr resp \<Rightarrow> status_code resp \<in> {200, 400, 404, 429})"
    then have "status_code resp \<in> {200, 400, 404, 429, 500}"
      using run route by (auto simp: respond_def plain_response_def split: sum.splits)
    then have "\<not> acked (response_to_string resp)" by (rule acked_other)
    then show ?thesis using * rt r sv' es by auto
  qed
qed

section \<open>The log of a running gateway\<close>

text \<open>What the clients are told when the records \<open>es\<close> are appended one by one from offset \<open>off\<close> on:
  for each payload, 201 with the offset of its record.\<close>

fun receipts :: "nat \<Rightarrow> entry list \<Rightarrow> (byte list \<times> string) list" where
  "receipts off [] = []"
| "receipts off (e # es) = (snd e, response_to_string (created_response off)) # receipts (off + entry_size e) es"

lemma receipts_snoc:
  "receipts off (es @ [e]) = receipts off es @ [(snd e, response_to_string (created_response (off + entries_size es)))]"
  by (induction es arbitrary: off) (simp_all add: add.assoc)

text \<open>The payloads that were acknowledged, with what their clients were told, in order.\<close>

definition confirmed :: "(task \<times> string) list \<Rightarrow> (byte list \<times> string) list" where
  "confirmed rs = map (\<lambda>(t, x). (string_bytes (body (task_request t)), x)) (filter (\<lambda>(t, x). acked x) rs)"

definition gateway_log :: "storage gateway \<Rightarrow> log" where
  "gateway_log g = storage_log (app (shared g))"

definition serving :: "(real \<Rightarrow> string) \<Rightarrow> bool \<Rightarrow> entry list \<Rightarrow> storage gateway \<Rightarrow> bool" where
  "serving fmt test_mode es0 g \<longleftrightarrow>
     routes (router (shared g)) = gateway_routes fmt test_mode \<and> results g = [] \<and> holds (gateway_log g) es0"

definition stored :: "(real \<Rightarrow> string) \<Rightarrow> bool \<Rightarrow> entry list \<Rightarrow> storage gateway \<Rightarrow> bool" where
  "stored fmt test_mode es0 g \<longleftrightarrow> routes (router (shared g)) = gateway_routes fmt test_mode \<and>
     (\<exists>es. holds (gateway_log g) (es0 @ es) \<and> confirmed (results g) = receipts (entries_size es0) es)"

lemma stored_frame:
  assumes "stored fmt test_mode es0 g" "app (shared g') = app (shared g)" "router (shared g') = router (shared g)" "results g' = results g"
  shows "stored fmt test_mode es0 g'"
  using assms by (simp add: stored_def gateway_log_def)

lemma stored_task:
  assumes "stored fmt test_mode es0 g"
  shows "stored fmt test_mode es0 (run_task created now el seen j t g)"
proof -
  let ?g = "run_task created now el seen j t g"
  obtain resp sv where run: "respond created now t (shared g) = (resp, sv)" by fastforce
  have g: "app (shared ?g) = app sv" "router (shared ?g) = router sv" "results ?g = results g @ [(t, response_to_string resp)]"
    using run by (simp_all add: run_task_def node_at_def push_completion_def set_metrics_def Let_def)
  from assms obtain es where rt: "routes (router (shared g)) = gateway_routes fmt test_mode"
    and es: "holds (storage_log (app (shared g))) (es0 @ es)" "confirmed (results g) = receipts (entries_size es0) es"
    by (auto simp: stored_def gateway_log_def)
  from respond_stored [OF rt es(1) run] obtain es' where r: "routes (router sv) = gateway_routes fmt test_mode"
      "holds (storage_log (app sv)) es'"
    and e: "if acked (response_to_string resp)
       then resp = created_response (entries_size (es0 @ es)) \<and> (\<exists>ts. es' = (es0 @ es) @ [(ts, string_bytes (body (task_request t)))])
       else es' = es0 @ es" by blast
  show ?thesis
  proof (cases "acked (response_to_string resp)")
    case True
    then obtain ts where "es' = es0 @ es @ [(ts, string_bytes (body (task_request t)))]"
      "resp = created_response (entries_size es0 + entries_size es)" using e by auto
    then show ?thesis using True r es(2) g
      by (auto simp: stored_def gateway_log_def confirmed_def receipts_snoc intro!: exI [of _ "es @ [(ts, string_bytes (body (task_request t)))]"])
  next
    case False
    then show ?thesis using e r es(2) g by (auto simp: stored_def gateway_log_def confirmed_def)
  qed
qed

lemma stored_step: "sys_step g g' \<Longrightarrow> stored fmt test_mode es0 g \<Longrightarrow> stored fmt test_mode es0 g'"
proof (induction rule: sys_step.induct)
  case (callback i g fd ev)
  then show ?case by (elim stored_frame) (simp_all add: effects_app [OF handle_event_effects] node_at_def)
next
  case (iteration i g)
  then show ?case by (elim stored_frame) (simp_all add: effects_app [OF on_iteration_effects] node_at_def)
next
  case (network i g nt cs)
  then show ?case by (elim stored_frame) (simp_all add: node_at_def)
next
  case (signalled g)
  then show ?case by (elim stored_frame) (simp_all add: handle_shutdown_signal_def)
next
  case (pool_thread g p)
  then show ?case by (elim stored_frame) (simp_all add: put_pool_def)
next
  case (task_body j g t created now el seen)
  then show ?case by (intro stored_task)
next
  case (task_done j g t)
  then show ?case by (elim stored_frame) (simp_all add: end_task_def put_pool_def Let_def)
qed

lemma stored_start: "serving fmt test_mode es0 g \<Longrightarrow> stored fmt test_mode es0 g"
  by (auto simp: serving_def stored_def confirmed_def intro: exI [of _ "[]"])

interpretation storage_sys: transition_system "serving fmt test_mode es0" sys_step "stored fmt test_mode es0"
  by unfold_locales (auto intro: stored_start stored_step)

section \<open>Launching the workers\<close>

text \<open>The set-up of a worker changes the shared members only when it fails.\<close>

lemma setup_frames:
  "srv (snd (next_fcntl s)) = srv s" "srv (snd (set_nonblocking fd s)) = srv s" "srv (snd (loop_add fd ev s)) = srv s"
  "srv (close_fd fd s) = srv s" "srv (destroy_loop s) = srv s" "srv (snd (create_reuseport_listener u pt bl s)) = srv s"
proof -
  show n: "srv (snd (next_fcntl s)) = srv s" for s :: "'a node" by (simp add: next_fcntl_def split: list.split)
  show b: "srv (snd (set_nonblocking fd s)) = srv s" for s :: "'a node" and fd by (simp add: set_nonblocking_def Let_def split_beta n)
  show "srv (snd (loop_add fd ev s)) = srv s" by (simp add: loop_add_def split_beta)
  show c: "srv (close_fd fd s) = srv s" for s :: "'a node" and fd by (simp add: close_fd_def)
  show "srv (destroy_loop s) = srv s" by (simp add: destroy_loop_def c)
  show "srv (snd (create_reuseport_listener u pt bl s)) = srv s"
    by (simp add: create_reuseport_listener_def Let_def split_beta b c)
qed

lemma worker_setup_server:
  "srv (snd (worker_setup u cs pt bl i s)) =
     (if fst (worker_setup u cs pt bl i s) then srv s else (srv s)\<lparr>worker_failed := True, shutdown_requested := True\<rparr>)"
  by (simp add: worker_setup_def Let_def split_beta setup_frames request_stop_def)

lemma launch_fields:
  assumes "launch us c i sv = (ls, sv')"
  shows "length ls = length us"
    and "list_all fst ls \<Longrightarrow> sv' = sv"
    and "\<not> list_all fst ls \<Longrightarrow> worker_failed sv' \<and> shutdown_requested sv'"
    and "list_all (\<lambda>x. fresh_setup (fst x)) us \<Longrightarrow> list_all fst ls \<Longrightarrow> \<forall>k < length ls. set_up sv (i + k) (snd (ls ! k))"
proof -
  have mono: "worker_failed sv \<Longrightarrow> shutdown_requested sv \<Longrightarrow>
      worker_failed (snd (launch us c i sv)) \<and> shutdown_requested (snd (launch us c i sv))" for us i sv
  proof (induction us arbitrary: i sv)
    case (Cons x us)
    obtain u cs nt where x: "x = (u, cs, nt)" by (cases x)
    show ?case using Cons.prems Cons.IH [of "srv (snd (worker_setup u cs (port c) (backlog c) i (new_node nt sv)))" "i + 1"]
      by (simp add: x Let_def split_beta worker_setup_server new_node_def)
  qed simp
  have "length ls = length us \<and> (list_all fst ls \<longrightarrow> sv' = sv) \<and> (\<not> list_all fst ls \<longrightarrow> worker_failed sv' \<and> shutdown_requested sv') \<and>
    (list_all (\<lambda>x. fresh_setup (fst x)) us \<longrightarrow> list_all fst ls \<longrightarrow> (\<forall>k < length ls. set_up sv (i + k) (snd (ls ! k))))"
    using assms
  proof (induction us arbitrary: i sv ls)
    case (Cons x us)
    obtain u cs nt where x: "x = (u, cs, nt)" by (cases x)
    obtain ok n where w: "worker_setup u cs (port c) (backlog c) i (new_node nt sv) = (ok, n)" by fastforce
    obtain rest where r: "launch us c (i + 1) (srv n) = (rest, sv')" "ls = (ok, loop_state.truncate n) # rest"
      using Cons.prems by (auto simp: x w split: prod.splits)
    have n: "srv n = (if ok then sv else sv\<lparr>worker_failed := True, shutdown_requested := True\<rparr>)"
      using worker_setup_server [of u cs "port c" "backlog c" i "new_node nt sv"] w by (simp add: new_node_def)
    have "ok \<Longrightarrow> worker_setup u cs (port c) (backlog c) i (new_node nt sv) = (True, n)" using w by simp
    then have su: "fresh_setup u \<Longrightarrow> ok \<Longrightarrow> set_up sv i (loop_state.truncate n)" unfolding set_up_def by blast
    show ?case using Cons.IH [OF r(1)] r(2) n su mono [of "srv n" us "i + 1"]
      by (auto simp: x nth_Cons split: nat.split if_splits)
  qed simp
  then show "length ls = length us" "list_all fst ls \<Longrightarrow> sv' = sv"
    "\<not> list_all fst ls \<Longrightarrow> worker_failed sv' \<and> shutdown_requested sv'"
    "list_all (\<lambda>x. fresh_setup (fst x)) us \<Longrightarrow> list_all fst ls \<Longrightarrow> \<forall>k < length ls. set_up sv (i + k) (snd (ls ! k))" by auto
qed

section \<open>Starting\<close>

text \<open>A log that is not open, over a directory without segment files.\<close>

definition fresh_storage :: "log \<Rightarrow> bool" where
  "fresh_storage l \<longleftrightarrow> segment_files l = [] \<and> no_segments_after l 0 \<and> script l = [] \<and> fds_ok l \<and> \<not> opened l"

lemma fresh_storage_new: "fresh_storage (new_log empty_os)"
  using new_log_empty by (simp add: fresh_storage_def)

text \<open>The state in which the launched workers run.\<close>

definition running_gateway :: "(bool \<times> loop_state) list \<Rightarrow> storage server \<Rightarrow> storage gateway" where
  "running_gateway ls sv = \<lparr>shared = sv, loops = map snd ls, pushed = {}, results = []\<rparr>"

lemma start_prepare_fresh:
  assumes "valid_config (config_of t)" and "fresh_storage (storage_log (app (members t)))"
  shows "\<exists>t' l. start_prepare t = (True, t') \<and> log_inv l [[]] \<and> script l = [] \<and> segment_size l = storage_segment_size (config_of t) \<and>
    members t' = (members t)\<lparr>shutdown_requested := False, worker_failed := False,
      metrics := set_epoll_worker_count (worker_total t) (metrics (members t)),
      app := (app (members t))\<lparr>storage_log := l\<rparr>,
      thread_pool := new_pool (thread_pool_size (config_of t)) (task_queue_capacity (config_of t))\<rparr>"
proof -
  let ?c = "config_of t"
  have "73 \<le> storage_segment_size ?c" "storage_segment_size ?c \<le> off_max" "0 < recent_message_capacity ?c"
    using assms(1) by (simp_all add: valid_config_def off_max_def)
  then obtain l where l: "log_open (storage_directory ?c) (storage_segment_size ?c) (recent_message_capacity ?c) (storage_log (app (members t))) = (Inr (), l)"
      "log_inv l [[]]" "script l = []" "segment_size l = storage_segment_size ?c"
    using log_open_fresh [of "storage_log (app (members t))"] assms(2) unfolding fresh_storage_def by blast
  then show ?thesis
    by (intro exI [of _ "snd (start_prepare t)"] exI [of _ l]) (simp add: start_prepare_def Let_def)
qed

lemma new_tcp_server_valid:
  "valid_config c \<Longrightarrow> \<exists>t. new_tcp_server hardware began st c = Inr t \<and> config_of t = c \<and> 1 \<le> worker_total t \<and>
     routes (router (members t)) = Map.empty \<and> app (members t) = st \<and> open_connections (metrics (members t)) = 0"
  using validate_iff [of c "()"] by (simp add: new_tcp_server_def new_router_def new_metrics_def)

lemma running_start:
  assumes "launch us c 0 sv = (ls, sv')" "list_all (\<lambda>x. fresh_setup (fst x)) us" "list_all fst ls"
    and "thread_pool sv = new_pool threads cap" "open_connections (metrics sv) = 0"
  shows "sys_start threads cap (running_gateway ls sv') \<and> shared (running_gateway ls sv') = sv \<and>
    length (loops (running_gateway ls sv')) = length us"
  using launch_fields [OF assms(1)] assms(2-) by (simp add: sys_start_def running_gateway_def pool_def)

text \<open>Launching the workers over members with a new pool, an empty log and the routes of \<open>main\<close>.\<close>

lemma launch_serves:
  assumes us: "list_all (\<lambda>x. fresh_setup (fst x)) us" "launch us c 0 sv = (ls, sv')"
    and sv: "thread_pool sv = new_pool threads cap" "open_connections (metrics sv) = 0"
      "routes (router sv) = gateway_routes fmt test_mode" "log_inv (storage_log (app sv)) [[]]" "script (storage_log (app sv)) = []"
  shows "if list_all fst ls
    then sys_start threads cap (running_gateway ls sv') \<and> serving fmt test_mode [] (running_gateway ls sv') \<and>
      length (loops (running_gateway ls sv')) = length us
    else shutdown_requested sv' \<and> exit_code (fst (start_finish sv')) = 1"
proof (cases "list_all fst ls")
  case True
  then have g: "sys_start threads cap (running_gateway ls sv') \<and> shared (running_gateway ls sv') = sv \<and>
      length (loops (running_gateway ls sv')) = length us"
    using running_start [OF us(2,1)] sv(1,2) by blast
  moreover have "serving fmt test_mode [] (running_gateway ls sv')"
    using g sv(3-5) by (auto simp: serving_def holds_def gateway_log_def running_gateway_def)
  ultimately show ?thesis using True by simp
next
  case False
  then show ?thesis using launch_fields(3) [OF us(2)] by (simp add: start_finish_def exit_code_def)
qed

text \<open>The handlers of \<open>SIGINT\<close> and \<open>SIGTERM\<close> are installed before \<open>start\<close> clears the flag: a signal that
  arrives in between is lost.\<close>

lemma early_signal_lost: "\<not> shutdown_requested (members (snd (start_prepare (t\<lparr>members := handle_shutdown_signal (members t)\<rparr>))))"
  by (simp add: start_prepare_def Let_def split_beta split: sum.split)

end
