(* ===== verification/Spec2Isabelle.thy ===== *)
theory Spec2Isabelle
  imports Gateway
begin

text \<open>
  A verification library for the telemetry gateway under \<open>src/src\<close>: an HTTP server that
  accepts device telemetry and stores it in a crash-safe, memory-mapped log.

  \<^bold>\<open>The program.\<close> \<open>main\<close> reads the configuration, registers the request handlers and starts a
  \<open>TCPServer\<close>. The server opens the \<open>MemoryMappedLog\<close>, creates a \<open>ThreadPool\<close> and one thread per
  epoll worker. A worker owns a listener, an \<open>EpollLoop\<close>, a \<open>ConnectionManager\<close> and a \<open>LoopState\<close>;
  it accepts clients, feeds what they send to their \<open>HTTPParser\<close> and submits complete requests to
  the pool. A pool thread passes the request through the \<open>RateLimiter\<close> and the \<open>Router\<close> to its
  handler, pushes the serialised response to the worker's completion queue and notifies its eventfd;
  the worker queues the response on the connection, if it is still the same one, and flushes it. On
  a signal every worker closes its listener, drains its connections and leaves its loop. \<open>Metrics\<close>
  counts all of it.

  \<^bold>\<open>Conventions.\<close> A struct or class is a record with the source's members, a method a function from
  the state to the result and the new state; an operation that may throw is a \<open>prog\<close> (\<open>Prelude\<close>),
  which returns an exception or a value and in both cases the state. \<open>size_t\<close> and \<open>uint64_t\<close> values
  are naturals, with \<open>add64\<close> and \<open>sub64\<close> where the source's arithmetic can wrap; bytes on disk are
  \<open>8 word\<close>, event masks \<open>32 word\<close>; a \<open>double\<close> is a real number. The outcome of every system call is
  an input: lists of outcomes that the calls consume (\<open>script\<close> for files, \<open>net\<close> and \<open>ctls\<close> for
  sockets and epoll, the list of \<open>epoll_wait\<close> results for the loop), so the theorems cover every
  pattern of failures, interruptions and partial transfers that their hypotheses do not exclude. An
  exhausted list means that calls succeed (or would block, for \<open>read\<close> and \<open>accept\<close>).

  \<^bold>\<open>Theories, in the order of their imports.\<close>

    \<^item> \<open>Prelude\<close>: exceptions and programs, strings, decimal numbers, bounded histories, the locale
      \<open>transition_system\<close> (an invariant that holds at the start and is kept by every step), which
      \<open>Thread_Pool\<close>, \<open>Rate_Limiter\<close>, \<open>Tcp_System\<close>, \<open>Gateway\<close> and \<open>Logger\<close> interpret.
    \<^item> \<open>Circular_Buffer\<close> (\<open>storage/circular_buffer.h\<close>): the ring, and the locale \<open>bounded_window\<close> it
      fulfils for the log.
    \<^item> \<open>Record_Format\<close>, \<open>Posix\<close>, \<open>Mmap_Log\<close> (\<open>storage/mmap_log.cpp\<close>): the byte format of segments
      and records, the file calls with their failures, and every operation of the log with every
      error branch. \<open>Log_Scan\<close>: the record scan equals a reference decoder. \<open>Log_Invariant\<close>: \<open>log_inv\<close>,
      the relation between files, index, cache and mapping and the abstract contents (a list of
      segments, each a list of records), and the refinement of \<open>append\<close>. \<open>Log_Recovery\<close>: opening after
      a crash, damage to sealed segments, closing and reopening. \<open>Log_Crash\<close>: what a killed process and a
      power failure leave behind and what the next process makes of it. \<open>Log_Properties\<close>,
      \<open>Crash_Properties\<close>: the properties.
    \<^item> \<open>Http_Parser\<close>, \<open>Http_Requests\<close> (\<open>http/http_parser.cpp\<close>): the incremental parser; feeding in
      pieces, the round trip of printed requests, the limits. \<open>Http_Framing\<close>: what an accepted request
      says of its length, read off the bytes that were sent by definitions of its own. \<open>Http_Response\<close> (\<open>http/http_response.cpp\<close>): serialisation and its framing.
    \<^item> \<open>Rate_Limiter\<close> (\<open>security/rate_limiter.cpp\<close>): token buckets, the check as three critical
      sections interleaved between threads, linearisability, the bound on admitted requests. \<open>Router\<close>
      (\<open>http/router.cpp\<close>): dispatch. \<open>Metrics\<close> (\<open>monitoring/metrics.cpp\<close>): counters, histogram, the
      text page, the effect of the events as a tally of them. \<open>Thread_Pool\<close> (\<open>network/thread_pool.h\<close>): the pool as a step relation between its
      threads; every accepted task runs exactly once, in order, and shutdown drains the queue.
    \<^item> \<open>Config\<close> (\<open>core/config.cpp\<close>): file, command line and validation. \<open>Logger\<close> (\<open>core/logger.h\<close>): the
      sink of the informational messages.
    \<^item> \<open>Connections\<close> (\<open>network/connection_manager.cpp\<close>) with the locale \<open>fd_table\<close>; \<open>Epoll_Loop\<close>
      (\<open>network/epoll_loop.cpp\<close>) with the locale \<open>event_handlers\<close>, the contract of the callbacks that
      \<open>Tcp_Invariant\<close> interprets on the worker's callbacks.
    \<^item> \<open>Tcp_Server\<close> (\<open>network/tcp_server.cpp\<close>): one epoll worker, operation by operation, and the task.
      \<open>Tcp_Effects\<close>: every callback is a sequence of thirteen kinds of small effects. \<open>Tcp_Invariant\<close>:
      what each effect keeps (byte streams, descriptors, counters, requests in flight). \<open>Tcp_System\<close>:
      all workers, pool threads and tasks interleaved (\<open>sys_step\<close>), and the invariant of reachable
      states. \<open>Tcp_Properties\<close>, \<open>Tcp_Shutdown\<close>: the properties, the latter with the locale \<open>node_frame\<close>
      for parts of the state that a group of operations leaves alone.
    \<^item> \<open>Json\<close>, \<open>Gateway\<close> (\<open>network/tcp_server.cpp\<close>, \<open>main.cpp\<close>): the JSON texts with a reader and a
      recogniser of UTF-8 as their reference, the request handlers, construction, start, stop and \<open>main\<close>.
    \<^item> This theory: the properties that span all components.

  \<^bold>\<open>What is shown.\<close> Of the log: \<open>append\<close> refines an abstract append on every branch; a log survives
  closing, reopening and a crash inside an \<open>append\<close> with every complete record; damage to a sealed
  segment is detected; a failed rollover closes the log. A record whose \<open>append\<close> returned survives the
  death of the process between two appends or in the record copy of a later one, and a record in front of a
  \<open>flush\<close> survives a power failure at such a moment, whatever subset of the later writes and directory entries reached
  the disk; neither is true of a crash inside the creation of a segment. Of the
  protocol code: the parser's result does not depend on how the bytes arrive; a request that it accepts has, in the bytes
  that were sent, no Transfer-Encoding, no two different Content-Length fields and a body of exactly the length they name; responses
  are framed by their length; the JSON of the stored messages reads back to them, and is UTF-8 exactly when the payloads are. Of the
  configuration: what the command line and the file decide, key by key. Of the limiter: every interleaving of its critical
  sections has the outcome of whole checks in some order, and no client exceeds capacity plus refill in any window. Of the pool: order, exactly-once execution, drainage. Of the server, in every
  reachable state of every interleaving: what is sent on a connection is a prefix of what was queued
  for it; a queued text is an error page or the response to a request of that very connection;
  descriptors, the connection gauge and the task counters are exact; a drained worker stops and
  leaves nothing behind but the last write of its tasks to the eventfd, which nothing waits for. Across components: the bodies acknowledged with 201 are exactly the records
  of the log, also of the log that the next process opens when this one is killed, and a command line
  either is refused or leads to a serving gateway. Some properties state defects: a listener closed twice, a request executed twice, requests without header fields
  refused, a log that cannot be opened after a kill between the creation of a segment file and the
  write of its header; the lemmas \<open>oversized_response_dropped\<close> and \<open>early_signal_lost\<close> state two more.

  \<^bold>\<open>Bounds and fuel.\<close> No operation of the model runs on fuel: the loops over system calls recurse
  over their finite lists of outcomes, the others have termination proofs (only the JSON reader, a
  reference definition, takes the length of its text as a bound on the number of elements). The stream
  properties assume that a worker has accepted fewer than \<open>2 ^ 64 - 1\<close> descriptors and queued fewer than
  \<open>2 ^ 64\<close> bytes of responses (\<open>feasible\<close>).

  \<^bold>\<open>Granularity.\<close> A callback of an epoll worker is one step: the state it shares with other threads is
  reached through atomic updates and through calls with one critical section each. The pool and the
  limiter, whose critical sections interact, are modelled section by section. In \<open>sys_step\<close> the body of a
  task is one step (\<open>run_task\<close>), up to and with the push of its completion: the limiter's check, the handler with
  its \<open>append\<close>, and the push, which in the code run one after the other under three different locks, while other
  threads may run. The log's mutex makes \<open>append\<close> atomic, so that \<open>results\<close> is to be read as ordered by the appends,
  not by the pushes. For the limiter \<open>check_linearizable\<close> shows that each interleaving of its sections
  equals whole checks, one at a time, as \<open>respond\<close> makes them. The push order of different tasks matters to no property:
  a completion carries its own connection and generation. Behind the push a task has only the write to the eventfd
  left; \<open>active\<close> counts the threads before the push, \<open>pushed\<close> names those behind it.

  \<^bold>\<open>Stable storage.\<close> A store through a mapping counts as synchronised when \<open>msync\<close> of the mapping and then
  \<open>fsync\<close> of its file have returned, a new name when the directory has been synchronised (\<open>Posix\<close>). A power
  failure may take back everything else (\<open>power_loss\<close>).

  \<^bold>\<open>Not modelled.\<close> The texts on standard error (output that nothing reads); failures to create a thread or to allocate memory; the
  rounding of \<open>double\<close> arithmetic; the calendar and the passage of time other than as readings of clocks; the pause of the test-mode handler; the
  hash of \<open>std::string\<close> (a parameter of \<open>route_key_hash\<close>) and how an \<open>ostream\<close> prints a \<open>double\<close>
  (the parameter \<open>fmt\<close>); the memory order of relaxed atomics, which are read as single steps.
\<close>

section \<open>From a request to the log\<close>

definition hello_task :: task where
  "hello_task = \<lparr>task_worker = 0, task_fd = 7, task_generation = 1,
     task_request = \<lparr>req_method = ''POST'', path = ''/publish'', query = [], headers = Map.empty, body = ''hi''\<rparr>,
     task_ip = ''10.0.0.1''\<rparr>"

definition hello_server :: "storage server" where
  "hello_server = \<lparr>metrics = new_metrics 0, thread_pool = (new_pool 1 1)\<lparr>workers := [Running hello_task]\<rparr>,
     shutdown_requested = False, worker_failed = False, router = main_routes (\<lambda>_. []) False (new_router 5 1),
     app = \<lparr>storage_log = example_log, clock = [7], uptimes = []\<rparr>\<rparr>"

definition hello_gateway :: "storage gateway" where
  "hello_gateway = \<lparr>shared = hello_server, loops = [example_loop], pushed = {}, results = []\<rparr>"

lemma hello_serving: "serving (\<lambda>_. []) False [] hello_gateway"
  using example_log_inv gateway_routes_main [of "new_router 5 1" "\<lambda>_. []" False]
  by (auto simp: serving_def holds_def hello_gateway_def hello_server_def gateway_log_def new_router_def)

lemma hello_respond: "fst (respond 0 0 hello_task hello_server) = created_response 0"
proof -
  obtain l where l: "log_append 7 (string_bytes ''hi'') example_log = (Inr 0, l)"
    using log_append_refines [OF example_log_inv(1,2), of 7 "string_bytes ''hi''"] example_log_inv(3)
    by (auto simp: append_spec_def record_header_size_def segment_header_size_def log_entries_def uint64_max_def uint32_max_def)
  have "routes (router hello_server) (''POST'', ''/publish'') = Some publish"
    by (simp add: hello_server_def main_routes_def add_route_def Let_def)
  moreover have "fst (check 0 0 ''10.0.0.1'' (limiter (router hello_server)))"
    by (simp add: hello_server_def main_routes_def add_route_def new_router_def new_limiter_def check_def consume_def new_bucket_def
        seconds_def Let_def)
  moreover have "fst (publish (task_request hello_task) (m, p, app hello_server)) = Inr (created_response 0)" for m p
    using l by (simp add: publish_def hello_task_def hello_server_def bind_apply next_reading_def created_response_def)
  ultimately show ?thesis
    by (simp add: respond_def route_def Let_def split_beta hello_task_def)
qed

text \<open>C1. What a client is told is what the log holds. Start from a gateway with the routes of
  \<open>main\<close> and a log with the records \<open>es0\<close>, and let it run in any interleaving of its threads, with
  any clients and requests (storage calls do not fail). At every moment the log holds \<open>es0\<close> followed
  by exactly one record for each request whose task came to the response 201, in the order in which
  the tasks appended (\<open>results\<close>), with the body of that request as its payload; the response names the
  offset of that record. (Whether and when a response then reaches its client is the subject of the
  properties of the server.) The
  next offset is the total size, \<open>/recent\<close> serves the latest of these records as JSON that reads
  back to them, and after closing the log and opening it again all of them are there.\<close>

theorem acknowledged_is_stored:
  assumes "serving fmt test_mode es0 g0" "sys_step\<^sup>*\<^sup>* g0 g" "0 < cap"
  shows "\<exists>es. confirmed (results g) = receipts (entries_size es0) es \<and>
    next_offset (gateway_log g) = entries_size (es0 @ es) \<and>
    read_array (recent_messages_json k (gateway_log g)) =
      Some (last_n (min k (cb_capacity (recent_cache (gateway_log g)))) (entry_messages 0 (es0 @ es)), []) \<and>
    (\<exists>s1 s2. log_close (gateway_log g) = (Inr (), s1) \<and>
      log_open dir (segment_size (gateway_log g)) cap s1 = (Inr (), s2) \<and>
      get_recent s2 n = last_n (min n cap) (entry_messages 0 (es0 @ es)))"
proof -
  let ?l = "gateway_log g"
  obtain es segs where es: "confirmed (results g) = receipts (entries_size es0) es"
    and inv: "script ?l = []" "log_inv ?l segs" "concat segs = es0 @ es"
    using storage_sys.inv_reachable [OF assms(1,2)] by (auto simp: stored_def holds_def)
  have "next_offset ?l = entries_size (es0 @ es)" using inv by (simp add: next_offset_def log_inv_def)
  moreover have "read_array (recent_messages_json k ?l) =
      Some (last_n (min k (cb_capacity (recent_cache ?l))) (entry_messages 0 (es0 @ es)), [])"
    using read_array_json [of "get_recent ?l k" "[]"] get_recent_inv [OF inv(2), of k] inv(3) by (simp add: recent_messages_json_def)
  moreover obtain s1 s2 where "log_close ?l = (Inr (), s1)" "log_open dir (segment_size ?l) cap s1 = (Inr (), s2)"
      "log_inv s2 segs" "cb_capacity (recent_cache s2) = cap"
    using reopen_same [OF inv(2,1) assms(3), of dir] by blast
  ultimately show ?thesis using es get_recent_inv [of s2 segs n] inv(3) by auto
qed

theorem acknowledged_is_stored_witness:
  "\<exists>e es. snd e = string_bytes ''hi'' \<and> es = [e] \<and> next_offset (gateway_log (run_task 0 0 0 [] 0 hello_task hello_gateway)) = entries_size es"
proof -
  let ?g = "run_task 0 0 0 [] 0 hello_task hello_gateway"
  have "sys_step hello_gateway ?g"
    by (rule task_body) (simp_all add: hello_gateway_def hello_server_def pool_def new_pool_def)
  then obtain es where es: "confirmed (results ?g) = receipts 0 es" "next_offset (gateway_log ?g) = entries_size es"
    using acknowledged_is_stored [OF hello_serving, of ?g 1 0 "''data''" 0] by auto
  have "results ?g = [(hello_task, response_to_string (created_response 0))]"
    using hello_respond by (simp add: run_task_def Let_def split_beta hello_gateway_def)
  then have "confirmed (results ?g) = [(string_bytes ''hi'', response_to_string (created_response 0))]"
    by (simp add: confirmed_def acked_created hello_task_def)
  then obtain e where "es = [e]" "snd e = string_bytes ''hi''"
    using es(1) by (cases es; cases "tl es") auto
  then show ?thesis using es(2) by blast
qed

text \<open>C3. A gateway that is killed. Let the gateway run as above and kill its process when nothing is being
  appended, or while a further request is, to the active segment or behind a completed rollover to the
  new one (\<open>in_flight\<close>: any of the bytes of its record, or none, may have reached the file; a kill
  inside the rollover is treated apart). The next process opens the directory and finds
  \<open>es0\<close> and, behind it, one record for every request that was answered with 201, in order and with
  the offsets that the answers named; nothing that was acknowledged is lost. As long as the copy of
  the record header had not begun there is nothing else in the log.\<close>

theorem killed_gateway_restarts:
  assumes run: "serving fmt test_mode es0 g0" "sys_step\<^sup>*\<^sup>* g0 g" and cap: "0 < cap"
    and log: "l = gateway_log g \<or> rolled_over (gateway_log g) l"
    and killed: "in_flight l begun c'"
    and room: "next_offset l + segment_size l \<le> uint64_max"
  shows "\<exists>es more s'. confirmed (results g) = receipts (entries_size es0) es \<and>
    log_open dir (segment_size l) cap (next_process (dir_entries (set_file (map_path (active l)) c' l)) l) = (Inr (), s') \<and>
    next_offset s' = entries_size (es0 @ es @ more) \<and> (\<not> begun \<longrightarrow> more = []) \<and>
    get_recent s' n = last_n (min n cap) (entry_messages 0 (es0 @ es @ more))"
proof -
  let ?l = l
  obtain es segs0 where es: "confirmed (results g) = receipts (entries_size es0) es"
    and inv0: "script (gateway_log g) = []" "log_inv (gateway_log g) segs0" "concat segs0 = es0 @ es"
    using storage_sys.inv_reachable [OF run] by (auto simp: stored_def holds_def)
  obtain segs where inv: "log_inv ?l segs" "concat segs = es0 @ es"
    using log inv0 rolled_over_inv [OF inv0(2,1), of l] by force
  have act: "map_path (active ?l) = segment_name (length segs)" "map_write_position (active ?l) = 40 + entries_size (last segs)"
    "next_offset ?l = entries_size (concat segs)" "segs \<noteq> []"
    using inv(1) by (auto simp: log_inv_def active_of_def next_offset_def)
  obtain s' more where s': "log_open dir (segment_size ?l) cap
        (next_process (dir_entries (set_file (segment_name (length segs)) c' ?l)) ?l) = (Inr (), s')"
      "log_inv s' (butlast segs @ [last segs @ more])" "cb_capacity (recent_cache s') = cap" "\<not> begun \<longrightarrow> more = []"
    using in_flight_killed [OF inv(1) killed refl cap, of dir ?l] room by (auto simp: act)
  have all: "concat (butlast segs @ [last segs @ more]) = es0 @ es @ more" using concat_last [OF act(4)] inv(2) by simp
  have "next_offset s' = entries_size (es0 @ es @ more)"
    using next_offset_inv [OF s'(2)] by (simp only: all)
  moreover have "get_recent s' n = last_n (min n cap) (entry_messages 0 (es0 @ es @ more))"
    using get_recent_inv [OF s'(2), of n] s'(3) by (simp only: all)
  ultimately show ?thesis using es s'(1,4) unfolding act(1) by blast
qed

theorem killed_gateway_restarts_witness:
  "\<exists>c s'. in_flight (gateway_log hello_gateway) False (overwrite 72 [1] c) \<and>
    log_open ''data'' 128 4 (next_process (dir_entries (set_file (segment_name 1) (overwrite 72 [1] c) (gateway_log hello_gateway)))
      (gateway_log hello_gateway)) = (Inr (), s') \<and> next_offset s' = 0"
proof -
  have l: "gateway_log hello_gateway = example_log" by (simp add: gateway_log_def hello_gateway_def hello_server_def)
  obtain c where c: "append_interrupted 7 [1, 2] False (gateway_log hello_gateway) (overwrite 72 [1] c)"
    and act: "map_path (active example_log) = segment_name 1" "map_write_position (active example_log) = 40"
    using example_interrupted by (auto simp: l)
  have fl: "in_flight (gateway_log hello_gateway) False (overwrite 72 [1] c)"
    using c unfolding in_flight_def l act by (intro disjI2 exI [of _ 7] exI [of _ "[1, 2]"]) (simp add: example_log_inv(3))
  have "confirmed (results hello_gateway) = []" by (simp add: hello_gateway_def confirmed_def)
  then have none: "confirmed (results hello_gateway) = receipts 0 es \<longleftrightarrow> es = []" for es by (cases es) simp_all
  have "next_offset example_log = 0" using example_log_inv(1) by (simp add: next_offset_def log_inv_def)
  then show ?thesis
    using killed_gateway_restarts [OF hello_serving rtranclp.rtrancl_refl _ _ fl, of 4 "''data''" 0] fl
    by (auto simp: l act example_log_inv(3) uint64_max_def none)
qed

section \<open>From the command line to serving\<close>

text \<open>C16. Start-up. \<open>main\<close> never ends with an uncaught exception of the constructor: it exits with a
  failure only when the arguments (or the configuration file) are refused or the log file cannot be
  opened. Otherwise, over a directory without segments, \<open>start\<close> opens the log, creates the pool with
  the configured threads and capacity and has at least one worker to launch; the messages with which
  the workers announce themselves go to the chosen log file or to the standard output. If every worker comes
  up, the gateway is in a start state of the system, with an empty log and the routes of \<open>main\<close>, so
  that every property of its runs applies; if any fails, all are asked to stop and the process exits
  with a failure.\<close>

theorem startup_ready:
  assumes "fresh_storage (storage_log st)"
  shows "case gateway_main files openable fmt test_mode hardware began st (new_logger texts) args of
      Exit_failure \<Rightarrow> (\<exists>e. from_args files args = Inl e) \<or> (\<exists>c. from_args files args = Inr c \<and> log_path c \<noteq> [] \<and> \<not> openable (log_path c))
    | Uncaught e \<Rightarrow> False
    | Constructed t lg \<Rightarrow> \<exists>t'. start_prepare t = (True, t') \<and> 1 \<le> worker_total t \<and>
        (\<forall>ctime ws. (if log_path (config_of t) = [] then console (announce ctime (config_of t) ws lg)
            else the (text_files (announce ctime (config_of t) ws lg) (log_path (config_of t)))) =
          (if log_path (config_of t) = [] then [] else case texts (log_path (config_of t)) of None \<Rightarrow> [] | Some old \<Rightarrow> old) @
            announcements ctime (config_of t) ws) \<and>
        (\<forall>us ls sv. length us = worker_total t \<longrightarrow> list_all (\<lambda>x. fresh_setup (fst x)) us \<longrightarrow>
           launch us (config_of t) 0 (members t') = (ls, sv) \<longrightarrow>
           (if list_all fst ls
            then sys_start (thread_pool_size (config_of t)) (task_queue_capacity (config_of t)) (running_gateway ls sv) \<and>
              serving fmt test_mode [] (running_gateway ls sv) \<and> length (loops (running_gateway ls sv)) = worker_total t
            else shutdown_requested sv \<and> exit_code (fst (start_finish sv)) = 1))"
proof (cases "from_args files args")
  case (Inl e)
  then show ?thesis by (simp add: gateway_main_def)
next
  case (Inr c)
  note valid = from_args_valid [OF Inr]
  from new_tcp_server_valid [OF valid, of hardware began st] obtain t0 where t0: "new_tcp_server hardware began st c = Inr t0"
    "config_of t0 = c" "1 \<le> worker_total t0" "routes (router (members t0)) = Map.empty" "app (members t0) = st"
    "open_connections (metrics (members t0)) = 0" by blast
  define t where "t = t0\<lparr>members := (members t0)\<lparr>router := main_routes fmt test_mode (router (members t0))\<rparr>\<rparr>"
  have t: "config_of t = c" "worker_total t = worker_total t0" "storage_log (app (members t)) = storage_log st"
    "routes (router (members t)) = gateway_routes fmt test_mode" "open_connections (metrics (members t)) = 0"
    using t0 gateway_routes_main [OF t0(4)] by (simp_all add: t_def)
  obtain t' l where t': "start_prepare t = (True, t')" "log_inv l [[]]" "script l = []"
    and m: "members t' = (members t)\<lparr>shutdown_requested := False, worker_failed := False,
      metrics := set_epoll_worker_count (worker_total t) (metrics (members t)), app := (app (members t))\<lparr>storage_log := l\<rparr>,
      thread_pool := new_pool (thread_pool_size c) (task_queue_capacity c)\<rparr>"
    using start_prepare_fresh [of t] valid assms t by auto
  have "thread_pool (members t') = new_pool (thread_pool_size c) (task_queue_capacity c)" "open_connections (metrics (members t')) = 0"
    "routes (router (members t')) = gateway_routes fmt test_mode" "storage_log (app (members t')) = l"
    using t by (simp_all add: m set_epoll_worker_count_def)
  then have run: "list_all (\<lambda>x. fresh_setup (fst x)) us \<Longrightarrow> launch us c 0 (members t') = (ls, sv) \<Longrightarrow>
      if list_all fst ls
      then sys_start (thread_pool_size c) (task_queue_capacity c) (running_gateway ls sv) \<and>
        serving fmt test_mode [] (running_gateway ls sv) \<and> length (loops (running_gateway ls sv)) = length us
      else shutdown_requested sv \<and> exit_code (fst (start_finish sv)) = 1" for us ls sv
    using launch_serves [of us c "members t'" ls sv] t'(2,3) by simp
  show ?thesis
  proof (cases "log_path c \<noteq> [] \<and> \<not> openable (log_path c)")
    case True
    then show ?thesis using Inr by (simp add: gateway_main_def set_file_sink)
  next
    case False
    then obtain lg where "logger_set_file openable (log_path c) (new_logger texts) = (Inr (), lg)"
      and lg: "\<forall>ctime ws. (if log_path c = [] then console (announce ctime c ws lg) else the (text_files (announce ctime c ws lg) (log_path c))) =
        (if log_path c = [] then [] else case texts (log_path c) of None \<Rightarrow> [] | Some old \<Rightarrow> old) @ announcements ctime c ws"
      using set_file_chosen [of "log_path c" openable texts] unfolding announce_def announcements_def by blast
    then have "gateway_main files openable fmt test_mode hardware began st (new_logger texts) args = Constructed t lg"
      using Inr t0(1) by (simp add: gateway_main_def t_def)
    then show ?thesis using t'(1) t0(3) t(1,2) lg run by (simp only: main_state.case t(1,2)) (intro exI [of _ t'], metis)
  qed
qed

theorem startup_ready_witness:
  "\<exists>t lg t'. gateway_main (\<lambda>_. None) (\<lambda>_. True) (\<lambda>_. []) False 0 0 \<lparr>storage_log = new_log empty_os, clock = [], uptimes = []\<rparr>
      (new_logger Map.empty) [] = Constructed t lg \<and> start_prepare t = (True, t') \<and>
    sys_start 4 1024 (running_gateway [(True, example_loop)] (members t')) \<and>
    serving (\<lambda>_. []) False [] (running_gateway [(True, example_loop)] (members t'))"
proof -
  let ?st = "\<lparr>storage_log = new_log empty_os, clock = [], uptimes = []\<rparr>"
  have "validate default_config = Inr ()" by (simp add: validate_def default_config_def out_of_double_range_def)
  moreover have "log_path default_config = []" by (simp add: default_config_def)
  ultimately obtain t lg where t: "gateway_main (\<lambda>_. None) (\<lambda>_. True) (\<lambda>_. []) False 0 0 ?st (new_logger Map.empty) [] = Constructed t lg"
      "worker_total t = 1" "config_of t = default_config"
    by (simp add: gateway_main_def from_args_def new_tcp_server_def set_file_sink) (simp add: default_config_def)
  have fresh: "fresh_storage (storage_log ?st)" by (simp add: fresh_storage_new)
  obtain t' where t': "start_prepare t = (True, t')"
    and run: "\<forall>us ls sv. length us = worker_total t \<longrightarrow> list_all (\<lambda>x. fresh_setup (fst x)) us \<longrightarrow>
        launch us (config_of t) 0 (members t') = (ls, sv) \<longrightarrow>
        (if list_all fst ls
         then sys_start (thread_pool_size (config_of t)) (task_queue_capacity (config_of t)) (running_gateway ls sv) \<and>
           serving (\<lambda>_. []) False [] (running_gateway ls sv) \<and> length (loops (running_gateway ls sv)) = worker_total t
         else shutdown_requested sv \<and> exit_code (fst (start_finish sv)) = 1)"
    using startup_ready [OF fresh, where files = "\<lambda>_. None" and openable = "\<lambda>_. True" and texts = Map.empty and fmt = "\<lambda>_. []" and
      test_mode = False and hardware = 0 and began = 0 and args = "[]"] unfolding t(1) main_state.case by blast
  have "launch [(calm_setup, [], quiet_net_script)] (config_of t) 0 (members t') = ([(True, example_loop)], members t')"
    by (simp add: example_worker_setup)
  moreover have "fresh_setup calm_setup" by (simp add: fresh_setup_def calm_setup_def)
  ultimately have "sys_start 4 1024 (running_gateway [(True, example_loop)] (members t')) \<and>
      serving (\<lambda>_. []) False [] (running_gateway [(True, example_loop)] (members t'))"
    using run [rule_format, of "[(calm_setup, [], quiet_net_script)]" "[(True, example_loop)]" "members t'"] t(2,3)
    by (simp add: default_config_def)
  then show ?thesis using t(1) t' by blast
qed

end
